(* ===== verification/Gday_Prelude.thy ===== *)
theory Gday_Prelude
  imports Main "HOL-Library.Word"
begin

text \<open>
  Shared vocabulary of the development: machine integers at their width, the two cargo
  build profiles (they differ in what integer overflow and \<open>debug_assert!\<close> do), the result
  type of a Rust function that may return an error or panic, the poll type of the async
  traits, the big-endian length prefix both wire protocols use, and the generic lemmas on
  lists and words the component theories rest on.
\<close>

section \<open>Proof collections\<close>

named_theorems rust_simps \<open>evaluation of the Rust primitives: checked arithmetic, results, slices\<close>
named_theorems be_simps \<open>facts on the big-endian length prefix\<close>

section \<open>Machine integers, build profiles, results\<close>

type_synonym u8 = "8 word"
type_synonym u16 = "16 word"
type_synonym u32 = "32 word"
type_synonym u64 = "64 word"

text \<open>
  \<open>Debug\<close> is a build with overflow checks and debug assertions (the default of
  \<open>cargo build\<close> and \<open>cargo test\<close>), \<open>Release\<close> one without (\<open>cargo build --release\<close>). The
  workspace sets neither option in its manifests.
\<close>

datatype profile = Debug | Release

datatype panic = AssertionFailed | ArithmeticOverflow | OutOfBounds | UnwrapFailed | UnreachableCode

text \<open>The outcome of a Rust call: a panic, an \<open>Err\<close> or an \<open>Ok\<close> value.\<close>

datatype ('e, 'a) res = Panic panic | Err 'e | Ok 'a

text \<open>The \<open>std::io::Error\<close> kinds the code produces or can meet; other kinds carry a number.\<close>

datatype io_error = UnexpectedEof | InvalidData | WriteZero | OtherIo nat

datatype 'a poll = Pending | Ready 'a

fun bind_res :: "('e, 'a) res \<Rightarrow> ('a \<Rightarrow> ('e, 'b) res) \<Rightarrow> ('e, 'b) res" where
  "bind_res (Panic p) f = Panic p"
| "bind_res (Err e) f = Err e"
| "bind_res (Ok x) f = f x"

lemma bind_res_Ok [rust_simps]:
  "bind_res m f = Ok y \<longleftrightarrow> (\<exists>x. m = Ok x \<and> f x = Ok y)"
  by (cases m) auto

lemma bind_res_cong [fundef_cong]:
  "m = n \<Longrightarrow> (\<And>x. n = Ok x \<Longrightarrow> f x = g x) \<Longrightarrow> bind_res m f = bind_res n g"
  by (cases n) auto

lemma bind_res_assoc: "bind_res (bind_res m f) g = bind_res m (\<lambda>x. bind_res (f x) g)"
  by (cases m) auto

text \<open>The conversion a \<open>?\<close> applies to an error on its way out.\<close>

fun map_err :: "('e \<Rightarrow> 'f) \<Rightarrow> ('e, 'a) res \<Rightarrow> ('f, 'a) res" where
  "map_err f (Panic p) = Panic p"
| "map_err f (Err e) = Err (f e)"
| "map_err f (Ok x) = Ok x"

text \<open>
  A call that updates a state and returns a result: the state is returned on every path,
  since a Rust method keeps the changes it made to \<open>&mut self\<close> when it returns an error.
  \<open>bind_st\<close> is the \<open>?\<close> operator: go on with the value, or return early.
\<close>

fun bind_st :: "'s \<times> ('e, 'a) res \<Rightarrow> ('s \<Rightarrow> 'a \<Rightarrow> 's \<times> ('e, 'b) res) \<Rightarrow> 's \<times> ('e, 'b) res" where
  "bind_st (s, Panic p) f = (s, Panic p)"
| "bind_st (s, Err e) f = (s, Err e)"
| "bind_st (s, Ok x) f = f s x"

text \<open>Applying a fallible function to every element in order, stopping at the first failure.\<close>

fun traverse_res :: "('a \<Rightarrow> ('e, 'b) res) \<Rightarrow> 'a list \<Rightarrow> ('e, 'b list) res" where
  "traverse_res f [] = Ok []"
| "traverse_res f (x # xs) = bind_res (f x) (\<lambda>y. bind_res (traverse_res f xs) (\<lambda>ys. Ok (y # ys)))"

lemma traverse_res_Ok: "(\<And>x. x \<in> set xs \<Longrightarrow> f x = Ok (g x)) \<Longrightarrow> traverse_res f xs = Ok (map g xs)"
  by (induction xs) auto

lemma traverse_res_Ok_id [simp]: "traverse_res Ok xs = Ok xs"
  by (induction xs) auto

lemma traverse_res_Ok_iff: "traverse_res f xs = Ok ys \<longleftrightarrow> list_all2 (\<lambda>x y. f x = Ok y) xs ys"
proof (induction xs arbitrary: ys)
  case Nil
  then show ?case by auto
next
  case (Cons x xs)
  then show ?case by (cases ys) (auto simp: rust_simps)
qed

lemma traverse_res_length: "traverse_res f xs = Ok ys \<Longrightarrow> length ys = length xs"
  by (auto simp: traverse_res_Ok_iff dest: list_all2_lengthD)

lemma traverse_res_cong:
  "xs = ys \<Longrightarrow> (\<And>x. x \<in> set ys \<Longrightarrow> f x = g x) \<Longrightarrow> traverse_res f xs = traverse_res g ys"
  by (induction ys arbitrary: xs) auto

lemma traverse_res_map: "traverse_res f (map g xs) = traverse_res (\<lambda>x. f (g x)) xs"
  by (induction xs) auto

subsection \<open>Integer operations of the standard library\<close>

definition checked_add_u32 :: "u32 \<Rightarrow> u32 \<Rightarrow> u32 option" where
  "checked_add_u32 a b = (if unat a + unat b < 2 ^ 32 then Some (a + b) else None)"

definition checked_mul_u32 :: "u32 \<Rightarrow> u32 \<Rightarrow> u32 option" where
  "checked_mul_u32 a b = (if unat a * unat b < 2 ^ 32 then Some (a * b) else None)"

text \<open>\<open>u32::try_from\<close> of a \<open>usize\<close>.\<close>

definition u32_try_from :: "nat \<Rightarrow> u32 option" where
  "u32_try_from n = (if n < 2 ^ 32 then Some (of_nat n) else None)"

text \<open>\<open>u32::pow\<close>: an overflow panics with overflow checks and wraps without.\<close>

definition u32_pow :: "profile \<Rightarrow> u32 \<Rightarrow> u32 \<Rightarrow> ('e, u32) res" where
  "u32_pow p b e =
     (if unat b ^ unat e < 2 ^ 32 then Ok (b ^ unat e)
      else case p of Debug \<Rightarrow> Panic ArithmeticOverflow | Release \<Rightarrow> Ok (b ^ unat e))"

text \<open>\<open>usize\<close> is a natural number below \<open>2 ^ 64\<close>; its addition follows the same rule.\<close>

definition usize_add :: "profile \<Rightarrow> nat \<Rightarrow> nat \<Rightarrow> ('e, nat) res" where
  "usize_add p a b =
     (if a + b < 2 ^ 64 then Ok (a + b)
      else case p of Debug \<Rightarrow> Panic ArithmeticOverflow | Release \<Rightarrow> Ok ((a + b) mod 2 ^ 64))"

text \<open>\<open>usize\<close> subtraction.\<close>

definition usize_sub :: "profile \<Rightarrow> nat \<Rightarrow> nat \<Rightarrow> ('e, nat) res" where
  "usize_sub p a b =
     (if b \<le> a then Ok (a - b)
      else case p of Debug \<Rightarrow> Panic ArithmeticOverflow | Release \<Rightarrow> Ok (2 ^ 64 + a - b))"

text \<open>\<open>debug_assert!\<close> checks its condition in debug builds only.\<close>

definition debug_assert :: "profile \<Rightarrow> bool \<Rightarrow> ('e, unit) res" where
  "debug_assert p c = (if p = Debug \<and> \<not> c then Panic AssertionFailed else Ok ())"

lemma debug_assert_True [simp, rust_simps]: "debug_assert p True = Ok ()"
  by (simp add: debug_assert_def)

lemma usize_add_Ok [rust_simps]: "a + b < 2 ^ 64 \<Longrightarrow> usize_add p a b = Ok (a + b)"
  by (simp add: usize_add_def)

lemma usize_sub_Ok [rust_simps]: "b \<le> a \<Longrightarrow> usize_sub p a b = Ok (a - b)"
  by (simp add: usize_sub_def)

lemma u32_pow_Ok [rust_simps]: "unat b ^ unat e < 2 ^ 32 \<Longrightarrow> u32_pow p b e = Ok (b ^ unat e)"
  by (simp add: u32_pow_def)

lemma u32_try_from_Some [rust_simps]: "n < 2 ^ 32 \<Longrightarrow> u32_try_from n = Some (of_nat n)"
  by (simp add: u32_try_from_def)

lemma unat_of_nat_u32 [rust_simps]: "n < 2 ^ 32 \<Longrightarrow> unat (of_nat n :: u32) = n"
  by (simp add: unat_of_nat take_bit_nat_eq_self)

lemma checked_add_u32_Some [rust_simps]:
  "unat a + unat b < 2 ^ 32 \<Longrightarrow> checked_add_u32 a b = Some (a + b)"
  by (simp add: checked_add_u32_def)

lemma checked_mul_u32_Some [rust_simps]:
  "unat a * unat b < 2 ^ 32 \<Longrightarrow> checked_mul_u32 a b = Some (a * b)"
  by (simp add: checked_mul_u32_def)

section \<open>Slices\<close>

text \<open>\<open>slice.get(a..b)\<close>: \<open>None\<close> out of range.\<close>

definition get_range :: "'a list \<Rightarrow> nat \<Rightarrow> nat \<Rightarrow> 'a list option" where
  "get_range xs a b = (if a \<le> b \<and> b \<le> length xs then Some (take (b - a) (drop a xs)) else None)"

text \<open>\<open>&slice[a..b]\<close>: a panic out of range.\<close>

definition index_range :: "'a list \<Rightarrow> nat \<Rightarrow> nat \<Rightarrow> ('e, 'a list) res" where
  "index_range xs a b =
     (if a \<le> b \<and> b \<le> length xs then Ok (take (b - a) (drop a xs)) else Panic OutOfBounds)"

text \<open>\<open>iter().position(|c| c == x)\<close>.\<close>

fun position :: "'a list \<Rightarrow> 'a \<Rightarrow> nat option" where
  "position [] x = None"
| "position (y # ys) x = (if y = x then Some 0 else map_option Suc (position ys x))"

lemma position_Some: "position xs x = Some i \<Longrightarrow> i < length xs \<and> xs ! i = x"
  by (induction xs arbitrary: i) (auto split: if_splits)

lemma position_None: "position xs x = None \<longleftrightarrow> x \<notin> set xs"
  by (induction xs) auto

lemma position_nth: "distinct xs \<Longrightarrow> i < length xs \<Longrightarrow> position xs (xs ! i) = Some i"
proof (induction xs arbitrary: i)
  case Nil
  then show ?case by simp
next
  case (Cons y ys)
  then show ?case by (cases i) (auto simp: nth_Cons')
qed

section \<open>The big-endian length prefix\<close>

text \<open>\<open>u32::to_be_bytes\<close> and \<open>u32::from_be_bytes\<close>.\<close>

definition u32_to_be_bytes :: "u32 \<Rightarrow> u8 list" where
  "u32_to_be_bytes w =
     [of_nat (unat w div 2 ^ 24), of_nat (unat w div 2 ^ 16), of_nat (unat w div 2 ^ 8), of_nat (unat w)]"

fun u32_from_be_bytes :: "u8 list \<Rightarrow> u32" where
  "u32_from_be_bytes [a, b, c, d] =
     of_nat (unat a * 2 ^ 24 + unat b * 2 ^ 16 + unat c * 2 ^ 8 + unat d)"
| "u32_from_be_bytes _ = 0"

lemma length_u32_to_be_bytes [simp]: "length (u32_to_be_bytes w) = 4"
  by (simp add: u32_to_be_bytes_def)

lemma unat_of_nat_u8: "unat (of_nat n :: u8) = n mod 256"
  by (simp add: unat_of_nat take_bit_eq_mod)

lemma be_digits:
  fixes n :: nat
  assumes "n < 2 ^ 32"
  shows "n div 2 ^ 24 mod 256 * 2 ^ 24 + n div 2 ^ 16 mod 256 * 2 ^ 16 + n div 2 ^ 8 mod 256 * 2 ^ 8 + n mod 256 = n"
proof -
  define a b c where "a = n div 2 ^ 24" and "b = n div 2 ^ 16" and "c = n div 2 ^ 8"
  have "a mod 256 = a" using assms by (simp add: a_def)
  moreover have "b = a * 256 + b mod 256"
    using div_mult_mod_eq [of b 256] by (simp add: a_def b_def div_mult2_eq [symmetric])
  moreover have "c = b * 256 + c mod 256"
    using div_mult_mod_eq [of c 256] by (simp add: b_def c_def div_mult2_eq [symmetric])
  moreover have "n = c * 256 + n mod 256"
    using div_mult_mod_eq [of n 256] by (simp add: c_def)
  ultimately have "n = a * 16777216 + b mod 256 * 65536 + c mod 256 * 256 + n mod 256"
    by linarith
  with \<open>a mod 256 = a\<close> show ?thesis by (simp add: a_def b_def c_def)
qed

lemma unat_less_u32: "unat (w :: u32) < 2 ^ 32"
  using unsigned_less [of w, where 'a = nat] by simp

lemma u32_from_to_be_bytes [simp, be_simps]: "u32_from_be_bytes (u32_to_be_bytes w) = w"
  unfolding u32_to_be_bytes_def u32_from_be_bytes.simps unat_of_nat_u8
  by (subst be_digits [OF unat_less_u32]) simp

text \<open>The frame of a message: its length in four bytes, then the message.\<close>

definition frame :: "u8 list \<Rightarrow> u8 list" where
  "frame body = u32_to_be_bytes (of_nat (length body)) @ body"

lemma length_frame [simp]: "length (frame body) = 4 + length body"
  by (simp add: frame_def)

text \<open>Where a byte sequence that starts with a frame is cut.\<close>

lemma frame_prefix:
  assumes "d @ rest = frame body @ more" and "length body < 2 ^ 32"
  shows "4 \<le> length d \<Longrightarrow> get_range d 0 4 = Some (u32_to_be_bytes (of_nat (length body)))"
    and "get_range d 4 (4 + length body) = (if 4 + length body \<le> length d then Some body else None)"
proof -
  have t: "take n d = take n (frame body @ more)" if "n \<le> length d" for n
    using that by (simp add: assms(1) [symmetric])
  show "get_range d 0 4 = Some (u32_to_be_bytes (of_nat (length body)))" if "4 \<le> length d"
    using that t [of 4] by (simp add: get_range_def frame_def)
  show "get_range d 4 (4 + length body) = (if 4 + length body \<le> length d then Some body else None)"
  proof (cases "4 + length body \<le> length d")
    case True
    then have "take (length body) (drop 4 d) = body"
      using t [OF True] by (simp add: take_drop frame_def add.commute)
    with True show ?thesis by (simp add: get_range_def)
  qed (simp add: get_range_def)
qed

section \<open>Calls of asynchronous operations\<close>

text \<open>
  A poll function that contains a loop may fail to return: \<open>None\<close>. Otherwise it returns the
  state it leaves and \<open>Pending\<close> or a result. \<open>bind_run\<close> is \<open>ready!(call)?\<close>: go on with the
  value, or return what the call returned.
\<close>

type_synonym ('s, 'a) run = "('s \<times> (io_error, 'a) res poll) option"

fun bind_run :: "('s, 'a) run \<Rightarrow> ('s \<Rightarrow> 'a \<Rightarrow> ('s, 'b) run) \<Rightarrow> ('s, 'b) run" where
  "bind_run None f = None"
| "bind_run (Some (s, Pending)) f = Some (s, Pending)"
| "bind_run (Some (s, Ready (Panic p))) f = Some (s, Ready (Panic p))"
| "bind_run (Some (s, Ready (Err e))) f = Some (s, Ready (Err e))"
| "bind_run (Some (s, Ready (Ok x))) f = f s x"

lemma run_cases [case_names None Pending Panic Err Ok]:
  obtains "m = None" | s where "m = Some (s, Pending)" | s p where "m = Some (s, Ready (Panic p))"
    | s e where "m = Some (s, Ready (Err e))" | s x where "m = Some (s, Ready (Ok x))"
  by (metis option.exhaust surj_pair poll.exhaust res.exhaust)

lemma bind_run_Some:
  "bind_run m f = Some y \<longleftrightarrow>
     (\<exists>s r. m = Some (s, r) \<and>
        (case r of Ready (Ok x) \<Rightarrow> f s x = Some y
         | Ready (Err e) \<Rightarrow> y = (s, Ready (Err e)) | Ready (Panic p) \<Rightarrow> y = (s, Ready (Panic p))
         | Pending \<Rightarrow> y = (s, Pending)))"
  by (cases m rule: run_cases) auto

lemma bind_run_None:
  "bind_run m f = None \<longleftrightarrow> m = None \<or> (\<exists>s x. m = Some (s, Ready (Ok x)) \<and> f s x = None)"
  by (cases m rule: run_cases) auto

lemma bind_run_total [simp]: "\<exists>a b. bind_run (Some (s, r)) (\<lambda>s x. Some (g s x)) = Some (a, b)"
  by (cases "Some (s, r)" rule: run_cases) auto

text \<open>A call that returns at once, as a run.\<close>

fun done_run :: "'s \<times> (io_error, 'a) res \<Rightarrow> ('s, 'a) run" where
  "done_run (s, r) = Some (s, Ready r)"

lemma done_run_returns [simp]: "\<exists>s r. done_run c = Some (s, r)" "done_run c \<noteq> None"
  by (cases c; simp)+

section \<open>Recursion with fuel\<close>

text \<open>
  A recursion over a structure outside of the program takes fuel; \<open>None\<close> means that it ran out.
  \<open>bind_fuel\<close> is the \<open>?\<close> operator there.
\<close>

fun bind_fuel :: "('e, 'a) res option \<Rightarrow> ('a \<Rightarrow> ('e, 'b) res option) \<Rightarrow> ('e, 'b) res option" where
  "bind_fuel None f = None"
| "bind_fuel (Some (Panic p)) f = Some (Panic p)"
| "bind_fuel (Some (Err e)) f = Some (Err e)"
| "bind_fuel (Some (Ok x)) f = f x"

lemma bind_fuel_cong [fundef_cong]:
  "m = n \<Longrightarrow> (\<And>x. n = Some (Ok x) \<Longrightarrow> f x = g x) \<Longrightarrow> bind_fuel m f = bind_fuel n g"
  by (cases "(n, f)" rule: bind_fuel.cases) auto

lemma bind_fuel_Ok [rust_simps]:
  "bind_fuel m f = Some (Ok y) \<longleftrightarrow> (\<exists>x. m = Some (Ok x) \<and> f x = Some (Ok y))"
  by (cases "(m, f)" rule: bind_fuel.cases) auto

lemma snd_bind_st_Ok: "snd (bind_st m f) = Ok y \<longleftrightarrow> (\<exists>s x. m = (s, Ok x) \<and> snd (f s x) = Ok y)"
  by (cases "(m, f)" rule: bind_st.cases) auto

section \<open>Invariants of step relations\<close>

text \<open>The proof rule of an invariant, for every step relation of the development that starts in one state.\<close>

locale invariant_system =
  fixes init :: 's and step :: "'s \<Rightarrow> 's \<Rightarrow> bool" and inv :: "'s \<Rightarrow> bool"
  assumes inv_init: "inv init" and inv_step: "inv s \<Longrightarrow> step s t \<Longrightarrow> inv t"
begin

lemma inv_reachable: "step\<^sup>*\<^sup>* init s \<Longrightarrow> inv s"
  by (induction rule: rtranclp_induct) (auto intro: inv_init inv_step)

lemma reachable_step_inv: "step\<^sup>*\<^sup>* init s \<Longrightarrow> step s t \<Longrightarrow> inv s \<and> inv t"
  using inv_reachable inv_step by blast

end

end
