(* ===== verification/Wire_Types.thy ===== *)
theory Wire_Types
  imports Gday_Prelude
begin

text \<open>
  The data the hole-punching client and server exchange
  (\<^verbatim>\<open>gday_hole_punch/src/lib.rs\<close>): socket addresses, contacts and the two message
  enumerations, with the abstract view of a contact as a partial map from address slots.
\<close>

section \<open>Socket addresses of the standard library\<close>

datatype ip_addr = IpV4 u32 | IpV6 "128 word"

record socket_addr_v4 =
  v4_ip :: u32
  v4_port :: u16

record socket_addr_v6 =
  v6_ip :: "128 word"
  v6_port :: u16
  v6_flowinfo :: u32
  v6_scope_id :: u32

datatype socket_addr = V4 socket_addr_v4 | V6 socket_addr_v6

fun addr_ip :: "socket_addr \<Rightarrow> ip_addr" where
  "addr_ip (V4 a) = IpV4 (v4_ip a)"
| "addr_ip (V6 a) = IpV6 (v6_ip a)"

section \<open>Contacts and messages\<close>

record contact =
  ct_v6 :: "socket_addr_v6 option"
  ct_v4 :: "socket_addr_v4 option"

record full_contact =
  fc_private :: contact
  fc_public :: contact

definition default_contact :: contact where
  "default_contact = \<lparr>ct_v6 = None, ct_v4 = None\<rparr>"

definition default_full_contact :: full_contact where
  "default_full_contact = \<lparr>fc_private = default_contact, fc_public = default_contact\<rparr>"

datatype client_message =
  CreateRoom | JoinRoom u32 | SendPrivateAddr "socket_addr option" | DoneSending

datatype server_message =
  RoomCreated u32 | RoomJoined | SharePeerContacts full_contact full_contact
  | SyntaxError | ErrorNoSuchRoomID

section \<open>The address slots of a contact\<close>

datatype family = FamV4 | FamV6

fun family_of :: "socket_addr \<Rightarrow> family" where
  "family_of (V4 a) = FamV4"
| "family_of (V6 a) = FamV6"

text \<open>A full contact as a partial map: public or private, and the address family.\<close>

fun slots :: "full_contact \<Rightarrow> bool \<times> family \<Rightarrow> socket_addr option" where
  "slots fc (pub, FamV4) = map_option V4 (ct_v4 (if pub then fc_public fc else fc_private fc))"
| "slots fc (pub, FamV6) = map_option V6 (ct_v6 (if pub then fc_public fc else fc_private fc))"

lemma slots_default [simp]: "slots default_full_contact = Map.empty"
proof
  fix x :: "bool \<times> family"
  obtain pub f where "x = (pub, f)" by (cases x)
  then show "slots default_full_contact x = None"
    by (cases f) (simp_all add: default_full_contact_def default_contact_def)
qed

lemma slots_family: "slots fc (pub, f) = Some a \<Longrightarrow> family_of a = f"
  by (cases f) auto

text \<open>The slots determine the contact, so the abstraction loses nothing.\<close>

lemma slots_inject: "slots fc = slots fd \<longleftrightarrow> fc = fd"
proof
  assume eq: "slots fc = slots fd"
  have "ct_v4 (fc_public fc) = ct_v4 (fc_public fd)" "ct_v4 (fc_private fc) = ct_v4 (fc_private fd)"
    using fun_cong [OF eq, of "(True, FamV4)"] fun_cong [OF eq, of "(False, FamV4)"]
    by (auto dest: option.inj_map_strong [rotated])
  moreover have "ct_v6 (fc_public fc) = ct_v6 (fc_public fd)" "ct_v6 (fc_private fc) = ct_v6 (fc_private fd)"
    using fun_cong [OF eq, of "(True, FamV6)"] fun_cong [OF eq, of "(False, FamV6)"]
    by (auto dest: option.inj_map_strong [rotated])
  ultimately show "fc = fd" by simp
qed simp

end
