(* ===== verification/Accept_Loop.thy ===== *)
theory Accept_Loop
  imports Wire_Types "HOL-Library.Multiset"
begin

text \<open>
  The accept loop of the server, \<open>run\<close> and \<open>serve_client\<close> of \<^verbatim>\<open>gday_hole_punch/src/server.rs\<close>: it
  is to serve one connection per address every five seconds. A served address is entered into
  the map \<open>blocked\<close>; while it is there, new connections from it are parked, the newest replacing
  an older one, and a timer removes the entry and serves the parked connection.

  The map is shared by the loop and by the timer tasks of a multi-threaded runtime. Both look
  into it under its mutex and release the mutex before they call \<open>serve_client\<close>, which takes it
  again, so a step is one critical section: \<open>acc_step\<close> interleaves them freely. The insertion into
  the map and the two tasks that \<open>serve_client\<close> spawns after it are one step; a timer counts from
  there. \<open>seq_step\<close> is the same program with each decision and the call that follows it in one step.
\<close>

section \<open>The state\<close>

text \<open>
  The listener and its streams are parameters: which streams with which addresses \<open>accept\<close> can
  return, and what \<open>peer_addr\<close> answers.
\<close>

record 's listener =
  li_accepts :: "'s \<Rightarrow> socket_addr \<Rightarrow> bool"
  li_peer_addr :: "'s \<Rightarrow> (io_error, socket_addr) res"

text \<open>
  \<open>al_timers\<close> holds the sleeping tasks with the second they wake up, \<open>al_started\<close> the handler tasks
  spawned so far, with second, address and stream. \<open>al_main\<close> and \<open>al_woken\<close> hold the streams that
  the loop and woken timers are about to serve. A stream that is overwritten is dropped.
\<close>

record 's accept_state =
  al_now :: nat
  al_blocked :: "ip_addr \<rightharpoonup> 's option"
  al_timers :: "(ip_addr \<times> nat) multiset"
  al_started :: "(nat \<times> ip_addr \<times> 's) list"
  al_main :: "'s option"
  al_woken :: "'s multiset"

definition init_accept :: "'s accept_state" where
  "init_accept = \<lparr>al_now = 0, al_blocked = Map.empty, al_timers = {#}, al_started = [], al_main = None,
     al_woken = {#}\<rparr>"

section \<open>The operations\<close>

fun mset_opt :: "'s option \<Rightarrow> 's multiset" where
  "mset_opt None = {#}"
| "mset_opt (Some s) = {#s#}"

text \<open>The critical section of \<open>run\<close>: park the stream, or go on to serve it.\<close>

definition run_accept :: "'s accept_state \<Rightarrow> 's \<Rightarrow> socket_addr \<Rightarrow> 's accept_state \<times> 's option" where
  "run_accept g stream addr =
     (case al_blocked g (addr_ip addr) of
        Some stream_option \<Rightarrow> (g\<lparr>al_blocked := (al_blocked g)(addr_ip addr \<mapsto> Some stream)\<rparr>, None)
      | None \<Rightarrow> (g, Some stream))"

text \<open>
  \<open>serve_client\<close>: the entry, the timer and the task of the connection. Without a peer address the
  stream is dropped.
\<close>

definition serve_client :: "'s listener \<Rightarrow> 's accept_state \<Rightarrow> 's \<Rightarrow> 's accept_state" where
  "serve_client L g tcp_stream =
     (case li_peer_addr L tcp_stream of
        Ok a \<Rightarrow>
          let addr = addr_ip a
          in g\<lparr>al_blocked := (al_blocked g)(addr \<mapsto> None),
               al_timers := al_timers g + {#(addr, al_now g + 5)#},
               al_started := al_started g @ [(al_now g, addr, tcp_stream)]\<rparr>
      | _ \<Rightarrow> g)"

text \<open>The critical section of the timer task: remove the entry, go on to serve a parked stream.\<close>

definition timer_wakes :: "'s accept_state \<Rightarrow> ip_addr \<times> nat \<Rightarrow> 's accept_state \<times> 's option" where
  "timer_wakes g t =
     (g\<lparr>al_blocked := (al_blocked g)(fst t := None), al_timers := al_timers g - {#t#}\<rparr>,
      case al_blocked g (fst t) of Some (Some tcp_stream) \<Rightarrow> Some tcp_stream | _ \<Rightarrow> None)"

inductive acc_step :: "'s listener \<Rightarrow> 's accept_state \<Rightarrow> 's accept_state \<Rightarrow> bool" for L where
  acc_accept: "al_main g = None \<Longrightarrow> li_accepts L stream addr \<Longrightarrow> run_accept g stream addr = (g', todo) \<Longrightarrow>
    acc_step L g (g'\<lparr>al_main := todo\<rparr>)"
| acc_serve: "al_main g = Some stream \<Longrightarrow> acc_step L g (serve_client L (g\<lparr>al_main := None\<rparr>) stream)"
| acc_wake: "t \<in># al_timers g \<Longrightarrow> snd t \<le> al_now g \<Longrightarrow> timer_wakes g t = (g', todo) \<Longrightarrow>
    acc_step L g (g'\<lparr>al_woken := al_woken g + mset_opt todo\<rparr>)"
| acc_serve_woken: "stream \<in># al_woken g \<Longrightarrow>
    acc_step L g (serve_client L (g\<lparr>al_woken := al_woken g - {#stream#}\<rparr>) stream)"
| acc_tick: "acc_step L g (g\<lparr>al_now := Suc (al_now g)\<rparr>)"

text \<open>The two tasks in one piece.\<close>

definition serve_opt :: "'s listener \<Rightarrow> 's accept_state \<times> 's option \<Rightarrow> 's accept_state" where
  "serve_opt L r = (case snd r of None \<Rightarrow> fst r | Some stream \<Rightarrow> serve_client L (fst r) stream)"

inductive seq_step :: "'s listener \<Rightarrow> 's accept_state \<Rightarrow> 's accept_state \<Rightarrow> bool" for L where
  seq_accept: "li_accepts L stream addr \<Longrightarrow> seq_step L g (serve_opt L (run_accept g stream addr))"
| seq_wake: "t \<in># al_timers g \<Longrightarrow> snd t \<le> al_now g \<Longrightarrow> seq_step L g (serve_opt L (timer_wakes g t))"
| seq_tick: "seq_step L g (g\<lparr>al_now := Suc (al_now g)\<rparr>)"

section \<open>What is to hold\<close>

text \<open>Every entry of the map has a task asleep that will remove it.\<close>

definition entries_expire :: "'s accept_state \<Rightarrow> bool" where
  "entries_expire g \<longleftrightarrow> (\<forall>ip \<in> dom (al_blocked g). \<exists>d. (ip, d) \<in># al_timers g)"

text \<open>Two connections of one address are served at least five seconds apart.\<close>

fun spaced :: "(nat \<times> ip_addr \<times> 's) list \<Rightarrow> bool" where
  "spaced [] = True"
| "spaced ((t, ip, s) # xs) \<longleftrightarrow> list_all (\<lambda>(u, jp, _). jp = ip \<longrightarrow> t + 5 \<le> u) xs \<and> spaced xs"

text \<open>The timers of an address.\<close>

definition timers_of :: "'s accept_state \<Rightarrow> ip_addr \<Rightarrow> (ip_addr \<times> nat) multiset" where
  "timers_of g ip = filter_mset (\<lambda>t. fst t = ip) (al_timers g)"

text \<open>
  The invariant of the sequential program: an address has one timer while it is blocked and
  none otherwise, a connection that started less than five seconds ago is covered by it, and a
  parked stream belongs to the address it is parked at.
\<close>

definition seq_inv :: "'s listener \<Rightarrow> 's accept_state \<Rightarrow> bool" where
  "seq_inv L g \<longleftrightarrow>
     (\<forall>ip s a. al_blocked g ip = Some (Some s) \<longrightarrow> li_peer_addr L s = Ok a \<longrightarrow> addr_ip a = ip) \<and>
     (\<forall>ip. size (timers_of g ip) = (if ip \<in> dom (al_blocked g) then 1 else 0)) \<and>
     (\<forall>(t, ip, s) \<in> set (al_started g). al_now g < t + 5 \<longrightarrow> (\<exists>d. (ip, d) \<in># al_timers g \<and> t + 5 \<le> d)) \<and>
     spaced (al_started g)"

text \<open>Streams as numbers, all from one address, for concrete runs.\<close>

definition one_client :: "nat listener" where
  "one_client = \<lparr>li_accepts = (\<lambda>s a. a = V4 \<lparr>v4_ip = 7, v4_port = 1\<rparr>), li_peer_addr = (\<lambda>s. Ok (V4 \<lparr>v4_ip = 7, v4_port = 1\<rparr>))\<rparr>"

section \<open>The loop and the timers interleaved\<close>

lemma run_accept_cases:
  obtains s where "al_blocked g (addr_ip addr) = Some s"
      "run_accept g stream addr = (g\<lparr>al_blocked := (al_blocked g)(addr_ip addr \<mapsto> Some stream)\<rparr>, None)"
  | "al_blocked g (addr_ip addr) = None" "run_accept g stream addr = (g, Some stream)"
  by (cases "al_blocked g (addr_ip addr)") (auto simp: run_accept_def)

lemma run_accept_keeps:
  fixes g :: "'s accept_state"
  assumes "run_accept g stream addr = (g', todo)"
  shows "dom (al_blocked g') = dom (al_blocked g)" "al_timers g' = al_timers g"
proof -
  have "dom (al_blocked g') = dom (al_blocked g) \<and> al_timers g' = al_timers g"
  proof (cases rule: run_accept_cases [of g addr stream])
    case (1 s)
    then have "insert (addr_ip addr) (dom (al_blocked g)) = dom (al_blocked g)" by auto
    then show ?thesis using 1(2) assms by auto
  qed (use assms in auto)
  then show "dom (al_blocked g') = dom (al_blocked g)" "al_timers g' = al_timers g" by simp_all
qed

lemma serve_client_expire: "entries_expire g \<Longrightarrow> entries_expire (serve_client L g s)"
  by (auto simp: entries_expire_def serve_client_def Let_def split: res.split)

interpretation expiry: invariant_system init_accept "acc_step L" entries_expire for L :: "'s listener"
proof
  show "entries_expire (init_accept :: 's accept_state)" by (simp add: entries_expire_def init_accept_def)
next
  fix g g' :: "'s accept_state"
  assume inv: "entries_expire g" and "acc_step L g g'"
  from this(2) show "entries_expire g'"
  proof cases
    case (acc_accept stream addr h todo)
    note run_accept_keeps [OF acc_accept(4)]
    then show ?thesis using acc_accept(1) inv by (simp add: entries_expire_def)
  next
    case (acc_wake t h todo)
    have "(ip, d) \<in># al_timers g - {#t#}" if "ip \<noteq> fst t" "(ip, d) \<in># al_timers g" for ip d
      using that by (auto simp: in_diff_count)
    then have "\<exists>d. (ip, d) \<in># al_timers g - {#t#}" if "ip \<noteq> fst t" "al_blocked g ip = Some e" for ip e
      using that inv unfolding entries_expire_def by (meson domI)
    then show ?thesis using acc_wake by (auto simp: timer_wakes_def entries_expire_def split: if_splits)
  next
    case acc_tick
    then show ?thesis using inv by (simp add: entries_expire_def)
  qed (use inv in \<open>auto simp: entries_expire_def [of "g\<lparr>al_main := None\<rparr>"] entries_expire_def [of "g\<lparr>al_woken := w\<rparr>" for w]
      entries_expire_def [of g] intro!: serve_client_expire\<close>)
qed

section \<open>The loop and the timers one at a time\<close>

text \<open>Accepting returns the address of the peer, which \<open>peer_addr\<close> returns as long as it is known.\<close>

locale tcp_listener =
  fixes L :: "'s listener"
  assumes accept_addr: "li_accepts L s a \<Longrightarrow> li_peer_addr L s = Ok b \<Longrightarrow> b = a"

interpretation one_client: tcp_listener one_client
  by unfold_locales (simp add: one_client_def)

lemma spaced_append:
  "spaced (xs @ [(u, ip, s)]) \<longleftrightarrow> spaced xs \<and> (\<forall>(t, jp, r) \<in> set xs. jp = ip \<longrightarrow> t + 5 \<le> u)"
  by (induction xs rule: spaced.induct) (auto simp: list_all_iff)

lemma timers_of_empty: "timers_of g ip = {#} \<Longrightarrow> (ip, d) \<notin># al_timers g"
  by (auto simp: timers_of_def filter_mset_eq_conv dest: arg_cong [of _ _ set_mset])

lemma seq_invI:
  assumes "\<And>ip s a. al_blocked g ip = Some (Some s) \<Longrightarrow> li_peer_addr L s = Ok a \<Longrightarrow> addr_ip a = ip"
    and "\<And>ip. size (timers_of g ip) = (if ip \<in> dom (al_blocked g) then 1 else 0)"
    and "\<And>t ip s. (t, ip, s) \<in> set (al_started g) \<Longrightarrow> al_now g < t + 5 \<Longrightarrow> \<exists>d. (ip, d) \<in># al_timers g \<and> t + 5 \<le> d"
    and "spaced (al_started g)"
  shows "seq_inv L g"
  using assms by (auto simp: seq_inv_def)

lemma seq_invD:
  assumes "seq_inv L g"
  shows "al_blocked g ip = Some (Some s) \<Longrightarrow> li_peer_addr L s = Ok a \<Longrightarrow> addr_ip a = ip"
    and "size (timers_of g ip) = (if ip \<in> dom (al_blocked g) then 1 else 0)"
    and "(t, ip, s) \<in> set (al_started g) \<Longrightarrow> al_now g < t + 5 \<Longrightarrow> \<exists>d. (ip, d) \<in># al_timers g \<and> t + 5 \<le> d"
    and "spaced (al_started g)"
  using assms by (fastforce simp: seq_inv_def)+

lemma serve_fresh:
  assumes inv: "seq_inv L g" and fresh: "\<And>a. li_peer_addr L s = Ok a \<Longrightarrow> al_blocked g (addr_ip a) = None"
  shows "seq_inv L (serve_client L g s)"
proof (cases "li_peer_addr L s")
  case (Ok a)
  let ?ip = "addr_ip a" and ?g = "serve_client L g s"
  have none: "timers_of g ?ip = {#}" using seq_invD(2) [OF inv, of ?ip] fresh [OF Ok] by (simp add: domIff)
  have old: "t + 5 \<le> al_now g" if "(t, ?ip, r) \<in> set (al_started g)" for t r
    using seq_invD(3) [OF inv that] timers_of_empty [OF none] by (meson not_le)
  have g: "al_blocked ?g = (al_blocked g)(?ip \<mapsto> None)" "al_timers ?g = al_timers g + {#(?ip, al_now g + 5)#}"
    "al_started ?g = al_started g @ [(al_now g, ?ip, s)]" "al_now ?g = al_now g"
    by (simp_all add: serve_client_def Ok Let_def)
  show ?thesis
  proof (rule seq_invI)
    show "size (timers_of ?g ip) = (if ip \<in> dom (al_blocked ?g) then 1 else 0)" for ip
    proof -
      have "timers_of ?g ip = timers_of g ip + (if ip = ?ip then {#(?ip, al_now g + 5)#} else {#})"
        by (simp add: timers_of_def g)
      then show ?thesis using seq_invD(2) [OF inv, of ip] none by (cases "ip = ?ip") (simp_all add: g)
    qed
    show "\<exists>d. (ip, d) \<in># al_timers ?g \<and> t + 5 \<le> d"
      if "(t, ip, r) \<in> set (al_started ?g)" "al_now ?g < t + 5" for t ip r
      using that seq_invD(3) [OF inv, of t ip r] by (auto simp: g)
    show "spaced (al_started ?g)" using seq_invD(4) [OF inv] old by (auto simp: g spaced_append)
    show "addr_ip b = ip" if "al_blocked ?g ip = Some (Some r)" "li_peer_addr L r = Ok b" for ip r b
      using that seq_invD(1) [OF inv] by (auto simp: g split: if_splits)
  qed
qed (use inv in \<open>auto simp: serve_client_def seq_inv_def timers_of_def\<close>)

lemma wake_seq_inv:
  assumes inv: "seq_inv L g" and t: "t \<in># al_timers g" "snd t \<le> al_now g"
  shows "seq_inv L (fst (timer_wakes g t))"
proof -
  let ?g = "fst (timer_wakes g t)"
  have g: "al_blocked ?g = (al_blocked g)(fst t := None)" "al_timers ?g = al_timers g - {#t#}"
    "al_started ?g = al_started g" "al_now ?g = al_now g"
    by (simp_all add: timer_wakes_def)
  have "t \<in># timers_of g (fst t)" using t by (simp add: timers_of_def)
  then have one: "timers_of g (fst t) = {#t#}"
    using seq_invD(2) [OF inv, of "fst t"] size_1_singleton_mset [of "timers_of g (fst t)"]
    by (auto split: if_splits)
  have only: "u = t" if "u \<in># al_timers g" "fst u = fst t" for u
  proof -
    have "u \<in># timers_of g (fst t)" using that by (simp add: timers_of_def)
    then show ?thesis by (simp add: one)
  qed
  have other: "timers_of ?g ip = timers_of g ip - (if ip = fst t then {#t#} else {#})" for ip
    by (auto simp: timers_of_def g)
  show ?thesis
  proof (rule seq_invI)
    show "size (timers_of ?g ip) = (if ip \<in> dom (al_blocked ?g) then 1 else 0)" for ip
      using seq_invD(2) [OF inv, of ip] one by (auto simp: other g domIff)
    show "\<exists>d. (ip, d) \<in># al_timers ?g \<and> u + 5 \<le> d"
      if new: "(u, ip, r) \<in> set (al_started ?g)" "al_now ?g < u + 5" for u ip r
    proof -
      obtain d where d: "(ip, d) \<in># al_timers g" "u + 5 \<le> d" using seq_invD(3) [OF inv, of u ip r] new g by auto
      then have "(ip, d) \<noteq> t" using t(2) new(2) by (auto simp: g)
      then show ?thesis using d by (auto simp: g in_diff_count)
    qed
    show "spaced (al_started ?g)" using seq_invD(4) [OF inv] by (simp add: g)
    show "addr_ip b = ip" if "al_blocked ?g ip = Some (Some r)" "li_peer_addr L r = Ok b" for ip r b
      using that seq_invD(1) [OF inv] by (auto simp: g split: if_splits)
  qed
qed

lemma wake_serves_own:
  assumes "seq_inv L g" and "timer_wakes g t = (g', Some s)" and "li_peer_addr L s = Ok a"
  shows "al_blocked g' (addr_ip a) = None"
  using assms seq_invD(1) [OF assms(1), of "fst t" s a] by (auto simp: timer_wakes_def split: option.splits)

sublocale tcp_listener \<subseteq> spacing: invariant_system init_accept "seq_step L" "seq_inv L"
proof
  show "seq_inv L init_accept" by (simp add: seq_inv_def init_accept_def timers_of_def)
next
  fix g h
  assume inv: "seq_inv L g" and "seq_step L g h"
  from this(2) show "seq_inv L h"
  proof cases
    case (seq_accept stream addr)
    show ?thesis
    proof (cases rule: run_accept_cases [of g addr stream])
      case (1 s)
      then have "insert (addr_ip addr) (dom (al_blocked g)) = dom (al_blocked g)" by auto
      then show ?thesis
        using 1 inv accept_addr [OF seq_accept(2)]
        by (auto simp: seq_accept(1) serve_opt_def seq_inv_def timers_of_def)
    next
      case 2
      have "seq_inv L (serve_client L g stream)"
        by (rule serve_fresh [OF inv]) (use 2 accept_addr [OF seq_accept(2)] in auto)
      then show ?thesis using 2 by (simp add: seq_accept(1) serve_opt_def)
    qed
  next
    case (seq_wake t)
    obtain g' todo where w: "timer_wakes g t = (g', todo)" by fastforce
    then have "seq_inv L g'" using wake_seq_inv [OF inv seq_wake(2,3)] by simp
    then show ?thesis
      using w wake_serves_own [OF inv, of t g'] serve_fresh [of L g']
      by (cases todo) (simp_all add: seq_wake(1) serve_opt_def)
  next
    case seq_tick
    have "\<exists>d. (ip, d) \<in># al_timers g \<and> t + 5 \<le> d" if "(t, ip, s) \<in> set (al_started g)" "Suc (al_now g) < t + 5" for t ip s
      using seq_invD(3) [OF inv that(1)] that(2) by simp
    then show ?thesis using inv by (fastforce simp: seq_tick seq_inv_def timers_of_def)
  qed
qed

context tcp_listener
begin

lemma started_spaced: "(seq_step L)\<^sup>*\<^sup>* init_accept g \<Longrightarrow> spaced (al_started g)"
  by (rule seq_invD(4) [OF spacing.inv_reachable])

end

text \<open>One step of the sequential program is a run of the interleaved one.\<close>

lemma seq_step_acc:
  assumes "seq_step L g h" and "al_main g = None" and "al_woken g = {#}"
  shows "(acc_step L)\<^sup>*\<^sup>* g h \<and> al_main h = None \<and> al_woken h = {#}"
  using assms(1)
proof cases
  case (seq_accept stream addr)
  obtain g' todo where r: "run_accept g stream addr = (g', todo)" by fastforce
  then have g': "al_main g' = None" "al_woken g' = {#}"
    using assms(2,3) by (auto simp: run_accept_def Let_def split: option.splits)
  have s1: "acc_step L g (g'\<lparr>al_main := todo\<rparr>)" using acc_accept [OF assms(2) seq_accept(2) r] .
  show ?thesis
  proof (cases todo)
    case None
    then have "h = g'\<lparr>al_main := todo\<rparr>" using g' r by (simp add: seq_accept(1) serve_opt_def)
    then show ?thesis using s1 None g' by auto
  next
    case (Some s)
    have same: "g'\<lparr>al_main := None\<rparr> = g'" using g' by simp
    from Some have "acc_step L (g'\<lparr>al_main := todo\<rparr>) h"
      using acc_serve [of "g'\<lparr>al_main := todo\<rparr>" s L] g' r by (simp add: seq_accept(1) serve_opt_def same)
    moreover have "al_main h = None" "al_woken h = {#}"
      using Some g' r by (simp_all add: seq_accept(1) serve_opt_def serve_client_def Let_def split: res.splits)
    ultimately show ?thesis using s1 by (meson converse_rtranclp_into_rtranclp r_into_rtranclp)
  qed
next
  case (seq_wake t)
  obtain g' todo where r: "timer_wakes g t = (g', todo)" by fastforce
  then have g': "al_main g' = None" "al_woken g' = {#}" using assms(2,3) by (auto simp: timer_wakes_def)
  have s1: "acc_step L g (g'\<lparr>al_woken := mset_opt todo\<rparr>)" using acc_wake [OF seq_wake(2,3) r] assms(3) by simp
  show ?thesis
  proof (cases todo)
    case None
    then have "h = g'\<lparr>al_woken := mset_opt todo\<rparr>" using g' r by (simp add: seq_wake(1) serve_opt_def)
    then show ?thesis using s1 None g' by auto
  next
    case (Some s)
    have same: "g'\<lparr>al_woken := {#}\<rparr> = g'" using g' by simp
    from Some have "acc_step L (g'\<lparr>al_woken := mset_opt todo\<rparr>) h"
      using acc_serve_woken [of s "g'\<lparr>al_woken := mset_opt todo\<rparr>" L] g' r by (simp add: seq_wake(1) serve_opt_def same)
    moreover have "al_main h = None" "al_woken h = {#}"
      using Some g' r by (simp_all add: seq_wake(1) serve_opt_def serve_client_def Let_def split: res.splits)
    ultimately show ?thesis using s1 by (meson converse_rtranclp_into_rtranclp r_into_rtranclp)
  qed
next
  case seq_tick
  then show ?thesis using acc_tick [of L g] assms by auto
qed

lemma acc_ticks: "(acc_step L)\<^sup>*\<^sup>* g (g\<lparr>al_now := al_now g + n\<rparr>)"
proof (induction n)
  case (Suc n)
  have "acc_step L (g\<lparr>al_now := al_now g + n\<rparr>) (g\<lparr>al_now := al_now g + Suc n\<rparr>)"
    using acc_tick [of L "g\<lparr>al_now := al_now g + n\<rparr>"] by simp
  with Suc show ?case by (rule rtranclp.rtrancl_into_rtrancl)
qed simp

lemma init_idle: "al_main init_accept = None" "al_woken init_accept = {#}"
  by (simp_all add: init_accept_def)

lemma seq_run_acc:
  assumes "(seq_step L)\<^sup>*\<^sup>* init_accept g"
  shows "(acc_step L)\<^sup>*\<^sup>* init_accept g \<and> al_main g = None \<and> al_woken g = {#}"
  using assms
proof (induction rule: rtranclp_induct)
  case base
  then show ?case by (simp add: init_idle)
next
  case (step g h)
  then show ?case using seq_step_acc [of L g h] by (meson rtranclp_trans)
qed

section \<open>Properties\<close>

text \<open>
  C36: under any interleaving an address in the block list has a timer that will remove it, and
  when such a timer wakes up, the entry goes and a connection parked there goes on to be
  served: no address stays blocked and no parked connection waits forever.
\<close>

theorem blocked_address_expires:
  assumes "(acc_step L)\<^sup>*\<^sup>* init_accept g" and "al_blocked g ip = Some e"
  shows "\<exists>d h. (ip, d) \<in># al_timers g \<and>
    acc_step L (g\<lparr>al_now := max d (al_now g)\<rparr>) h \<and> al_blocked h ip = None \<and> al_woken h = al_woken g + mset_opt e"
proof -
  from expiry.inv_reachable [OF assms(1)] assms(2) obtain d where d: "(ip, d) \<in># al_timers g"
    unfolding entries_expire_def by (meson domI)
  let ?g = "g\<lparr>al_now := max d (al_now g)\<rparr>"
  obtain g' todo where w: "timer_wakes ?g (ip, d) = (g', todo)" by fastforce
  have "acc_step L ?g (g'\<lparr>al_woken := al_woken ?g + mset_opt todo\<rparr>)"
    by (rule acc_wake [OF _ _ w]) (use d in auto)
  moreover have "al_blocked g' ip = None" "mset_opt todo = mset_opt e"
    using w assms(2) by (auto simp: timer_wakes_def split: option.splits)
  ultimately show ?thesis using d by (intro exI [of _ d] exI [of _ "g'\<lparr>al_woken := al_woken ?g + mset_opt todo\<rparr>"]) simp
qed

text \<open>
  C35: what the block list is for. If every decision on it and the call of \<open>serve_client\<close> that it
  leads to happen without another task in between, two connections of one address are always
  served at least five seconds apart; such runs are among those of the server.
\<close>

theorem served_five_seconds_apart:
  assumes "tcp_listener L" and "(seq_step L)\<^sup>*\<^sup>* init_accept g"
  shows "spaced (al_started g) \<and> (acc_step L)\<^sup>*\<^sup>* init_accept g"
  using tcp_listener.started_spaced [OF assms] seq_run_acc [OF assms(2)] by simp

text \<open>
  C37: the mutex is released between the decision and \<open>serve_client\<close>, so the five seconds are not
  kept: a client that has a connection parked and opens another one in the moment its timer
  wakes up has both served in the same second, and its address has two timers.
\<close>

theorem block_list_race:
  "\<exists>(L :: nat listener) g ip now s s'. tcp_listener L \<and> (acc_step L)\<^sup>*\<^sup>* init_accept g \<and> s \<noteq> s' \<and>
    {(now, ip, s), (now, ip, s')} \<subseteq> set (al_started g) \<and> size (timers_of g ip) = 2"
proof -
  let ?L = one_client and ?a = "V4 \<lparr>v4_ip = 7, v4_port = 1\<rparr>"
  define g1 where "g1 = serve_opt ?L (run_accept init_accept 0 ?a)"
  define g2 where "g2 = serve_opt ?L (run_accept g1 1 ?a)"
  define g3 where "g3 = g2\<lparr>al_now := al_now g2 + 5\<rparr>"
  define g4 where "g4 = (fst (timer_wakes g3 (IpV4 7, 5)))\<lparr>al_woken := {#1#}\<rparr>"
  define g5 where "g5 = (fst (run_accept g4 2 ?a))\<lparr>al_main := Some 2\<rparr>"
  define g6 where "g6 = serve_client ?L (g5\<lparr>al_main := None\<rparr>) 2"
  define g7 where "g7 = serve_client ?L (g6\<lparr>al_woken := {#}\<rparr>) 1"
  note ev = serve_opt_def run_accept_def serve_client_def timer_wakes_def one_client_def init_accept_def Let_def
  have e1: "g1 = \<lparr>al_now = 0, al_blocked = [IpV4 7 \<mapsto> None], al_timers = {#(IpV4 7, 5)#},
      al_started = [(0, IpV4 7, 0)], al_main = None, al_woken = {#}\<rparr>"
    by (simp add: g1_def ev)
  have e2: "g2 = g1\<lparr>al_blocked := [IpV4 7 \<mapsto> Some 1]\<rparr>" by (simp add: g2_def e1 ev)
  have e3: "g3 = g2\<lparr>al_now := 5\<rparr>" by (simp add: g3_def e2 e1)
  have e4: "g4 = g3\<lparr>al_blocked := Map.empty, al_timers := {#}, al_woken := {#1#}\<rparr>" by (simp add: g4_def e3 e2 e1 ev)
  note e = e4 e3 e2 e1
  have "(acc_step ?L)\<^sup>*\<^sup>* init_accept g2"
  proof -
    have steps: "seq_step ?L init_accept g1" "seq_step ?L g1 g2"
      unfolding g1_def g2_def by (rule seq_accept; simp add: one_client_def)+
    from seq_step_acc [OF steps(1) init_idle] seq_step_acc [OF steps(2)] show ?thesis by (meson rtranclp_trans)
  qed
  also have "(acc_step ?L)\<^sup>*\<^sup>* g2 g3" unfolding g3_def by (rule acc_ticks)
  also have "acc_step ?L g3 g4"
    using acc_wake [of "(IpV4 7, 5)" g3 "fst (timer_wakes g3 (IpV4 7, 5))" "Some 1" ?L] by (simp add: g4_def e ev)
  also have "acc_step ?L g4 g5"
    using acc_accept [of g4 ?L 2 ?a "fst (run_accept g4 2 ?a)" "Some 2"] by (simp add: g5_def e ev)
  also have "acc_step ?L g5 g6" using acc_serve [of g5 2 ?L] by (simp add: g6_def g5_def)
  also have "acc_step ?L g6 g7"
    using acc_serve_woken [of 1 g6 ?L] by (simp add: g7_def g6_def g5_def e ev)
  finally have "(acc_step ?L)\<^sup>*\<^sup>* init_accept g7" .
  moreover have "{(5, IpV4 7, 2), (5, IpV4 7, 1)} \<subseteq> set (al_started g7)" "size (timers_of g7 (IpV4 7)) = 2"
    by (simp_all add: g7_def g6_def g5_def e ev timers_of_def)
  moreover have "(2 :: nat) \<noteq> 1" by simp
  ultimately show ?thesis
    by (intro exI [of _ one_client] exI [of _ g7] exI [of _ "IpV4 7"] exI [of _ 5] exI [of _ 2] exI [of _ 1] conjI
        one_client.tcp_listener_axioms)
qed

section \<open>Concrete instances\<close>

text \<open>The first connection of a client, served.\<close>

lemma first_served:
  defines "g \<equiv> serve_opt one_client (run_accept init_accept 0 (V4 \<lparr>v4_ip = 7, v4_port = 1\<rparr>))"
  shows "(seq_step one_client)\<^sup>*\<^sup>* init_accept g" "(acc_step one_client)\<^sup>*\<^sup>* init_accept g" "al_blocked g (IpV4 7) = Some None"
proof -
  have "seq_step one_client init_accept g" unfolding g_def by (rule seq_accept) (simp add: one_client_def)
  then show run: "(seq_step one_client)\<^sup>*\<^sup>* init_accept g" by (rule r_into_rtranclp)
  show "(acc_step one_client)\<^sup>*\<^sup>* init_accept g" using seq_run_acc [OF run] by simp
  show "al_blocked g (IpV4 7) = Some None"
    by (simp add: g_def serve_opt_def run_accept_def serve_client_def one_client_def init_accept_def Let_def)
qed

theorem served_five_seconds_apart_witness:
  "\<exists>g. al_started g \<noteq> [] \<and> spaced (al_started g) \<and> (acc_step one_client)\<^sup>*\<^sup>* init_accept g"
proof -
  let ?g = "serve_opt one_client (run_accept init_accept 0 (V4 \<lparr>v4_ip = 7, v4_port = 1\<rparr>))"
  have "al_started ?g \<noteq> []"
    by (simp add: serve_opt_def run_accept_def serve_client_def one_client_def init_accept_def Let_def)
  then show ?thesis
    using served_five_seconds_apart [OF one_client.tcp_listener_axioms first_served(1)] by blast
qed

theorem blocked_address_expires_witness:
  "\<exists>g d h. al_blocked g (IpV4 7) = Some None \<and> (IpV4 7, d) \<in># al_timers g \<and>
    acc_step one_client (g\<lparr>al_now := max d (al_now g)\<rparr>) h \<and> al_blocked h (IpV4 7) = None \<and> al_woken h = al_woken g + mset_opt None"
  using blocked_address_expires [OF first_served(2,3)] first_served(3) by blast

end
