(* ===== verification/Global_State.thy ===== *)
theory Global_State
  imports Wire_Types
begin

text \<open>
  The state of the contact exchange server
  (\<^verbatim>\<open>gday_hole_punch/src/server/global_state.rs\<close>): the rooms, the blocked addresses, the
  timer tasks the code spawns, and the one-shot channels through which a handler that is
  done sending waits for its peer. Every method holds the mutex for its whole body, so a
  method is one atomic step; the interleavings of the connection tasks and the timers are the
  step relation \<open>gs_step\<close>.

  Two libraries are parameters: the random generator (\<open>gen\<close>, a draw of
  \<open>gen_range(0..1_048_576)\<close>) and tokio's one-shot channels (\<open>oneshot\<close>), whose documented
  laws are the locale \<open>oneshot_channels\<close>.
\<close>

section \<open>One-shot channels\<close>

text \<open>What awaiting a receiver gives: still pending, the value, or \<open>RecvError\<close>.\<close>

datatype 'v recv = RecvPending | RecvValue 'v | RecvError

type_synonym chan_id = nat

record ('k, 'v) oneshot =
  os_channel :: "'k \<Rightarrow> chan_id \<times> 'k"
  os_send :: "'k \<Rightarrow> chan_id \<Rightarrow> 'v \<Rightarrow> 'k"
  os_drop :: "'k \<Rightarrow> chan_id \<Rightarrow> 'k"
  os_recv :: "'k \<Rightarrow> chan_id \<Rightarrow> 'v recv"

text \<open>Dropping an \<open>Option<Sender>\<close>.\<close>

fun drop_sender :: "('k, 'v) oneshot \<Rightarrow> 'k \<Rightarrow> chan_id option \<Rightarrow> 'k" where
  "drop_sender os k None = k"
| "drop_sender os k (Some c) = os_drop os k c"

section \<open>Rooms\<close>

type_synonym exchange = "full_contact \<times> full_contact"

datatype no_such_room_id = NoSuchRoomId

record client =
  cl_contact :: full_contact
  cl_sender :: "chan_id option"

record room =
  rm_creator :: client
  rm_joiner :: client

definition default_client :: client where
  "default_client = \<lparr>cl_contact = default_full_contact, cl_sender = None\<rparr>"

definition default_room :: room where
  "default_room = \<lparr>rm_creator = default_client, rm_joiner = default_client\<rparr>"

definition get_client :: "room \<Rightarrow> bool \<Rightarrow> client" where
  "get_client r is_creator = (if is_creator then rm_creator r else rm_joiner r)"

text \<open>Writing through the reference \<open>get_client_mut\<close> returns.\<close>

definition get_client_mut :: "room \<Rightarrow> bool \<Rightarrow> (client \<Rightarrow> client) \<Rightarrow> room" where
  "get_client_mut r is_creator f =
     (if is_creator then r\<lparr>rm_creator := f (rm_creator r)\<rparr> else r\<lparr>rm_joiner := f (rm_joiner r)\<rparr>)"

section \<open>The shared state and its methods\<close>

text \<open>
  The timers are the spawned tasks that still sleep: room ids for \<open>room_timeout\<close>, addresses
  for \<open>blocked_timeout\<close>. \<open>gs_chans\<close> is the state of the channel library.
\<close>

record 'k gstate =
  gs_rooms :: "u32 \<rightharpoonup> room"
  gs_blocked :: "ip_addr set"
  gs_room_timers :: "u32 list"
  gs_blocked_timers :: "ip_addr list"
  gs_chans :: 'k

definition init_state :: "'k \<Rightarrow> 'k gstate" where
  "init_state k = \<lparr>gs_rooms = Map.empty, gs_blocked = {}, gs_room_timers = [], gs_blocked_timers = [], gs_chans = k\<rparr>"

definition block :: "'k gstate \<Rightarrow> ip_addr \<Rightarrow> 'k gstate" where
  "block s addr = s\<lparr>gs_blocked := insert addr (gs_blocked s)\<rparr>"

text \<open>Spawning the ten minute timer, and the body of its task.\<close>

definition room_timeout :: "'k gstate \<Rightarrow> u32 \<Rightarrow> 'k gstate" where
  "room_timeout s room_id = s\<lparr>gs_room_timers := room_id # gs_room_timers s\<rparr>"

definition drop_room :: "('k, exchange) oneshot \<Rightarrow> 'k \<Rightarrow> room option \<Rightarrow> 'k" where
  "drop_room os k r =
     (case r of None \<Rightarrow> k
      | Some r \<Rightarrow> drop_sender os (drop_sender os k (cl_sender (rm_creator r))) (cl_sender (rm_joiner r)))"

definition room_timeout_fires :: "('k, exchange) oneshot \<Rightarrow> 'k gstate \<Rightarrow> u32 \<Rightarrow> 'k gstate" where
  "room_timeout_fires os s room_id =
     s\<lparr>gs_rooms := (gs_rooms s)(room_id := None),
       gs_room_timers := remove1 room_id (gs_room_timers s),
       gs_chans := drop_room os (gs_chans s) (gs_rooms s room_id)\<rparr>"

definition blocked_timeout :: "'k gstate \<Rightarrow> ip_addr \<Rightarrow> 'k gstate" where
  "blocked_timeout s addr = s\<lparr>gs_blocked_timers := addr # gs_blocked_timers s\<rparr>"

definition blocked_timeout_fires :: "'k gstate \<Rightarrow> ip_addr \<Rightarrow> 'k gstate" where
  "blocked_timeout_fires s addr =
     s\<lparr>gs_blocked := gs_blocked s - {addr}, gs_blocked_timers := remove1 addr (gs_blocked_timers s)\<rparr>"

text \<open>
  The loop of \<open>create_room\<close> draws until the id is free; \<open>None\<close> is the loop that never ends.
\<close>

partial_function (option) draw_room_id ::
  "('g \<Rightarrow> u32 \<times> 'g) \<Rightarrow> (u32 \<rightharpoonup> room) \<Rightarrow> u32 \<Rightarrow> 'g \<Rightarrow> (u32 \<times> 'g) option" where
  "draw_room_id gen rooms room_id g =
     (if rooms room_id \<noteq> None then draw_room_id gen rooms (fst (gen g)) (snd (gen g))
      else Some (room_id, g))"

definition create_room :: "('g \<Rightarrow> u32 \<times> 'g) \<Rightarrow> 'k gstate \<Rightarrow> 'g \<Rightarrow> (u32 \<times> 'k gstate \<times> 'g) option" where
  "create_room gen s g =
     (case draw_room_id gen (gs_rooms s) (fst (gen g)) (snd (gen g)) of
        None \<Rightarrow> None
      | Some (room_id, g) \<Rightarrow>
          Some (room_id, room_timeout (s\<lparr>gs_rooms := (gs_rooms s)(room_id \<mapsto> default_room)\<rparr>) room_id, g))"

definition room_exists :: "'k gstate \<Rightarrow> u32 \<Rightarrow> bool" where
  "room_exists s room_id \<longleftrightarrow> gs_rooms s room_id \<noteq> None"

fun set_addr :: "socket_addr \<Rightarrow> contact \<Rightarrow> contact" where
  "set_addr (V6 a) c = c\<lparr>ct_v6 := Some a\<rparr>"
| "set_addr (V4 a) c = c\<lparr>ct_v4 := Some a\<rparr>"

definition update_client ::
  "'k gstate \<Rightarrow> u32 \<Rightarrow> bool \<Rightarrow> socket_addr \<Rightarrow> bool \<Rightarrow> 'k gstate \<times> (no_such_room_id, unit) res" where
  "update_client s room_id is_creator endpoint pub =
     (case gs_rooms s room_id of
        None \<Rightarrow> (s, Err NoSuchRoomId)
      | Some room \<Rightarrow>
          let upd = (\<lambda>fc. if pub then fc\<lparr>fc_public := set_addr endpoint (fc_public fc)\<rparr>
                          else fc\<lparr>fc_private := set_addr endpoint (fc_private fc)\<rparr>);
              room = get_client_mut room is_creator (\<lambda>c. c\<lparr>cl_contact := upd (cl_contact c)\<rparr>)
          in (s\<lparr>gs_rooms := (gs_rooms s)(room_id \<mapsto> room)\<rparr>, Ok ()))"

text \<open>
  \<open>set_client_done\<close>: overwriting \<open>sender\<close> drops the sender that was there, \<open>take\<close> leaves
  \<open>None\<close> behind, and a taken sender that is not sent on is dropped when its scope ends.
\<close>

definition set_client_done ::
  "('k, exchange) oneshot \<Rightarrow> 'k gstate \<Rightarrow> u32 \<Rightarrow> bool \<Rightarrow> 'k gstate \<times> (no_such_room_id, chan_id) res" where
  "set_client_done os s room_id is_creator =
     (case gs_rooms s room_id of
        None \<Rightarrow> (s, Err NoSuchRoomId)
      | Some room \<Rightarrow>
          let (tx, k) = os_channel os (gs_chans s);
              k = drop_sender os k (cl_sender (get_client room is_creator));
              room = get_client_mut room is_creator (\<lambda>c. c\<lparr>cl_sender := Some tx\<rparr>);
              client_info = cl_contact (get_client room is_creator);
              peer_info = cl_contact (get_client room (\<not> is_creator));
              taken = cl_sender (get_client room is_creator);
              room = get_client_mut room is_creator (\<lambda>c. c\<lparr>cl_sender := None\<rparr>)
          in case taken of
               None \<Rightarrow> (s\<lparr>gs_rooms := (gs_rooms s)(room_id \<mapsto> room), gs_chans := k\<rparr>, Ok tx)
             | Some client_sender \<Rightarrow>
                 let peer_taken = cl_sender (get_client room (\<not> is_creator));
                     room = get_client_mut room (\<not> is_creator) (\<lambda>c. c\<lparr>cl_sender := None\<rparr>)
                 in case peer_taken of
                      None \<Rightarrow>
                        (s\<lparr>gs_rooms := (gs_rooms s)(room_id \<mapsto> room), gs_chans := os_drop os k client_sender\<rparr>,
                         Ok tx)
                    | Some peer_sender \<Rightarrow>
                        let k = os_send os k client_sender (client_info, peer_info);
                            k = os_send os k peer_sender (peer_info, client_info);
                            k = drop_room os k (Some room)
                        in (s\<lparr>gs_rooms := (gs_rooms s)(room_id := None), gs_chans := k\<rparr>, Ok tx))"

section \<open>Interleavings\<close>

inductive gs_step :: "('g \<Rightarrow> u32 \<times> 'g) \<Rightarrow> ('k, exchange) oneshot \<Rightarrow> 'k gstate \<Rightarrow> 'k gstate \<Rightarrow> bool"
  for gen os where
  step_create: "create_room gen s g = Some (room_id, t, g') \<Longrightarrow> gs_step gen os s t"
| step_update: "update_client s room_id is_creator endpoint pub = (t, r) \<Longrightarrow> gs_step gen os s t"
| step_done: "set_client_done os s room_id is_creator = (t, r) \<Longrightarrow> gs_step gen os s t"
| step_room_timeout: "room_id \<in> set (gs_room_timers s) \<Longrightarrow> gs_step gen os s (room_timeout_fires os s room_id)"
| step_block: "gs_step gen os s (block s addr)"
| step_blocked_timer: "gs_step gen os s (blocked_timeout s addr)"
| step_blocked_timeout:
    "addr \<in> set (gs_blocked_timers s) \<Longrightarrow> gs_step gen os s (blocked_timeout_fires s addr)"

inductive gs_reachable :: "('g \<Rightarrow> u32 \<times> 'g) \<Rightarrow> ('k, exchange) oneshot \<Rightarrow> 'k gstate \<Rightarrow> bool"
  for gen os where
  gs_init: "gs_reachable gen os (init_state k)"
| gs_next: "gs_reachable gen os s \<Longrightarrow> gs_step gen os s t \<Longrightarrow> gs_reachable gen os t"

section \<open>Abstract views and invariants\<close>

text \<open>The directory of all announced addresses, keyed by room, side and slot.\<close>

definition directory :: "'k gstate \<Rightarrow> u32 \<times> bool \<times> bool \<times> family \<Rightarrow> socket_addr option" where
  "directory s = (\<lambda>(room_id, is_creator, slot).
     case gs_rooms s room_id of None \<Rightarrow> None
     | Some r \<Rightarrow> slots (cl_contact (get_client r is_creator)) slot)"

definition no_waiting :: "room \<Rightarrow> bool" where
  "no_waiting r \<longleftrightarrow> cl_sender (rm_creator r) = None \<and> cl_sender (rm_joiner r) = None"

text \<open>
  No client of a room holds a sender between two methods, every room has a timer that will
  remove it, and the ids are in the range they are drawn from.
\<close>

definition gs_inv :: "'k gstate \<Rightarrow> bool" where
  "gs_inv s \<longleftrightarrow>
     (\<forall>room_id r. gs_rooms s room_id = Some r \<longrightarrow> no_waiting r \<and> room_id \<in> set (gs_room_timers s) \<and> unat room_id < 1048576)"

text \<open>The documented range of \<open>gen_range(0..1_048_576)\<close>.\<close>

definition gen_in_range :: "('g \<Rightarrow> u32 \<times> 'g) \<Rightarrow> bool" where
  "gen_in_range gen \<longleftrightarrow> (\<forall>g. unat (fst (gen g)) < 1048576)"

text \<open>A channel library over a list: the id of a channel is its position.\<close>

definition chan_list :: "('v recv list, 'v) oneshot" where
  "chan_list =
     \<lparr>os_channel = (\<lambda>k. (length k, k @ [RecvPending])),
      os_send = (\<lambda>k c v. k[c := RecvValue v]),
      os_drop = (\<lambda>k c. k[c := RecvError]),
      os_recv = (\<lambda>k c. if c < length k then k ! c else RecvError)\<rparr>"

text \<open>A generator that counts up.\<close>

definition counting_gen :: "nat \<Rightarrow> u32 \<times> nat" where
  "counting_gen n = (of_nat (n mod 1048576), Suc n)"

text \<open>A state with one fresh room, and one where the joiner of room 7 holds a sender.\<close>

definition one_room :: "exchange recv list gstate" where
  "one_room =
     \<lparr>gs_rooms = [0 \<mapsto> default_room], gs_blocked = {}, gs_room_timers = [0], gs_blocked_timers = [], gs_chans = []\<rparr>"

definition waiting_joiner :: "exchange recv list gstate" where
  "waiting_joiner =
     \<lparr>gs_rooms = [7 \<mapsto> default_room\<lparr>rm_joiner := default_client\<lparr>cl_sender := Some 0\<rparr>\<rparr>],
      gs_blocked = {}, gs_room_timers = [7], gs_blocked_timers = [], gs_chans = [RecvPending]\<rparr>"

text \<open>The generator after \<open>n\<close> draws.\<close>

fun after_draws :: "('g \<Rightarrow> u32 \<times> 'g) \<Rightarrow> nat \<Rightarrow> 'g \<Rightarrow> 'g" where
  "after_draws gen 0 g = g"
| "after_draws gen (Suc n) g = after_draws gen n (snd (gen g))"


section \<open>The contract of the channel library\<close>

locale oneshot_channels =
  fixes os :: "('k, 'v) oneshot" and used :: "'k \<Rightarrow> chan_id set"
  assumes channel_fresh: "os_channel os k = (c, k') \<Longrightarrow>
      c \<notin> used k \<and> used k' = insert c (used k) \<and> os_recv os k' c = RecvPending"
    and channel_others: "os_channel os k = (c, k') \<Longrightarrow> d \<noteq> c \<Longrightarrow> os_recv os k' d = os_recv os k d"
    and send_value: "c \<in> used k \<Longrightarrow> os_recv os k c = RecvPending \<Longrightarrow>
      os_recv os (os_send os k c v) c = RecvValue v"
    and send_others: "d \<noteq> c \<Longrightarrow> os_recv os (os_send os k c v) d = os_recv os k d"
    and send_used: "used (os_send os k c v) = used k"
    and drop_error: "c \<in> used k \<Longrightarrow> os_recv os k c = RecvPending \<Longrightarrow>
      os_recv os (os_drop os k c) c = RecvError"
    and drop_others: "d \<noteq> c \<Longrightarrow> os_recv os (os_drop os k c) d = os_recv os k d"
    and drop_used: "used (os_drop os k c) = used k"
begin

lemma drop_fresh:
  assumes "os_channel os k = (c, k')"
  shows "os_recv os (os_drop os k' c) c = RecvError"
    and "used (os_drop os k' c) = insert c (used k)"
  using channel_fresh [OF assms] by (auto simp: drop_error drop_used)

lemma drop_fresh_others:
  assumes "os_channel os k = (c, k')" and "d \<in> used k"
  shows "os_recv os (os_drop os k' c) d = os_recv os k d"
proof -
  have "d \<noteq> c" using channel_fresh [OF assms(1)] assms(2) by auto
  then show ?thesis by (simp add: drop_others channel_others [OF assms(1)])
qed

lemma send_two:
  assumes "os_channel os k = (c, k')" and "d \<in> used k" and "os_recv os k d = RecvPending"
  shows "os_recv os (os_send os (os_send os k' c v) d w) c = RecvValue v"
    and "os_recv os (os_send os (os_send os k' c v) d w) d = RecvValue w"
proof -
  have "d \<noteq> c" using channel_fresh [OF assms(1)] assms(2) by auto
  then show "os_recv os (os_send os (os_send os k' c v) d w) c = RecvValue v"
    and "os_recv os (os_send os (os_send os k' c v) d w) d = RecvValue w"
    using channel_fresh [OF assms(1)] assms(2,3)
    by (simp_all add: send_value send_others send_used channel_others [OF assms(1)])
qed

end

interpretation chan_list: oneshot_channels chan_list "\<lambda>k. {..<length k}"
  by unfold_locales (auto simp: chan_list_def nth_append nth_list_update)

section \<open>Rooms and clients\<close>

lemma get_client_mut_same [simp]: "get_client (get_client_mut r b f) b = f (get_client r b)"
  by (simp add: get_client_def get_client_mut_def)

lemma get_client_mut_other [simp]: "get_client (get_client_mut r b f) (\<not> b) = get_client r (\<not> b)"
  by (simp add: get_client_def get_client_mut_def)

lemma get_client_mut_other' [simp]: "get_client (get_client_mut r (\<not> b) f) b = get_client r b"
  by (simp add: get_client_def get_client_mut_def)

lemma get_client_mut_side: "b \<noteq> d \<Longrightarrow> get_client (get_client_mut r d f) b = get_client r b"
  by (auto simp: get_client_def get_client_mut_def)

lemma room_eqI: "get_client r True = get_client q True \<Longrightarrow> get_client r False = get_client q False \<Longrightarrow> r = q"
  by (simp add: get_client_def)

lemma no_waiting_iff: "no_waiting r \<longleftrightarrow> (\<forall>b. cl_sender (get_client r b) = None)"
  by (auto simp: no_waiting_def get_client_def)

lemma no_waiting_default [simp]: "no_waiting default_room"
  by (simp add: no_waiting_def default_room_def default_client_def)

lemma drop_room_no_waiting: "no_waiting r \<Longrightarrow> drop_room os k (Some r) = k"
  by (simp add: no_waiting_def drop_room_def)

lemma client_update_id: "cl_sender c = None \<Longrightarrow> c\<lparr>cl_sender := None\<rparr> = c"
  by simp

lemma sender_roundtrip:
  assumes "no_waiting r"
  shows "get_client_mut (get_client_mut (get_client_mut r b (cl_sender_update (\<lambda>_. Some tx)))
           b (cl_sender_update (\<lambda>_. None))) (\<not> b) (cl_sender_update (\<lambda>_. None)) = r"
  using assms by (cases b) (auto simp: no_waiting_def get_client_mut_def)

text \<open>The two outcomes of \<open>set_client_done\<close> on a room that exists.\<close>

lemma set_client_done_alone:
  assumes "gs_rooms s room_id = Some r" and "no_waiting r"
    and "os_channel os (gs_chans s) = (tx, k)"
  shows "set_client_done os s room_id is_creator = (s\<lparr>gs_chans := os_drop os k tx\<rparr>, Ok tx)"
proof -
  have "cl_sender (get_client r b) = None" for b using assms(2) by (simp add: no_waiting_iff)
  then show ?thesis
    using assms(1,3) sender_roundtrip [OF assms(2), of is_creator tx]
    by (simp add: set_client_done_def fun_upd_idem)
qed

lemma set_client_done_peer_waiting:
  assumes "gs_rooms s room_id = Some r" and "cl_sender (get_client r is_creator) = None"
    and "cl_sender (get_client r (\<not> is_creator)) = Some peer"
    and "os_channel os (gs_chans s) = (tx, k)"
  shows "set_client_done os s room_id is_creator =
    (s\<lparr>gs_rooms := (gs_rooms s)(room_id := None),
       gs_chans := os_send os (os_send os k tx
          (cl_contact (get_client r is_creator), cl_contact (get_client r (\<not> is_creator)))) peer
          (cl_contact (get_client r (\<not> is_creator)), cl_contact (get_client r is_creator))\<rparr>, Ok tx)"
proof -
  have "no_waiting (get_client_mut (get_client_mut (get_client_mut r is_creator (cl_sender_update (\<lambda>_. Some tx)))
      is_creator (cl_sender_update (\<lambda>_. None))) (\<not> is_creator) (cl_sender_update (\<lambda>_. None)))"
    by (cases is_creator) (simp_all add: no_waiting_def get_client_mut_def)
  then show ?thesis using assms by (simp add: set_client_done_def drop_room_no_waiting Let_def)
qed

section \<open>Drawing a room id\<close>

lemma draw_room_id_free:
  assumes "draw_room_id gen rooms room_id g = Some (i, g')"
  shows "rooms i = None"
  using draw_room_id.raw_induct [where P = "\<lambda>gen rooms room_id g r. rooms (fst r) = None", OF _ assms]
  by (fastforce split: if_splits)

lemma draw_room_id_range:
  assumes "draw_room_id gen rooms room_id g = Some (i, g')" and "gen_in_range gen" and "unat room_id < 1048576"
  shows "unat i < 1048576"
  using draw_room_id.raw_induct [where P = "\<lambda>gen rooms room_id g r. gen_in_range gen \<longrightarrow>
      unat room_id < 1048576 \<longrightarrow> unat (fst r) < 1048576", OF _ assms(1)] assms(2,3)
  by (fastforce simp: gen_in_range_def split: if_splits)

lemma draw_room_id_returns:
  assumes "rooms (fst (gen (after_draws gen n g))) = None"
  shows "\<exists>r. draw_room_id gen rooms room_id g = Some r"
  using assms
proof (induction n arbitrary: g room_id)
  case 0
  then show ?case
    by (subst draw_room_id.simps, subst draw_room_id.simps) simp
next
  case (Suc n)
  then show ?case by (subst draw_room_id.simps) simp
qed

lemma draw_room_id_full:
  assumes "gen_in_range gen" and "\<forall>i. unat i < 1048576 \<longrightarrow> rooms i \<noteq> None" and "unat room_id < 1048576"
  shows "draw_room_id gen rooms room_id g = None"
proof (cases "draw_room_id gen rooms room_id g")
  case (Some r)
  obtain i g' where "r = (i, g')" by (cases r)
  with Some assms draw_room_id_free draw_room_id_range show ?thesis by metis
qed

section \<open>The invariant of the interleavings\<close>

lemma create_room_Some:
  assumes "create_room gen s g = Some (room_id, t, g')"
  shows "gs_rooms s room_id = None"
    and "t = s\<lparr>gs_rooms := (gs_rooms s)(room_id \<mapsto> default_room), gs_room_timers := room_id # gs_room_timers s\<rparr>"
    and "gen_in_range gen \<Longrightarrow> unat room_id < 1048576"
  using assms
  by (auto simp: create_room_def room_timeout_def dest: draw_room_id_free
      intro: draw_room_id_range simp: gen_in_range_def split: option.splits)

lemma update_client_Some:
  assumes "gs_rooms s room_id = Some r"
  obtains f where "update_client s room_id is_creator endpoint pub =
     (s\<lparr>gs_rooms := (gs_rooms s)(room_id \<mapsto> get_client_mut r is_creator f)\<rparr>, Ok ())"
    and "\<And>c. cl_sender (f c) = cl_sender c"
    and "\<And>c. slots (cl_contact (f c)) = (slots (cl_contact c))((pub, family_of endpoint) \<mapsto> endpoint)"
proof
  let ?f = "\<lambda>c. c\<lparr>cl_contact := (if pub then (cl_contact c)\<lparr>fc_public := set_addr endpoint (fc_public (cl_contact c))\<rparr>
      else (cl_contact c)\<lparr>fc_private := set_addr endpoint (fc_private (cl_contact c))\<rparr>)\<rparr>"
  show "update_client s room_id is_creator endpoint pub =
     (s\<lparr>gs_rooms := (gs_rooms s)(room_id \<mapsto> get_client_mut r is_creator ?f)\<rparr>, Ok ())"
    using assms by (simp add: update_client_def)
  show "cl_sender (?f c) = cl_sender c" for c by simp
  show "slots (cl_contact (?f c)) = (slots (cl_contact c))((pub, family_of endpoint) \<mapsto> endpoint)" for c
  proof
    fix x :: "bool \<times> family"
    obtain b fam where "x = (b, fam)" by (cases x)
    then show "slots (cl_contact (?f c)) x = ((slots (cl_contact c))((pub, family_of endpoint) \<mapsto> endpoint)) x"
      by (cases fam; cases endpoint) auto
  qed
qed

lemma update_client_ok:
  assumes "room_exists s room_id"
  shows "\<exists>t. update_client s room_id is_creator endpoint pub = (t, Ok ()) \<and>
    directory t = (directory s)((room_id, is_creator, pub, family_of endpoint) \<mapsto> endpoint) \<and>
    dom (gs_rooms t) = dom (gs_rooms s)"
proof -
  obtain r where Some: "gs_rooms s room_id = Some r" using assms by (auto simp: room_exists_def)
  then obtain f where upd: "update_client s room_id is_creator endpoint pub =
     (s\<lparr>gs_rooms := (gs_rooms s)(room_id \<mapsto> get_client_mut r is_creator f)\<rparr>, Ok ())"
    and "\<And>c. cl_sender (f c) = cl_sender c"
    and f: "\<And>c. slots (cl_contact (f c)) = (slots (cl_contact c))((pub, family_of endpoint) \<mapsto> endpoint)"
    using update_client_Some [OF Some, of is_creator endpoint pub] by blast
  have "directory (s\<lparr>gs_rooms := (gs_rooms s)(room_id \<mapsto> get_client_mut r is_creator f)\<rparr>) =
    (directory s)((room_id, is_creator, pub, family_of endpoint) \<mapsto> endpoint)"
  proof
    fix x :: "u32 \<times> bool \<times> bool \<times> family"
    obtain i b sl where "x = (i, b, sl)" by (cases x)
    then show "directory (s\<lparr>gs_rooms := (gs_rooms s)(room_id \<mapsto> get_client_mut r is_creator f)\<rparr>) x =
        ((directory s)((room_id, is_creator, pub, family_of endpoint) \<mapsto> endpoint)) x"
      using Some by (cases "b = is_creator") (simp_all add: directory_def get_client_mut_side f)
  qed
  moreover have "dom ((gs_rooms s)(room_id \<mapsto> get_client_mut r is_creator f)) = dom (gs_rooms s)"
    using Some by (simp add: insert_absorb domI)
  ultimately show ?thesis unfolding upd by simp
qed

lemma update_client_missing:
  "\<not> room_exists s room_id \<Longrightarrow> update_client s room_id is_creator endpoint pub = (s, Err NoSuchRoomId)"
  by (simp add: update_client_def room_exists_def)

lemma room_exists_dom: "dom (gs_rooms t) = dom (gs_rooms s) \<Longrightarrow> room_exists t i = room_exists s i"
  by (simp add: room_exists_def dom_def set_eq_iff)

lemma gs_inv_init [simp]: "gs_inv (init_state k)"
  by (simp add: gs_inv_def init_state_def)

lemma gs_step_inv:
  assumes "gs_step gen os s t" and "gs_inv s" and "gen_in_range gen"
  shows "gs_inv t"
  using assms(1)
proof cases
  case (step_create g room_id g')
  then show ?thesis using assms(2,3) create_room_Some [OF step_create] by (auto simp: gs_inv_def)
next
  case (step_update room_id is_creator endpoint pub r)
  show ?thesis
  proof (cases "gs_rooms s room_id")
    case None
    then show ?thesis using step_update assms(2) by (simp add: update_client_def)
  next
    case (Some r)
    then obtain f where "t = s\<lparr>gs_rooms := (gs_rooms s)(room_id \<mapsto> get_client_mut r is_creator f)\<rparr>"
      and "\<And>c. cl_sender (f c) = cl_sender c"
      by (rule update_client_Some [of _ _ _ is_creator endpoint pub]) (use step_update in auto)
    with Some assms(2) show ?thesis
      by (auto simp: gs_inv_def no_waiting_def get_client_mut_def)
  qed
next
  case (step_done room_id is_creator r)
  show ?thesis
  proof (cases "gs_rooms s room_id")
    case None
    then show ?thesis using step_done assms(2) by (simp add: set_client_done_def)
  next
    case (Some q)
    moreover obtain tx k where "os_channel os (gs_chans s) = (tx, k)" by (cases "os_channel os (gs_chans s)")
    ultimately show ?thesis
      using step_done assms(2) set_client_done_alone [OF Some, of os tx k is_creator]
      by (auto simp: gs_inv_def)
  qed
next
  case (step_room_timeout room_id)
  then show ?thesis using assms(2) by (auto simp: gs_inv_def room_timeout_fires_def)
qed (use assms(2) in \<open>auto simp: gs_inv_def block_def blocked_timeout_def blocked_timeout_fires_def\<close>)

lemma gs_reachable_inv:
  "gs_reachable gen os s \<Longrightarrow> gen_in_range gen \<Longrightarrow> gs_inv s"
  by (induction rule: gs_reachable.induct) (auto intro: gs_step_inv)

section \<open>Who changes the directory\<close>

lemma update_client_directory:
  "update_client s room_id is_creator endpoint pub = (t, r) \<Longrightarrow> directory t = directory s \<or>
     directory t = (directory s)((room_id, is_creator, pub, family_of endpoint) \<mapsto> endpoint)"
  using update_client_ok [of s room_id is_creator endpoint pub]
  by (cases "gs_rooms s room_id") (auto simp: update_client_def room_exists_def)

lemma create_room_directory: "create_room gen s g = Some (room_id, t, g') \<Longrightarrow> directory t = directory s"
  using create_room_Some(1,2) [of gen s g room_id t g']
  by (auto simp: directory_def fun_eq_iff default_room_def default_client_def get_client_def)

lemma sender_keeps_contact:
  "cl_contact (get_client (get_client_mut r b (\<lambda>c. c\<lparr>cl_sender := x\<rparr>)) d) = cl_contact (get_client r d)"
  by (simp add: get_client_def get_client_mut_def)

lemma set_client_done_directory:
  assumes "set_client_done os s room_id is_creator = (t, r)"
  shows "directory t k = directory s k \<or> gs_rooms t (fst k) = None"
proof (cases "gs_rooms t (fst k)")
  case (Some q)
  then have "\<exists>q'. gs_rooms s (fst k) = Some q' \<and> (\<forall>d. cl_contact (get_client q d) = cl_contact (get_client q' d))"
    using assms by (auto simp: set_client_done_def Let_def sender_keeps_contact split: option.splits prod.splits if_splits)
  with Some show ?thesis by (cases k) (auto simp: directory_def)
qed simp

section \<open>What a handler that is done sending will see\<close>

locale exchange_channels = oneshot_channels os used
  for os :: "('k, exchange) oneshot" and used :: "'k \<Rightarrow> chan_id set"
begin

lemma step_keeps_recv:
  assumes "gs_step gen os s t" and "gs_inv s" and "d \<in> used (gs_chans s)"
  shows "os_recv os (gs_chans t) d = os_recv os (gs_chans s) d \<and> d \<in> used (gs_chans t)"
  using assms(1)
proof cases
  case (step_create g room_id g')
  then show ?thesis using assms(3) create_room_Some [OF step_create] by simp
next
  case (step_update room_id is_creator endpoint pub r)
  then show ?thesis using assms(3) by (auto simp: update_client_def Let_def split: option.splits)
next
  case (step_done room_id is_creator r)
  show ?thesis
  proof (cases "gs_rooms s room_id")
    case None
    then show ?thesis using step_done assms(3) by (simp add: set_client_done_def)
  next
    case (Some q)
    obtain tx k where ch: "os_channel os (gs_chans s) = (tx, k)" by (cases "os_channel os (gs_chans s)")
    have "no_waiting q" using assms(2) Some by (simp add: gs_inv_def)
    then have "t = s\<lparr>gs_chans := os_drop os k tx\<rparr>"
      using step_done set_client_done_alone [OF Some _ ch] by simp
    then show ?thesis using drop_fresh_others [OF ch assms(3)] drop_fresh(2) [OF ch] assms(3) by simp
  qed
next
  case (step_room_timeout room_id)
  have "drop_room os (gs_chans s) (gs_rooms s room_id) = gs_chans s"
    using assms(2) by (cases "gs_rooms s room_id") (auto simp: gs_inv_def drop_room_no_waiting, simp add: drop_room_def)
  then show ?thesis using step_room_timeout assms(3) by (simp add: room_timeout_fires_def)
qed (use assms(3) in \<open>auto simp: block_def blocked_timeout_def blocked_timeout_fires_def\<close>)

lemma steps_keep_recv:
  assumes "(gs_step gen os)\<^sup>*\<^sup>* s t" and "gs_inv s" and "gen_in_range gen" and "d \<in> used (gs_chans s)"
  shows "os_recv os (gs_chans t) d = os_recv os (gs_chans s) d \<and> d \<in> used (gs_chans t) \<and> gs_inv t"
  using assms(1)
proof (induction rule: rtranclp_induct)
  case base
  then show ?case using assms by simp
next
  case (step t u)
  then show ?case using step_keeps_recv [OF step(2)] gs_step_inv [OF step(2) _ assms(3)] by simp
qed

lemma done_receiver_failed:
  assumes "gs_inv s" and "set_client_done os s room_id is_creator = (t, Ok rx)"
  shows "rx \<in> used (gs_chans t) \<and> os_recv os (gs_chans t) rx = RecvError"
proof (cases "gs_rooms s room_id")
  case None
  then show ?thesis using assms(2) by (simp add: set_client_done_def)
next
  case (Some r)
  obtain tx k where ch: "os_channel os (gs_chans s) = (tx, k)" by (cases "os_channel os (gs_chans s)")
  have "no_waiting r" using assms(1) Some by (simp add: gs_inv_def)
  then have "t = s\<lparr>gs_chans := os_drop os k tx\<rparr> \<and> rx = tx"
    using assms(2) set_client_done_alone [OF Some _ ch] by auto
  then show ?thesis using drop_fresh [OF ch] by simp
qed

lemma done_gets_error:
  assumes "gs_inv s" and "gen_in_range gen" and "gs_rooms s room_id = Some r"
  shows "\<exists>t rx. set_client_done os s room_id is_creator = (t, Ok rx) \<and> gs_rooms t = gs_rooms s \<and>
           (\<forall>u. (gs_step gen os)\<^sup>*\<^sup>* t u \<longrightarrow> os_recv os (gs_chans u) rx = RecvError)"
proof -
  obtain tx k where ch: "os_channel os (gs_chans s) = (tx, k)" by (cases "os_channel os (gs_chans s)")
  let ?t = "s\<lparr>gs_chans := os_drop os k tx\<rparr>"
  have "no_waiting r" using assms by (simp add: gs_inv_def)
  then have "set_client_done os s room_id is_creator = (?t, Ok tx)"
    by (rule set_client_done_alone [OF assms(3) _ ch])
  moreover have "gs_inv ?t" using assms(1) by (simp add: gs_inv_def)
  then have "os_recv os (gs_chans u) tx = RecvError" if "(gs_step gen os)\<^sup>*\<^sup>* ?t u" for u
    using steps_keep_recv [OF that _ assms(2)] drop_fresh [OF ch] by simp
  ultimately show ?thesis by fastforce
qed

end

interpretation chan_list: exchange_channels chan_list "\<lambda>k. {..<length k}"
  by unfold_locales

section \<open>Properties\<close>

text \<open>
  C6: in every reachable state a client that reports it is done gets a receiver that fails,
  now and after any further steps of the server, and its room stays as it was: the sender
  just stored is taken out again and dropped, so no client ever waits and the contacts of two
  peers are never exchanged.
\<close>

theorem contacts_never_exchanged:
  assumes "exchange_channels os used" and "gen_in_range gen"
    and "gs_reachable gen os s" and "room_exists s room_id"
  shows "\<exists>t rx. set_client_done os s room_id is_creator = (t, Ok rx) \<and> gs_rooms t = gs_rooms s \<and>
           (\<forall>u. (gs_step gen os)\<^sup>*\<^sup>* t u \<longrightarrow> os_recv os (gs_chans u) rx = RecvError)"
proof -
  obtain r where "gs_rooms s room_id = Some r" using assms(4) by (auto simp: room_exists_def)
  then show ?thesis
    by (rule exchange_channels.done_gets_error [OF assms(1) gs_reachable_inv [OF assms(3,2)] assms(2)])
qed

text \<open>
  On a room whose other client does hold a sender, reporting done sends each side its
  own contact and its peer's, in this order, and removes the room.
\<close>

lemma set_client_done_exchanges:
  assumes "exchange_channels os used" and "gs_rooms s room_id = Some r"
    and "cl_sender (get_client r is_creator) = None"
    and "cl_sender (get_client r (\<not> is_creator)) = Some peer"
    and "peer \<in> used (gs_chans s)" and "os_recv os (gs_chans s) peer = RecvPending"
  shows "\<exists>t rx. set_client_done os s room_id is_creator = (t, Ok rx) \<and>
    gs_rooms t = (gs_rooms s)(room_id := None) \<and>
    os_recv os (gs_chans t) rx =
      RecvValue (cl_contact (get_client r is_creator), cl_contact (get_client r (\<not> is_creator))) \<and>
    os_recv os (gs_chans t) peer =
      RecvValue (cl_contact (get_client r (\<not> is_creator)), cl_contact (get_client r is_creator))"
proof -
  obtain tx k where ch: "os_channel os (gs_chans s) = (tx, k)" by (cases "os_channel os (gs_chans s)")
  show ?thesis
    using set_client_done_peer_waiting [OF assms(2-4) ch]
      oneshot_channels.send_two [OF exchange_channels.axioms [OF assms(1)] ch assms(5,6)]
    by simp
qed

text \<open>
  C13: \<open>update_client\<close> refines a point update of the address directory: exactly the slot of
  this room, side, visibility and address family is written, and an unknown room is an
  error that changes nothing.
\<close>

theorem update_client_refines:
  "(case update_client s room_id is_creator endpoint pub of
      (t, Ok _) \<Rightarrow> room_exists s room_id \<and>
        directory t = (directory s)((room_id, is_creator, pub, family_of endpoint) \<mapsto> endpoint) \<and>
        dom (gs_rooms t) = dom (gs_rooms s)
    | (t, Err _) \<Rightarrow> \<not> room_exists s room_id \<and> t = s
    | (t, Panic p) \<Rightarrow> False)"
proof (cases "room_exists s room_id")
  case True
  then obtain t where "update_client s room_id is_creator endpoint pub = (t, Ok ())"
    "directory t = (directory s)((room_id, is_creator, pub, family_of endpoint) \<mapsto> endpoint)"
    "dom (gs_rooms t) = dom (gs_rooms s)"
    using update_client_ok [of s room_id is_creator endpoint pub] by auto
  with True show ?thesis by simp
next
  case False
  then show ?thesis by (simp add: update_client_missing)
qed

text \<open>
  C17: a room that \<open>create_room\<close> returns has an id below \<open>2 ^ 20\<close> that was free, starts with
  no addresses, and gets a removal timer. Nothing else changes: not the other rooms and their
  timers, not the block list and its timers, not the channels.
\<close>

theorem create_room_fresh:
  assumes "gen_in_range gen" and "create_room gen s g = Some (room_id, t, g')"
  shows "\<not> room_exists s room_id \<and> unat room_id < 1048576 \<and>
    gs_rooms t = (gs_rooms s)(room_id \<mapsto> default_room) \<and> directory t = directory s \<and>
    gs_room_timers t = room_id # gs_room_timers s \<and> gs_blocked t = gs_blocked s \<and>
    gs_blocked_timers t = gs_blocked_timers s \<and> gs_chans t = gs_chans s"
  using create_room_Some [OF assms(2)] assms(1)
  by (auto simp: room_exists_def directory_def fun_eq_iff default_room_def default_client_def get_client_def)

text \<open>
  When all \<open>2 ^ 20\<close> ids are taken, \<open>create_room\<close> never returns; it holds the mutex of the
  rooms while it draws.
\<close>

lemma create_room_full:
  assumes "gen_in_range gen" and "\<forall>i. unat i < 1048576 \<longrightarrow> room_exists s i"
  shows "create_room gen s g = None"
  using draw_room_id_full [OF assms(1)] assms by (simp add: create_room_def room_exists_def gen_in_range_def)

text \<open>
  C18: in every reachable state each room has a timer that is still to fire and an id below
  \<open>2 ^ 20\<close>, and firing that timer removes the room and no other.
\<close>

theorem rooms_expire:
  assumes "gs_reachable gen os s" and "gen_in_range gen" and "room_exists s room_id"
  shows "unat room_id < 1048576 \<and> gs_step gen os s (room_timeout_fires os s room_id) \<and>
    gs_rooms (room_timeout_fires os s room_id) = (gs_rooms s)(room_id := None)"
proof -
  have "room_id \<in> set (gs_room_timers s) \<and> unat room_id < 1048576"
    using gs_reachable_inv [OF assms(1,2)] assms(3) by (auto simp: gs_inv_def room_exists_def)
  then show ?thesis by (simp add: step_room_timeout) (simp add: room_timeout_fires_def)
qed

section \<open>Concrete instances\<close>

lemma counting_gen_in_range: "gen_in_range counting_gen"
proof -
  have "unat (of_nat (n mod 1048576) :: u32) < 1048576" for n :: nat
    by (subst unat_of_nat_u32) (simp_all add: less_trans [OF mod_less_divisor])
  then show ?thesis by (simp add: gen_in_range_def counting_gen_def)
qed

lemma create_one_room: "create_room counting_gen (init_state []) 0 = Some (0, one_room, 1)"
  by (simp add: create_room_def draw_room_id.simps counting_gen_def init_state_def one_room_def room_timeout_def)

lemma one_room_reachable: "gs_reachable counting_gen chan_list one_room"
  by (rule gs_next [OF gs_init step_create [OF create_one_room]])

lemma one_room_exists: "room_exists one_room 0"
  by (simp add: room_exists_def one_room_def)

theorem contacts_never_exchanged_witness:
  "\<exists>t rx. set_client_done chan_list one_room 0 True = (t, Ok rx) \<and> gs_rooms t = gs_rooms one_room \<and>
     (\<forall>u. (gs_step counting_gen chan_list)\<^sup>*\<^sup>* t u \<longrightarrow> os_recv chan_list (gs_chans u) rx = RecvError)"
  by (rule contacts_never_exchanged [OF chan_list.exchange_channels_axioms counting_gen_in_range
        one_room_reachable one_room_exists])

theorem create_room_fresh_witness:
  "\<not> room_exists (init_state [] :: exchange recv list gstate) 0 \<and> unat (0 :: u32) < 1048576 \<and>
    gs_rooms one_room = (gs_rooms (init_state [] :: exchange recv list gstate))(0 \<mapsto> default_room) \<and>
    directory one_room = directory (init_state [] :: exchange recv list gstate) \<and>
    gs_room_timers one_room = 0 # gs_room_timers (init_state [] :: exchange recv list gstate) \<and>
    gs_blocked one_room = gs_blocked (init_state [] :: exchange recv list gstate) \<and>
    gs_blocked_timers one_room = gs_blocked_timers (init_state [] :: exchange recv list gstate) \<and>
    gs_chans one_room = gs_chans (init_state [] :: exchange recv list gstate)"
  by (rule create_room_fresh [OF counting_gen_in_range create_one_room])

theorem rooms_expire_witness:
  "unat (0 :: u32) < 1048576 \<and>
    gs_step counting_gen chan_list one_room (room_timeout_fires chan_list one_room 0) \<and>
    gs_rooms (room_timeout_fires chan_list one_room 0) = (gs_rooms one_room)(0 := None)"
  by (rule rooms_expire [OF one_room_reachable counting_gen_in_range one_room_exists])

end
