(* ===== verification/Postcard.thy ===== *)
theory Postcard
  imports Wire_Types
begin

text \<open>
  The serialization library is a parameter of the models: \<open>codec\<close> holds the two calls the code
  makes of postcard, and the locale \<open>postcard_codec\<close> its documented laws over an encoding
  function. The second half gives the documented wire format (variable-length integers, one
  tag byte for options, the variant number for enumerations, address octets and port for
  socket addresses) for the client and server messages; it is the concrete codec on which
  statements about the parameter are shown to be satisfiable, and it fixes the sizes of the
  messages.
\<close>

section \<open>The interface\<close>

datatype postcard_error = SerializeBufferFull | DeserializeBad

text \<open>
  \<open>pc_to_slice m buf\<close> is \<open>to_slice(&m, buf)\<close>: the buffer afterwards and the length of the used
  part. \<open>pc_to_stdvec\<close> is \<open>to_stdvec\<close> and \<open>pc_from_bytes\<close> is \<open>from_bytes\<close>.
\<close>

record 'm codec =
  pc_to_slice :: "'m \<Rightarrow> u8 list \<Rightarrow> u8 list \<times> (postcard_error, nat) res"
  pc_to_stdvec :: "'m \<Rightarrow> (postcard_error, u8 list) res"
  pc_from_bytes :: "u8 list \<Rightarrow> (postcard_error, 'm) res"

text \<open>
  The messages that survive the wire form the predicate \<open>valid\<close>: serde's format of an IPv6
  socket address carries no flow label and no scope.
\<close>

locale postcard_codec =
  fixes C :: "'m codec" and encode :: "'m \<Rightarrow> u8 list" and valid :: "'m \<Rightarrow> bool"
  assumes to_slice_fits: "length (encode m) \<le> length buf \<Longrightarrow>
      pc_to_slice C m buf = (encode m @ drop (length (encode m)) buf, Ok (length (encode m)))"
    and to_slice_full: "length buf < length (encode m) \<Longrightarrow>
      snd (pc_to_slice C m buf) = Err SerializeBufferFull"
    and to_slice_length: "length (fst (pc_to_slice C m buf)) = length buf"
    and to_stdvec_encode: "pc_to_stdvec C m = Ok (encode m)"
    and from_bytes_encode: "valid m \<Longrightarrow> pc_from_bytes C (encode m @ rest) = Ok m"

section \<open>The wire format\<close>

fun nat_be :: "nat \<Rightarrow> nat \<Rightarrow> u8 list" where
  "nat_be 0 n = []"
| "nat_be (Suc k) n = of_nat (n div 256 ^ k) # nat_be k n"

fun be_nat :: "u8 list \<Rightarrow> nat" where
  "be_nat [] = 0"
| "be_nat (b # bs) = unat b * 256 ^ length bs + be_nat bs"

fun varint :: "nat \<Rightarrow> u8 list" where
  "varint n = (if n < 128 then [of_nat n] else of_nat (128 + n mod 128) # varint (n div 128))"

declare varint.simps [simp del]

type_synonym 'a decoder = "u8 list \<Rightarrow> ('a \<times> u8 list) option"

fun unvarint :: "nat decoder" where
  "unvarint [] = None"
| "unvarint (b # bs) =
     (if unat b < 128 then Some (unat b, bs)
      else map_option (\<lambda>(m, r). (unat b - 128 + 128 * m, r)) (unvarint bs))"

definition octets :: "nat \<Rightarrow> nat decoder" where
  "octets k bs = (if length bs < k then None else Some (be_nat (take k bs), drop k bs))"

definition enc_v4 :: "socket_addr_v4 \<Rightarrow> u8 list" where
  "enc_v4 a = nat_be 4 (unat (v4_ip a)) @ varint (unat (v4_port a))"

definition dec_v4 :: "socket_addr_v4 decoder" where
  "dec_v4 bs =
     (case octets 4 bs of None \<Rightarrow> None
      | Some (ip, bs) \<Rightarrow> map_option (\<lambda>(port, bs). (\<lparr>v4_ip = of_nat ip, v4_port = of_nat port\<rparr>, bs)) (unvarint bs))"

definition enc_v6 :: "socket_addr_v6 \<Rightarrow> u8 list" where
  "enc_v6 a = nat_be 16 (unat (v6_ip a)) @ varint (unat (v6_port a))"

definition dec_v6 :: "socket_addr_v6 decoder" where
  "dec_v6 bs =
     (case octets 16 bs of None \<Rightarrow> None
      | Some (ip, bs) \<Rightarrow>
          map_option (\<lambda>(port, bs). (\<lparr>v6_ip = of_nat ip, v6_port = of_nat port, v6_flowinfo = 0, v6_scope_id = 0\<rparr>, bs))
            (unvarint bs))"

fun enc_option :: "('a \<Rightarrow> u8 list) \<Rightarrow> 'a option \<Rightarrow> u8 list" where
  "enc_option f None = [0]"
| "enc_option f (Some x) = 1 # f x"

fun dec_option :: "'a decoder \<Rightarrow> 'a option decoder" where
  "dec_option f [] = None"
| "dec_option f (b # bs) =
     (if b = 0 then Some (None, bs)
      else if b = 1 then map_option (\<lambda>(x, bs). (Some x, bs)) (f bs) else None)"

fun enc_addr :: "socket_addr \<Rightarrow> u8 list" where
  "enc_addr (V4 a) = 0 # enc_v4 a"
| "enc_addr (V6 a) = 1 # enc_v6 a"

fun dec_addr :: "socket_addr decoder" where
  "dec_addr [] = None"
| "dec_addr (b # bs) =
     (if b = 0 then map_option (\<lambda>(a, bs). (V4 a, bs)) (dec_v4 bs)
      else if b = 1 then map_option (\<lambda>(a, bs). (V6 a, bs)) (dec_v6 bs) else None)"

definition enc_contact :: "contact \<Rightarrow> u8 list" where
  "enc_contact c = enc_option enc_v6 (ct_v6 c) @ enc_option enc_v4 (ct_v4 c)"

definition dec_contact :: "contact decoder" where
  "dec_contact bs =
     (case dec_option dec_v6 bs of None \<Rightarrow> None
      | Some (a, bs) \<Rightarrow> map_option (\<lambda>(b, bs). (\<lparr>ct_v6 = a, ct_v4 = b\<rparr>, bs)) (dec_option dec_v4 bs))"

definition enc_full :: "full_contact \<Rightarrow> u8 list" where
  "enc_full fc = enc_contact (fc_private fc) @ enc_contact (fc_public fc)"

definition dec_full :: "full_contact decoder" where
  "dec_full bs =
     (case dec_contact bs of None \<Rightarrow> None
      | Some (a, bs) \<Rightarrow> map_option (\<lambda>(b, bs). (\<lparr>fc_private = a, fc_public = b\<rparr>, bs)) (dec_contact bs))"

fun enc_client_message :: "client_message \<Rightarrow> u8 list" where
  "enc_client_message CreateRoom = [0]"
| "enc_client_message (JoinRoom r) = 1 # varint (unat r)"
| "enc_client_message (SendPrivateAddr a) = 2 # enc_option enc_addr a"
| "enc_client_message DoneSending = [3]"

fun dec_client_message :: "client_message decoder" where
  "dec_client_message [] = None"
| "dec_client_message (b # bs) =
     (if b = 0 then Some (CreateRoom, bs)
      else if b = 1 then map_option (\<lambda>(r, bs). (JoinRoom (of_nat r), bs)) (unvarint bs)
      else if b = 2 then map_option (\<lambda>(a, bs). (SendPrivateAddr a, bs)) (dec_option dec_addr bs)
      else if b = 3 then Some (DoneSending, bs) else None)"

fun enc_server_message :: "server_message \<Rightarrow> u8 list" where
  "enc_server_message (RoomCreated r) = 0 # varint (unat r)"
| "enc_server_message RoomJoined = [1]"
| "enc_server_message (SharePeerContacts a b) = 2 # enc_full a @ enc_full b"
| "enc_server_message SyntaxError = [3]"
| "enc_server_message ErrorNoSuchRoomID = [4]"

fun dec_server_message :: "server_message decoder" where
  "dec_server_message [] = None"
| "dec_server_message (b # bs) =
     (if b = 0 then map_option (\<lambda>(r, bs). (RoomCreated (of_nat r), bs)) (unvarint bs)
      else if b = 1 then Some (RoomJoined, bs)
      else if b = 2 then
        (case dec_full bs of None \<Rightarrow> None
         | Some (a, bs) \<Rightarrow> map_option (\<lambda>(b, bs). (SharePeerContacts a b, bs)) (dec_full bs))
      else if b = 3 then Some (SyntaxError, bs)
      else if b = 4 then Some (ErrorNoSuchRoomID, bs) else None)"

text \<open>What the format keeps: socket addresses without flow label and scope.\<close>

definition plain_v6 :: "socket_addr_v6 option \<Rightarrow> bool" where
  "plain_v6 a = (case a of None \<Rightarrow> True | Some a \<Rightarrow> v6_flowinfo a = 0 \<and> v6_scope_id a = 0)"

fun plain_addr :: "socket_addr option \<Rightarrow> bool" where
  "plain_addr (Some (V6 a)) = plain_v6 (Some a)"
| "plain_addr _ = True"

definition plain_full :: "full_contact \<Rightarrow> bool" where
  "plain_full fc \<longleftrightarrow> plain_v6 (ct_v6 (fc_private fc)) \<and> plain_v6 (ct_v6 (fc_public fc))"

fun valid_client_message :: "client_message \<Rightarrow> bool" where
  "valid_client_message (SendPrivateAddr a) = plain_addr a"
| "valid_client_message _ = True"

fun valid_server_message :: "server_message \<Rightarrow> bool" where
  "valid_server_message (SharePeerContacts a b) = (plain_full a \<and> plain_full b)"
| "valid_server_message _ = True"

text \<open>A codec from an encoder and a decoder that ignores trailing bytes.\<close>

definition make_codec :: "('m \<Rightarrow> u8 list) \<Rightarrow> 'm decoder \<Rightarrow> 'm codec" where
  "make_codec enc dec =
     \<lparr>pc_to_slice = (\<lambda>m buf. if length (enc m) \<le> length buf
                      then (enc m @ drop (length (enc m)) buf, Ok (length (enc m)))
                      else (buf, Err SerializeBufferFull)),
      pc_to_stdvec = (\<lambda>m. Ok (enc m)),
      pc_from_bytes = (\<lambda>bs. case dec bs of None \<Rightarrow> Err DeserializeBad | Some (m, _) \<Rightarrow> Ok m)\<rparr>"

definition client_codec :: "client_message codec" where
  "client_codec = make_codec enc_client_message dec_client_message"

definition server_codec :: "server_message codec" where
  "server_codec = make_codec enc_server_message dec_server_message"

section \<open>Round trips\<close>

lemma length_nat_be [simp]: "length (nat_be k n) = k"
  by (induction k) auto

lemma be_nat_nat_be: "be_nat (nat_be k n) = n mod 256 ^ k"
  by (induction k) (simp_all add: unat_of_nat_u8 mod_mult2_eq mult.commute [of 256] add.commute)

lemma octets_nat_be: "n < 256 ^ k \<Longrightarrow> octets k (nat_be k n @ r) = Some (n, r)"
  by (simp add: octets_def be_nat_nat_be)

lemma unvarint_varint: "unvarint (varint n @ r) = Some (n, r)"
proof (induction n rule: varint.induct)
  case (1 n)
  show ?case
  proof (cases "n < 128")
    case True
    then show ?thesis by (simp add: varint.simps [of n] unat_of_nat_u8)
  next
    case False
    have "128 + n mod 128 < 256" by simp
    then have "unat (of_nat (128 + n mod 128) :: u8) = 128 + n mod 128"
      by (simp only: unat_of_nat_u8 mod_less)
    with False 1 show ?thesis
      by (simp add: varint.simps [of n] del: of_nat_add)
  qed
qed

lemma dec_v4_enc [simp]: "dec_v4 (enc_v4 a @ r) = Some (a, r)"
  using octets_nat_be [of "unat (v4_ip a)" 4] unat_less_u32 [of "v4_ip a"]
  by (simp add: dec_v4_def enc_v4_def unvarint_varint)

lemma dec_v6_enc: "v6_flowinfo a = 0 \<Longrightarrow> v6_scope_id a = 0 \<Longrightarrow> dec_v6 (enc_v6 a @ r) = Some (a, r)"
  using octets_nat_be [of "unat (v6_ip a)" 16] unsigned_less [of "v6_ip a", where 'a = nat]
  by (simp add: dec_v6_def enc_v6_def unvarint_varint)

lemma dec_option_v4: "dec_option dec_v4 (enc_option enc_v4 a @ r) = Some (a, r)"
  by (cases a) auto

lemma dec_option_v6: "plain_v6 a \<Longrightarrow> dec_option dec_v6 (enc_option enc_v6 a @ r) = Some (a, r)"
  by (cases a) (auto simp: plain_v6_def dec_v6_enc)

lemma dec_addr_enc: "plain_addr (Some a) \<Longrightarrow> dec_addr (enc_addr a @ r) = Some (a, r)"
  by (cases a) (auto simp: plain_v6_def dec_v6_enc)

lemma dec_option_addr: "plain_addr a \<Longrightarrow> dec_option dec_addr (enc_option enc_addr a @ r) = Some (a, r)"
  by (cases a) (auto simp: dec_addr_enc)

lemma dec_contact_enc: "plain_v6 (ct_v6 c) \<Longrightarrow> dec_contact (enc_contact c @ r) = Some (c, r)"
  by (simp add: dec_contact_def enc_contact_def dec_option_v6 dec_option_v4)

lemma dec_full_enc: "plain_full fc \<Longrightarrow> dec_full (enc_full fc @ r) = Some (fc, r)"
  by (simp add: dec_full_def enc_full_def plain_full_def dec_contact_enc)

lemma dec_client_message_enc:
  "valid_client_message m \<Longrightarrow> dec_client_message (enc_client_message m @ r) = Some (m, r)"
  by (cases m) (auto simp: unvarint_varint dec_option_addr)

lemma dec_server_message_enc:
  "valid_server_message m \<Longrightarrow> dec_server_message (enc_server_message m @ r) = Some (m, r)"
  by (cases m) (auto simp: unvarint_varint dec_full_enc)

lemma make_codec_laws:
  assumes "\<And>m r. valid m \<Longrightarrow> dec (enc m @ r) = Some (m, r)"
  shows "postcard_codec (make_codec enc dec) enc valid"
  by unfold_locales (auto simp: make_codec_def assms)

interpretation client_wire: postcard_codec client_codec enc_client_message valid_client_message
  unfolding client_codec_def by (rule make_codec_laws) (rule dec_client_message_enc)

interpretation server_wire: postcard_codec server_codec enc_server_message valid_server_message
  unfolding server_codec_def by (rule make_codec_laws) (rule dec_server_message_enc)

end
