(* ===== verification/Messenger.thy ===== *)
theory Messenger
  imports Postcard
begin

text \<open>
  The message framing between hole-punching client and server: \<open>Messenger\<close> of
  \<^verbatim>\<open>gday_hole_punch/src/lib.rs\<close>, a TLS stream with one buffer that is used in both
  directions. A message is its postcard encoding behind a big-endian 32-bit length.

  The stream (tokio's and rustls' asynchronous reads and writes) is a parameter: \<open>byte_stream\<close>
  holds the calls, the locale \<open>duplex_stream\<close> their documented behaviour on a connection that
  delivers, over the bytes still to arrive and the bytes sent so far.
\<close>

section \<open>The stream interface\<close>

text \<open>
  \<open>st_read_exact s dst\<close> is \<open>read_exact(&mut dst)\<close>: the dst afterwards and the result.
\<close>

record 's byte_stream =
  st_read_u32 :: "'s \<Rightarrow> 's \<times> (io_error, u32) res"
  st_read_exact :: "'s \<Rightarrow> u8 list \<Rightarrow> 's \<times> u8 list \<times> (io_error, unit) res"
  st_write_all :: "'s \<Rightarrow> u8 list \<Rightarrow> 's \<times> (io_error, unit) res"
  st_flush :: "'s \<Rightarrow> 's \<times> (io_error, unit) res"
  st_local_addr :: "'s \<Rightarrow> (io_error, socket_addr) res"
  st_peer_addr :: "'s \<Rightarrow> (io_error, socket_addr) res"

section \<open>The messenger\<close>

datatype serialization_error =
  PostcardError postcard_error | SerIO io_error | TmpBufTooSmall | MessageTooLong

record 's messenger =
  ms_stream :: 's
  ms_buf :: "u8 list"

definition with_capacity :: "'s \<Rightarrow> nat \<Rightarrow> 's messenger" where
  "with_capacity stream capacity = \<lparr>ms_stream = stream, ms_buf = replicate capacity 0\<rparr>"

definition next_msg ::
  "'s byte_stream \<Rightarrow> 'm codec \<Rightarrow> 's messenger \<Rightarrow> 's messenger \<times> (serialization_error, 'm) res" where
  "next_msg S C m =
     (case st_read_u32 S (ms_stream m) of (st, r) \<Rightarrow>
      bind_st (m\<lparr>ms_stream := st\<rparr>, map_err SerIO r) (\<lambda>m len.
        let len = unat len
        in if length (ms_buf m) < len then (m, Err TmpBufTooSmall)
           else
             (case st_read_exact S (ms_stream m) (take len (ms_buf m)) of (st, dst, r) \<Rightarrow>
              bind_st (m\<lparr>ms_stream := st, ms_buf := dst @ drop len (ms_buf m)\<rparr>, map_err SerIO r) (\<lambda>m _.
                (m, map_err PostcardError (pc_from_bytes C (take len (ms_buf m))))))))"

definition write_msg ::
  "'s byte_stream \<Rightarrow> 'm codec \<Rightarrow> 's messenger \<Rightarrow> 'm \<Rightarrow> 's messenger \<times> (serialization_error, unit) res" where
  "write_msg S C m msg =
     (if length (ms_buf m) < 4 then (m, Panic OutOfBounds)
      else
        (case pc_to_slice C msg (drop 4 (ms_buf m)) of (tail, r) \<Rightarrow>
         bind_st (m\<lparr>ms_buf := take 4 (ms_buf m) @ tail\<rparr>, map_err PostcardError r) (\<lambda>m len.
           case u32_try_from len of
             None \<Rightarrow> (m, Err MessageTooLong)
           | Some len32 \<Rightarrow>
               let m = m\<lparr>ms_buf := u32_to_be_bytes len32 @ drop 4 (ms_buf m)\<rparr>
               in case st_write_all S (ms_stream m) (take (4 + len) (ms_buf m)) of (st, r) \<Rightarrow>
                  bind_st (m\<lparr>ms_stream := st\<rparr>, map_err SerIO r) (\<lambda>m _.
                    case st_flush S (ms_stream m) of (st, r) \<Rightarrow>
                    bind_st (m\<lparr>ms_stream := st\<rparr>, map_err SerIO r) (\<lambda>m _. (m, Ok ()))))))"

definition local_addr :: "'s byte_stream \<Rightarrow> 's messenger \<Rightarrow> (io_error, socket_addr) res" where
  "local_addr S m = st_local_addr S (ms_stream m)"

definition peer_addr :: "'s byte_stream \<Rightarrow> 's messenger \<Rightarrow> (io_error, socket_addr) res" where
  "peer_addr S m = st_peer_addr S (ms_stream m)"

text \<open>Reading and writing leave the two ends of the connection as they are.\<close>

definition same_ends :: "'s byte_stream \<Rightarrow> 's \<Rightarrow> 's \<Rightarrow> bool" where
  "same_ends S s t \<longleftrightarrow> st_local_addr S t = st_local_addr S s \<and> st_peer_addr S t = st_peer_addr S s"

section \<open>A connection over lists\<close>

text \<open>A connection over lists: the bytes to arrive, the bytes sent, the two addresses.\<close>

record pipe =
  pi_in :: "u8 list"
  pi_out :: "u8 list"
  pi_local :: socket_addr
  pi_peer :: socket_addr

definition pipe_stream :: "pipe byte_stream" where
  "pipe_stream =
     \<lparr>st_read_u32 = (\<lambda>s. if length (pi_in s) < 4 then (s, Err UnexpectedEof)
                        else (s\<lparr>pi_in := drop 4 (pi_in s)\<rparr>, Ok (u32_from_be_bytes (take 4 (pi_in s))))),
      st_read_exact = (\<lambda>s dst. if length (pi_in s) < length dst then (s, dst, Err UnexpectedEof)
                        else (s\<lparr>pi_in := drop (length dst) (pi_in s)\<rparr>, take (length dst) (pi_in s), Ok ())),
      st_write_all = (\<lambda>s bs. (s\<lparr>pi_out := pi_out s @ bs\<rparr>, Ok ())),
      st_flush = (\<lambda>s. (s, Ok ())),
      st_local_addr = (\<lambda>s. Ok (pi_local s)),
      st_peer_addr = (\<lambda>s. Ok (pi_peer s))\<rparr>"

text \<open>Reading and writing several messages, as the handlers do over a connection's life.\<close>

fun write_msgs ::
  "'s byte_stream \<Rightarrow> 'm codec \<Rightarrow> 's messenger \<Rightarrow> 'm list \<Rightarrow> 's messenger \<times> (serialization_error, unit) res" where
  "write_msgs S C m [] = (m, Ok ())"
| "write_msgs S C m (x # xs) = bind_st (write_msg S C m x) (\<lambda>m _. write_msgs S C m xs)"

fun next_msgs ::
  "'s byte_stream \<Rightarrow> 'm codec \<Rightarrow> 's messenger \<Rightarrow> nat \<Rightarrow> 's messenger \<times> (serialization_error, 'm list) res" where
  "next_msgs S C m 0 = (m, Ok [])"
| "next_msgs S C m (Suc n) =
     bind_st (next_msg S C m) (\<lambda>m x. bind_st (next_msgs S C m n) (\<lambda>m xs. (m, Ok (x # xs))))"

text \<open>
  The size postcard needs for a shared IPv6 address: an option tag, sixteen octets and a
  port of at least one byte.
\<close>

definition v6_count :: "full_contact \<Rightarrow> nat" where
  "v6_count fc = (if ct_v6 (fc_private fc) = None then 0 else 1) + (if ct_v6 (fc_public fc) = None then 0 else 1)"

definition v6_size_law :: "(server_message \<Rightarrow> u8 list) \<Rightarrow> bool" where
  "v6_size_law encode \<longleftrightarrow>
     (\<forall>a b. 18 * (v6_count a + v6_count b) \<le> length (encode (SharePeerContacts a b)))"

text \<open>A contact with an IPv6 address in both places.\<close>

definition v6_contact :: full_contact where
  "v6_contact =
     (let c = \<lparr>ct_v6 = Some \<lparr>v6_ip = 1, v6_port = 80, v6_flowinfo = 0, v6_scope_id = 0\<rparr>, ct_v4 = None\<rparr>
      in \<lparr>fc_private = c, fc_public = c\<rparr>)"

definition idle_pipe :: "u8 list \<Rightarrow> pipe" where
  "idle_pipe bs =
     \<lparr>pi_in = bs, pi_out = [], pi_local = V4 \<lparr>v4_ip = 1, v4_port = 1\<rparr>, pi_peer = V4 \<lparr>v4_ip = 2, v4_port = 2\<rparr>\<rparr>"

section \<open>Framing over a stream that delivers\<close>

locale duplex_stream =
  fixes S :: "'s byte_stream" and incoming :: "'s \<Rightarrow> u8 list" and sent :: "'s \<Rightarrow> u8 list"
  assumes read_u32: "4 \<le> length (incoming s) \<Longrightarrow>
      \<exists>s'. st_read_u32 S s = (s', Ok (u32_from_be_bytes (take 4 (incoming s)))) \<and>
           incoming s' = drop 4 (incoming s) \<and> sent s' = sent s \<and> same_ends S s s'"
    and read_exact: "length dst \<le> length (incoming s) \<Longrightarrow>
      \<exists>s'. st_read_exact S s dst = (s', take (length dst) (incoming s), Ok ()) \<and>
           incoming s' = drop (length dst) (incoming s) \<and> sent s' = sent s \<and> same_ends S s s'"
    and write_all: "\<exists>s'. st_write_all S s bs = (s', Ok ()) \<and> sent s' = sent s @ bs \<and> incoming s' = incoming s \<and>
      same_ends S s s'"
    and flush: "\<exists>s'. st_flush S s = (s', Ok ()) \<and> sent s' = sent s \<and> incoming s' = incoming s \<and> same_ends S s s'"

interpretation pipe: duplex_stream pipe_stream pi_in pi_out
  by unfold_locales (auto simp: pipe_stream_def same_ends_def)

locale message_channel = duplex_stream S incoming sent + postcard_codec C encode valid
  for S :: "'s byte_stream" and incoming sent and C :: "'m codec" and encode valid
begin

lemma write_msg_sends:
  assumes "4 + length (encode msg) \<le> length (ms_buf m)" and "length (ms_buf m) < 2 ^ 32"
  shows "\<exists>m'. write_msg S C m msg = (m', Ok ()) \<and> length (ms_buf m') = length (ms_buf m) \<and>
     sent (ms_stream m') = sent (ms_stream m) @ frame (encode msg) \<and>
     incoming (ms_stream m') = incoming (ms_stream m) \<and> same_ends S (ms_stream m) (ms_stream m')"
proof -
  let ?len = "length (encode msg)"
  let ?buf = "u32_to_be_bytes (of_nat ?len) @ encode msg @ drop (4 + ?len) (ms_buf m)"
  obtain s where s: "st_write_all S (ms_stream m) (frame (encode msg)) = (s, Ok ())"
      "sent s = sent (ms_stream m) @ frame (encode msg)" "incoming s = incoming (ms_stream m)"
      "same_ends S (ms_stream m) s"
    using write_all by blast
  obtain t where t: "st_flush S s = (t, Ok ())" "sent t = sent s" "incoming t = incoming s" "same_ends S s t"
    using flush by blast
  have "pc_to_slice C msg (drop 4 (ms_buf m)) =
      (encode msg @ drop (4 + ?len) (ms_buf m), Ok ?len)"
    using assms(1) to_slice_fits [of msg "drop 4 (ms_buf m)"] by (simp add: add.commute)
  moreover have "u32_try_from ?len = Some (of_nat ?len)"
    using assms by (intro u32_try_from_Some) simp
  ultimately have "write_msg S C m msg = (m\<lparr>ms_buf := ?buf, ms_stream := t\<rparr>, Ok ())"
    using assms(1) s(1) t(1) by (simp add: write_msg_def frame_def)
  then show ?thesis using assms(1) s t by (simp add: same_ends_def)
qed

lemma next_msg_receives:
  assumes "incoming (ms_stream m) = frame (encode msg) @ rest" and "valid msg"
    and "length (encode msg) \<le> length (ms_buf m)" and "length (ms_buf m) < 2 ^ 32"
  shows "\<exists>m'. next_msg S C m = (m', Ok msg) \<and> length (ms_buf m') = length (ms_buf m) \<and>
     incoming (ms_stream m') = rest \<and> sent (ms_stream m') = sent (ms_stream m) \<and>
     same_ends S (ms_stream m) (ms_stream m')"
proof -
  let ?len = "length (encode msg)"
  have take4: "take 4 (incoming (ms_stream m)) = u32_to_be_bytes (of_nat ?len)"
    and drop4: "drop 4 (incoming (ms_stream m)) = encode msg @ rest"
    using assms(1) by (simp_all add: frame_def)
  have "4 \<le> length (incoming (ms_stream m))" using assms(1) by (simp add: frame_def)
  from read_u32 [OF this] take4 drop4 obtain s where
    s: "st_read_u32 S (ms_stream m) = (s, Ok (of_nat ?len))" "incoming s = encode msg @ rest"
       "sent s = sent (ms_stream m)" "same_ends S (ms_stream m) s" by auto
  have len: "unat (of_nat ?len :: u32) = ?len" using assms by (intro unat_of_nat_u32) simp
  have "length (take ?len (ms_buf m)) \<le> length (incoming s)" using assms(3) s(2) by simp
  from read_exact [OF this] assms(3) s(2) obtain t where
    t: "st_read_exact S s (take ?len (ms_buf m)) = (t, encode msg, Ok ())" "incoming t = rest" "sent t = sent s"
       "same_ends S s t"
    by (auto simp: min_absorb2)
  have "pc_from_bytes C (encode msg) = Ok msg" using from_bytes_encode [OF assms(2), of "[]"] by simp
  then have "next_msg S C m =
      (m\<lparr>ms_stream := t, ms_buf := encode msg @ drop ?len (ms_buf m)\<rparr>, Ok msg)"
    using s(1) t(1) len assms(3) by (simp add: next_msg_def)
  then show ?thesis using s t assms(3) by (simp add: same_ends_def)
qed

lemma write_msg_too_long:
  assumes "length (ms_buf m) < 4 + length (encode msg)" and "4 \<le> length (ms_buf m)"
  shows "\<exists>m'. write_msg S C m msg = (m', Err (PostcardError SerializeBufferFull)) \<and>
     ms_stream m' = ms_stream m"
proof -
  obtain buf r where br: "pc_to_slice C msg (drop 4 (ms_buf m)) = (buf, r)" by fastforce
  then have "r = Err SerializeBufferFull" using to_slice_full [of "drop 4 (ms_buf m)" msg] assms by simp
  with br show ?thesis using assms(2) by (simp add: write_msg_def)
qed

lemma write_msgs_sends:
  assumes "\<forall>x \<in> set xs. 4 + length (encode x) \<le> length (ms_buf m)" and "length (ms_buf m) < 2 ^ 32"
  shows "\<exists>m'. write_msgs S C m xs = (m', Ok ()) \<and> length (ms_buf m') = length (ms_buf m) \<and>
     sent (ms_stream m') = sent (ms_stream m) @ concat (map (\<lambda>x. frame (encode x)) xs)"
  using assms
proof (induction xs arbitrary: m)
  case Nil
  then show ?case by simp
next
  case (Cons x xs)
  then obtain m1 where m1: "write_msg S C m x = (m1, Ok ())" "length (ms_buf m1) = length (ms_buf m)"
      "sent (ms_stream m1) = sent (ms_stream m) @ frame (encode x)"
    using write_msg_sends [of x m] by auto
  with Cons.prems Cons.IH [of m1] show ?case by auto
qed

lemma next_msgs_receives:
  assumes "incoming (ms_stream m) = concat (map (\<lambda>x. frame (encode x)) xs) @ rest"
    and "\<forall>x \<in> set xs. valid x \<and> length (encode x) \<le> length (ms_buf m)" and "length (ms_buf m) < 2 ^ 32"
  shows "\<exists>m'. next_msgs S C m (length xs) = (m', Ok xs) \<and> incoming (ms_stream m') = rest"
  using assms
proof (induction xs arbitrary: m)
  case Nil
  then show ?case by simp
next
  case (Cons x xs)
  then obtain m1 where m1: "next_msg S C m = (m1, Ok x)" "length (ms_buf m1) = length (ms_buf m)"
      "incoming (ms_stream m1) = concat (map (\<lambda>x. frame (encode x)) xs) @ rest"
    using next_msg_receives [of m x "concat (map (\<lambda>x. frame (encode x)) xs) @ rest"] by auto
  with Cons.prems Cons.IH [of m1] show ?case by auto
qed

end

interpretation client_pipe: message_channel pipe_stream pi_in pi_out client_codec enc_client_message valid_client_message
  by unfold_locales

interpretation server_pipe: message_channel pipe_stream pi_in pi_out server_codec enc_server_message valid_server_message
  by unfold_locales


section \<open>Properties\<close>

text \<open>
  C9: whatever sequence of messages one messenger writes, a messenger that receives those
  bytes reads exactly that sequence and leaves the bytes behind it unread, for buffers of less
  than \<open>2 ^ 32\<close> bytes and messages that the encoding represents (\<open>valid\<close>: an IPv6 address has no flow
  label and no scope, which are not encoded) and that fit the buffer next to the four length bytes.
\<close>

theorem message_roundtrip:
  assumes "message_channel S incoming sent C encode valid" and "cap < 2 ^ 32"
    and "\<forall>x \<in> set xs. valid x \<and> 4 + length (encode x) \<le> cap"
  shows "\<exists>m bytes. write_msgs S C (with_capacity s cap) xs = (m, Ok ()) \<and>
    sent (ms_stream m) = sent s @ bytes \<and>
    (\<forall>t rest. incoming t = bytes @ rest \<longrightarrow>
       (\<exists>r. next_msgs S C (with_capacity t cap) (length xs) = (r, Ok xs) \<and> incoming (ms_stream r) = rest))"
proof -
  let ?bytes = "concat (map (\<lambda>x. frame (encode x)) xs)"
  have written: "\<exists>m. write_msgs S C (with_capacity s cap) xs = (m, Ok ()) \<and> sent (ms_stream m) = sent s @ ?bytes"
    using message_channel.write_msgs_sends [OF assms(1), of xs "with_capacity s cap"] assms(2,3)
    by (auto simp: with_capacity_def)
  have fits: "\<forall>x \<in> set xs. valid x \<and> length (encode x) \<le> cap" using assms(3) by fastforce
  have "\<exists>r. next_msgs S C (with_capacity t cap) (length xs) = (r, Ok xs) \<and> incoming (ms_stream r) = rest"
    if "incoming t = ?bytes @ rest" for t rest
    using message_channel.next_msgs_receives [OF assms(1), of "with_capacity t cap" xs rest] that assms(2) fits
    by (auto simp: with_capacity_def)
  with written show ?thesis by blast
qed

text \<open>
  A message whose encoding does not fit is refused with postcard's buffer error before
  anything reaches the stream.
\<close>

lemma write_msg_refuses_long:
  assumes "message_channel S incoming sent C encode valid"
    and "cap < 4 + length (encode msg)" and "4 \<le> cap"
  shows "\<exists>m. write_msg S C (with_capacity s cap) msg = (m, Err (PostcardError SerializeBufferFull)) \<and>
    ms_stream m = s"
  using message_channel.write_msg_too_long [OF assms(1), of "with_capacity s cap" msg] assms(2,3)
  by (simp add: with_capacity_def)

text \<open>
  C19: the server's messenger has 68 bytes, which leaves 64 for an encoding: the reply that
  shares the contacts of two peers who both announced a public and a private IPv6 address
  needs at least 72 bytes, so it can never be written.
\<close>

theorem share_contacts_v6_never_fits:
  assumes "message_channel S incoming sent C encode valid" and "v6_size_law encode"
    and "v6_count a = 2" and "v6_count b = 2"
  shows "\<exists>m. write_msg S C (with_capacity s 68) (SharePeerContacts a b) =
      (m, Err (PostcardError SerializeBufferFull)) \<and> ms_stream m = s"
proof -
  have "18 * (v6_count a + v6_count b) \<le> length (encode (SharePeerContacts a b))"
    using assms(2) by (simp add: v6_size_law_def)
  then have "(68 :: nat) < 4 + length (encode (SharePeerContacts a b))" using assms(3,4) by simp
  then show ?thesis
    using message_channel.write_msg_too_long [OF assms(1), of "with_capacity s 68" "SharePeerContacts a b"]
    by (simp add: with_capacity_def)
qed

section \<open>Concrete instances\<close>

theorem message_roundtrip_witness:
  "\<exists>m bytes. write_msgs pipe_stream client_codec (with_capacity (idle_pipe []) 68) [CreateRoom, DoneSending] = (m, Ok ()) \<and>
    pi_out (ms_stream m) = pi_out (idle_pipe []) @ bytes \<and>
    (\<forall>t rest. pi_in t = bytes @ rest \<longrightarrow>
       (\<exists>r. next_msgs pipe_stream client_codec (with_capacity t 68) (length [CreateRoom, DoneSending]) =
            (r, Ok [CreateRoom, DoneSending]) \<and> pi_in (ms_stream r) = rest))"
  by (rule message_roundtrip [OF client_pipe.message_channel_axioms]) simp_all

lemma varint_nonempty: "1 \<le> length (varint n)"
  by (simp add: varint.simps)

lemma enc_option_v6_length: "(if a = None then 0 else 18) \<le> length (enc_option enc_v6 a)"
  using varint_nonempty by (cases a) (auto simp: enc_v6_def)

lemma enc_full_length: "18 * v6_count fc \<le> length (enc_full fc)"
  using enc_option_v6_length [of "ct_v6 (fc_private fc)"] enc_option_v6_length [of "ct_v6 (fc_public fc)"]
  by (auto simp: enc_full_def enc_contact_def v6_count_def)

lemma server_codec_v6_size: "v6_size_law enc_server_message"
  using enc_full_length by (auto simp: v6_size_law_def add_mono distrib_left intro: le_SucI)

theorem share_contacts_v6_never_fits_witness:
  "\<exists>m. write_msg pipe_stream server_codec (with_capacity (idle_pipe []) 68) (SharePeerContacts v6_contact v6_contact) =
      (m, Err (PostcardError SerializeBufferFull)) \<and> ms_stream m = idle_pipe []"
  by (rule share_contacts_v6_never_fits [OF server_pipe.message_channel_axioms server_codec_v6_size])
    (simp_all add: v6_count_def v6_contact_def Let_def)

end
