(* ===== verification/Connection_Handler.thy ===== *)
theory Connection_Handler
  imports Global_State Messenger
begin

text \<open>
  The protocol of one server connection
  (\<^verbatim>\<open>gday_hole_punch/src/server/connection_handler.rs\<close>) and the server as a whole: any
  number of connections, each at one of its await points, over the shared state. A step is
  one message handled by one connection, a wake-up of a connection that waits for its peer, a
  new connection, or a timer. Within \<open>handle_message\<close> the two calls of \<open>update_client\<close> are
  taken in one step; both go through the operations of \<open>Global_State\<close> one after the other.
\<close>

section \<open>The handler\<close>

datatype server_error =
  SrvIO io_error | SrvSerialization serialization_error | RoomTimedOut | SrvNoSuchRoomId
  | ReceivedIncorrectMessage

text \<open>The libraries the server is linked with.\<close>

record ('s, 'k, 'g) server_libs =
  lib_stream :: "'s byte_stream"
  lib_client :: "client_message codec"
  lib_server :: "server_message codec"
  lib_oneshot :: "('k, exchange) oneshot"
  lib_gen :: "'g \<Rightarrow> u32 \<times> 'g"

text \<open>What a handler works on: its messenger, the shared state, the random generator.\<close>

record ('s, 'k, 'g) handler_state =
  hs_messenger :: "'s messenger"
  hs_state :: "'k gstate"
  hs_rng :: 'g

definition send ::
  "('s, 'k, 'g) server_libs \<Rightarrow> ('s, 'k, 'g) handler_state \<Rightarrow> server_message
   \<Rightarrow> ('s, 'k, 'g) handler_state \<times> (server_error, unit) res" where
  "send L h msg =
     (case write_msg (lib_stream L) (lib_server L) (hs_messenger h) msg of (m, r) \<Rightarrow>
      (h\<lparr>hs_messenger := m\<rparr>, map_err SrvSerialization r))"

definition send_no_such_room ::
  "('s, 'k, 'g) server_libs \<Rightarrow> ('s, 'k, 'g) handler_state
   \<Rightarrow> ('s, 'k, 'g) handler_state \<times> (server_error, 'a) res" where
  "send_no_such_room L h = bind_st (send L h ErrorNoSuchRoomID) (\<lambda>h _. (h, Err SrvNoSuchRoomId))"

text \<open>The messenger that \<open>start\<close> sets up on the stream of a new connection.\<close>

definition server_messenger :: "'s \<Rightarrow> 's messenger" where
  "server_messenger stream = with_capacity stream 68"

text \<open>The part of \<open>start\<close> from there to its loop: the first message decides room and role.\<close>

definition start ::
  "('s, 'k, 'g) server_libs \<Rightarrow> ('s, 'k, 'g) handler_state
   \<Rightarrow> (('s, 'k, 'g) handler_state \<times> (server_error, u32 \<times> bool) res) option" where
  "start L h =
     (case next_msg (lib_stream L) (lib_client L) (hs_messenger h) of (m, r) \<Rightarrow>
      let h = h\<lparr>hs_messenger := m\<rparr>
      in case r of
           Ok CreateRoom \<Rightarrow>
             (case create_room (lib_gen L) (hs_state h) (hs_rng h) of
                None \<Rightarrow> None
              | Some (room_id, gs, g) \<Rightarrow>
                  Some (bind_st (send L (h\<lparr>hs_state := gs, hs_rng := g\<rparr>) (RoomCreated room_id))
                    (\<lambda>h _. (h, Ok (room_id, True)))))
         | Ok (JoinRoom room_id) \<Rightarrow>
             if room_exists (hs_state h) room_id
             then Some (bind_st (send L h RoomJoined) (\<lambda>h _. (h, Ok (room_id, False))))
             else Some (send_no_such_room L h)
         | Ok _ \<Rightarrow> Some (bind_st (send L h SyntaxError) (\<lambda>h _. (h, Err ReceivedIncorrectMessage)))
         | Err err \<Rightarrow> Some (bind_st (send L h SyntaxError) (\<lambda>h _. (h, Err (SrvSerialization err))))
         | Panic p \<Rightarrow> Some (h, Panic p))"

definition handler_update_client ::
  "('s, 'k, 'g) server_libs \<Rightarrow> ('s, 'k, 'g) handler_state \<Rightarrow> u32 \<Rightarrow> bool \<Rightarrow> socket_addr \<Rightarrow> bool
   \<Rightarrow> ('s, 'k, 'g) handler_state \<times> (server_error, unit) res" where
  "handler_update_client L h room_id is_creator addr pub =
     (case update_client (hs_state h) room_id is_creator addr pub of (gs, r) \<Rightarrow>
      let h = h\<lparr>hs_state := gs\<rparr>
      in case r of Ok _ \<Rightarrow> (h, Ok ()) | _ \<Rightarrow> send_no_such_room L h)"

text \<open>\<open>handle_message\<close> returns, or it is suspended at \<open>rx.await\<close> with its receiver.\<close>

datatype progress = Handled | AwaitPeer chan_id

definition handle_message ::
  "('s, 'k, 'g) server_libs \<Rightarrow> ('s, 'k, 'g) handler_state \<Rightarrow> u32 \<Rightarrow> bool
   \<Rightarrow> ('s, 'k, 'g) handler_state \<times> (server_error, progress) res" where
  "handle_message L h room_id is_creator =
     (case next_msg (lib_stream L) (lib_client L) (hs_messenger h) of (m, r) \<Rightarrow>
      let h = h\<lparr>hs_messenger := m\<rparr>
      in case r of
           Ok (SendPrivateAddr private_addr) \<Rightarrow>
             bind_st (h, map_err SrvIO (peer_addr (lib_stream L) (hs_messenger h))) (\<lambda>h addr.
             bind_st (handler_update_client L h room_id is_creator addr True) (\<lambda>h _.
               case private_addr of
                 None \<Rightarrow> (h, Ok Handled)
               | Some addr \<Rightarrow>
                   bind_st (handler_update_client L h room_id is_creator addr False) (\<lambda>h _. (h, Ok Handled))))
         | Ok DoneSending \<Rightarrow>
             (case set_client_done (lib_oneshot L) (hs_state h) room_id is_creator of (gs, r) \<Rightarrow>
              let h = h\<lparr>hs_state := gs\<rparr>
              in case r of Ok rx \<Rightarrow> (h, Ok (AwaitPeer rx)) | _ \<Rightarrow> send_no_such_room L h)
         | Ok _ \<Rightarrow> bind_st (send L h SyntaxError) (\<lambda>h _. (h, Err ReceivedIncorrectMessage))
         | Err err \<Rightarrow> bind_st (send L h SyntaxError) (\<lambda>h _. (h, Err (SrvSerialization err)))
         | Panic p \<Rightarrow> (h, Panic p))"

text \<open>The rest of \<open>handle_message\<close> once \<open>rx.await\<close> has a result; \<open>None\<close> while it has not.\<close>

definition handle_peer_ready ::
  "('s, 'k, 'g) server_libs \<Rightarrow> ('s, 'k, 'g) handler_state \<Rightarrow> chan_id
   \<Rightarrow> (('s, 'k, 'g) handler_state \<times> (server_error, progress) res) option" where
  "handle_peer_ready L h rx =
     (case os_recv (lib_oneshot L) (gs_chans (hs_state h)) rx of
        RecvPending \<Rightarrow> None
      | RecvError \<Rightarrow> Some (h, Err RoomTimedOut)
      | RecvValue (client_contact, peer_contact) \<Rightarrow>
          Some (bind_st (send L h (SharePeerContacts client_contact peer_contact)) (\<lambda>h _. (h, Ok Handled))))"

section \<open>The server\<close>

datatype phase =
  Starting | Running u32 bool | Waiting u32 bool chan_id | Closed "(server_error, unit) res"

record ('s, 'k, 'g) server =
  sv_state :: "'k gstate"
  sv_rng :: 'g
  sv_conns :: "nat \<rightharpoonup> 's messenger \<times> phase"

definition init_server :: "'k \<Rightarrow> 'g \<Rightarrow> ('s, 'k, 'g) server" where
  "init_server k g = \<lparr>sv_state = init_state k, sv_rng = g, sv_conns = Map.empty\<rparr>"

text \<open>The view one connection's handler has of the server, and the server after its step.\<close>

definition view :: "('s, 'k, 'g) server \<Rightarrow> 's messenger \<Rightarrow> ('s, 'k, 'g) handler_state" where
  "view v m = \<lparr>hs_messenger = m, hs_state = sv_state v, hs_rng = sv_rng v\<rparr>"

definition install :: "('s, 'k, 'g) server \<Rightarrow> nat \<Rightarrow> ('s, 'k, 'g) handler_state \<Rightarrow> phase \<Rightarrow> ('s, 'k, 'g) server" where
  "install v i h ph =
     v\<lparr>sv_state := hs_state h, sv_rng := hs_rng h, sv_conns := (sv_conns v)(i \<mapsto> (hs_messenger h, ph))\<rparr>"

fun started :: "(server_error, u32 \<times> bool) res \<Rightarrow> phase" where
  "started (Ok (room_id, is_creator)) = Running room_id is_creator"
| "started (Err e) = Closed (Err e)"
| "started (Panic p) = Closed (Panic p)"

fun continued :: "u32 \<Rightarrow> bool \<Rightarrow> (server_error, progress) res \<Rightarrow> phase" where
  "continued room_id is_creator (Ok Handled) = Running room_id is_creator"
| "continued room_id is_creator (Ok (AwaitPeer rx)) = Waiting room_id is_creator rx"
| "continued room_id is_creator (Err e) = Closed (Err e)"
| "continued room_id is_creator (Panic p) = Closed (Panic p)"

inductive server_step :: "('s, 'k, 'g) server_libs \<Rightarrow> ('s, 'k, 'g) server \<Rightarrow> ('s, 'k, 'g) server \<Rightarrow> bool"
  for L where
  sv_accept: "sv_conns v i = None \<Longrightarrow>
    server_step L v (v\<lparr>sv_conns := (sv_conns v)(i \<mapsto> (server_messenger stream, Starting))\<rparr>)"
| sv_start: "sv_conns v i = Some (m, Starting) \<Longrightarrow> start L (view v m) = Some (h, r) \<Longrightarrow>
    server_step L v (install v i h (started r))"
| sv_message: "sv_conns v i = Some (m, Running room_id is_creator) \<Longrightarrow>
    handle_message L (view v m) room_id is_creator = (h, r) \<Longrightarrow>
    server_step L v (install v i h (continued room_id is_creator r))"
| sv_resume: "sv_conns v i = Some (m, Waiting room_id is_creator rx) \<Longrightarrow>
    handle_peer_ready L (view v m) rx = Some (h, r) \<Longrightarrow>
    server_step L v (install v i h (continued room_id is_creator r))"
| sv_timeout: "room_id \<in> set (gs_room_timers (sv_state v)) \<Longrightarrow>
    server_step L v (v\<lparr>sv_state := room_timeout_fires (lib_oneshot L) (sv_state v) room_id\<rparr>)"

inductive server_reachable :: "('s, 'k, 'g) server_libs \<Rightarrow> ('s, 'k, 'g) server \<Rightarrow> bool" for L where
  sv_init: "server_reachable L (init_server k g)"
| sv_next: "server_reachable L v \<Longrightarrow> server_step L v w \<Longrightarrow> server_reachable L w"

section \<open>Invariants and instances\<close>

text \<open>
  The server invariant over the set of channels in use: the shared state is in order, and the
  receiver every waiting connection holds has already failed.
\<close>

definition server_inv :: "('s, 'k, 'g) server_libs \<Rightarrow> ('k \<Rightarrow> chan_id set) \<Rightarrow> ('s, 'k, 'g) server \<Rightarrow> bool" where
  "server_inv L used v \<longleftrightarrow> gs_inv (sv_state v) \<and>
     (\<forall>i m room_id is_creator rx. sv_conns v i = Some (m, Waiting room_id is_creator rx) \<longrightarrow>
        rx \<in> used (gs_chans (sv_state v)) \<and> os_recv (lib_oneshot L) (gs_chans (sv_state v)) rx = RecvError)"

text \<open>The short messages of the protocol fit the messenger's buffer of 68 bytes.\<close>

definition requests_fit :: "(client_message \<Rightarrow> u8 list) \<Rightarrow> bool" where
  "requests_fit enc_c \<longleftrightarrow> (\<forall>msg. length (enc_c msg) \<le> 68)"

definition replies_fit :: "(server_message \<Rightarrow> u8 list) \<Rightarrow> bool" where
  "replies_fit enc_s \<longleftrightarrow> (\<forall>room_id. length (enc_s (RoomCreated room_id)) \<le> 64) \<and>
     length (enc_s RoomJoined) \<le> 64 \<and> length (enc_s SyntaxError) \<le> 64 \<and> length (enc_s ErrorNoSuchRoomID) \<le> 64"

text \<open>A handler with its full buffer whose next message from the client is \<open>msg\<close>.\<close>

definition next_is :: "('s \<Rightarrow> u8 list) \<Rightarrow> (client_message \<Rightarrow> u8 list) \<Rightarrow> (client_message \<Rightarrow> bool)
    \<Rightarrow> ('s, 'k, 'g) handler_state \<Rightarrow> client_message \<Rightarrow> u8 list \<Rightarrow> bool" where
  "next_is incoming enc_c valid_c h msg rest \<longleftrightarrow>
     length (ms_buf (hs_messenger h)) = 68 \<and> valid_c msg \<and>
     incoming (ms_stream (hs_messenger h)) = frame (enc_c msg) @ rest"

text \<open>
  The handler after it consumed that message and replied: what was sent, what is left to
  read, and the shared state.
\<close>

definition replied :: "('s \<Rightarrow> u8 list) \<Rightarrow> ('s \<Rightarrow> u8 list) \<Rightarrow> ('s, 'k, 'g) handler_state \<Rightarrow> ('s, 'k, 'g) handler_state
    \<Rightarrow> u8 list \<Rightarrow> u8 list \<Rightarrow> 'k gstate \<Rightarrow> bool" where
  "replied incoming sent h h' reply rest gs \<longleftrightarrow>
     sent (ms_stream (hs_messenger h')) = sent (ms_stream (hs_messenger h)) @ reply \<and>
     incoming (ms_stream (hs_messenger h')) = rest \<and> hs_state h' = gs \<and>
     length (ms_buf (hs_messenger h')) = 68"

definition pipe_libs :: "(pipe, exchange recv list, nat) server_libs" where
  "pipe_libs = \<lparr>lib_stream = pipe_stream, lib_client = client_codec, lib_server = server_codec,
     lib_oneshot = chan_list, lib_gen = counting_gen\<rparr>"

text \<open>A handler over a given state whose client has sent some bytes.\<close>

definition pipe_handler :: "exchange recv list gstate \<Rightarrow> u8 list \<Rightarrow> (pipe, exchange recv list, nat) handler_state" where
  "pipe_handler gs bs = \<lparr>hs_messenger = server_messenger (idle_pipe bs), hs_state = gs, hs_rng = 0\<rparr>"

text \<open>The next message of a connection reports an address: its own peer address, or the one in the message.\<close>

definition reported_by :: "('s, 'k, 'g) server_libs \<Rightarrow> 's messenger \<Rightarrow> bool \<Rightarrow> socket_addr \<Rightarrow> bool" where
  "reported_by L m pub a \<longleftrightarrow>
     (\<exists>m' pa. next_msg (lib_stream L) (lib_client L) m = (m', Ok (SendPrivateAddr pa)) \<and>
        (if pub then peer_addr (lib_stream L) m' = Ok a else pa = Some a))"

section \<open>The handler moves the shared state by its operations only\<close>

lemma send_state [simp]:
  "hs_state (fst (send L h msg)) = hs_state h" "hs_rng (fst (send L h msg)) = hs_rng h"
  by (simp_all add: send_def split: prod.split)

lemma bind_send_state [simp]:
  "hs_state (fst (bind_st (send L h msg) (\<lambda>h x. (h, f x)))) = hs_state h"
  using send_state(1) [of L h msg] by (cases "send L h msg"; cases "snd (send L h msg)") auto

lemma send_no_such_room_state [simp]: "hs_state (fst (send_no_such_room L h)) = hs_state h"
  by (simp add: send_no_such_room_def)

lemma handler_update_client_steps:
  "gs_step (lib_gen L) (lib_oneshot L) (hs_state h) (hs_state (fst (handler_update_client L h room_id is_creator addr pub)))"
proof -
  obtain gs r where u: "update_client (hs_state h) room_id is_creator addr pub = (gs, r)" by fastforce
  then have "hs_state (fst (handler_update_client L h room_id is_creator addr pub)) = gs"
    by (cases r) (simp_all add: handler_update_client_def)
  then show ?thesis using step_update [OF u] by simp
qed

lemma start_steps:
  assumes "start L h = Some (h', r)"
  shows "(gs_step (lib_gen L) (lib_oneshot L))\<^sup>*\<^sup>* (hs_state h) (hs_state h')"
proof -
  obtain m q where nm: "next_msg (lib_stream L) (lib_client L) (hs_messenger h) = (m, q)" by fastforce
  show ?thesis
  proof (cases "q = Ok CreateRoom")
    case True
    with assms nm obtain room_id gs g where
      cr: "create_room (lib_gen L) (hs_state h) (hs_rng h) = Some (room_id, gs, g)"
      and h': "(h', r) = bind_st (send L (h\<lparr>hs_messenger := m, hs_state := gs, hs_rng := g\<rparr>) (RoomCreated room_id))
           (\<lambda>h _. (h, Ok (room_id, True)))"
      by (auto simp: start_def split: option.splits)
    have "hs_state h' = gs" using arg_cong [OF h', of "\<lambda>x. hs_state (fst x)"] by simp
    then show ?thesis using step_create [OF cr] by auto
  next
    case False
    with assms nm have "hs_state h' = hs_state (h\<lparr>hs_messenger := m\<rparr>)"
      by (auto simp: start_def Let_def split: res.splits client_message.splits if_splits
          dest: arg_cong [of _ _ "\<lambda>x. hs_state (fst x)"])
    then show ?thesis by simp
  qed
qed

lemma reply_and_fail:
  assumes "bind_st (send L h msg) (\<lambda>h _. (h, Err e)) = (h', r)"
  shows "hs_state h' = hs_state h \<and> (\<forall>x. r \<noteq> Ok x)"
  using assms send_state(1) [of L h msg]
  by (cases "send L h msg"; cases "snd (send L h msg)") auto

lemma handle_message_addr:
  assumes "next_msg (lib_stream L) (lib_client L) (hs_messenger h) = (m, Ok (SendPrivateAddr pa))"
    and "handle_message L h room_id is_creator = (h', r)"
  shows "(gs_step (lib_gen L) (lib_oneshot L))\<^sup>*\<^sup>* (hs_state h) (hs_state h') \<and> (\<forall>rx. r \<noteq> Ok (AwaitPeer rx))"
proof (cases "peer_addr (lib_stream L) m")
  case (Ok addr)
  let ?h = "h\<lparr>hs_messenger := m\<rparr>"
  obtain h1 r1 where u1: "handler_update_client L ?h room_id is_creator addr True = (h1, r1)" by fastforce
  have s1: "gs_step (lib_gen L) (lib_oneshot L) (hs_state h) (hs_state h1)"
    using handler_update_client_steps [of L ?h room_id is_creator addr True] u1 by simp
  show ?thesis
  proof (cases "r1 = Ok () \<and> pa \<noteq> None")
    case True
    then obtain a where pa: "pa = Some a" by auto
    obtain h2 r2 where u2: "handler_update_client L h1 room_id is_creator a False = (h2, r2)" by fastforce
    have "gs_step (lib_gen L) (lib_oneshot L) (hs_state h1) (hs_state h2)"
      using handler_update_client_steps [of L h1 room_id is_creator a False] u2 by simp
    moreover have "h' = h2 \<and> (\<forall>rx. r \<noteq> Ok (AwaitPeer rx))"
      using assms Ok True pa u1 u2 by (cases r2) (auto simp: handle_message_def)
    ultimately show ?thesis using s1 by (metis converse_rtranclp_into_rtranclp r_into_rtranclp)
  next
    case False
    then have "h' = h1 \<and> (\<forall>rx. r \<noteq> Ok (AwaitPeer rx))"
      using assms Ok u1 by (cases r1) (auto simp: handle_message_def split: option.splits)
    then show ?thesis using s1 by auto
  qed
qed (use assms in \<open>auto simp: handle_message_def\<close>)

lemma handle_message_done:
  assumes "next_msg (lib_stream L) (lib_client L) (hs_messenger h) = (m, Ok DoneSending)"
    and "set_client_done (lib_oneshot L) (hs_state h) room_id is_creator = (gs, q)"
    and "handle_message L h room_id is_creator = (h', r)"
  shows "hs_state h' = gs \<and> (\<forall>rx. r = Ok (AwaitPeer rx) \<longrightarrow> q = Ok rx)"
proof (cases q)
  case (Ok rx)
  then show ?thesis using assms by (auto simp: handle_message_def)
next
  case (Err e)
  then have "(h', r) = send_no_such_room L (h\<lparr>hs_messenger := m, hs_state := gs\<rparr>)"
    using assms by (simp add: handle_message_def)
  then show ?thesis
    using reply_and_fail [of L "h\<lparr>hs_messenger := m, hs_state := gs\<rparr>" ErrorNoSuchRoomID SrvNoSuchRoomId h' r]
    by (simp add: send_no_such_room_def)
next
  case (Panic p)
  have "snd (set_client_done (lib_oneshot L) (hs_state h) room_id is_creator) \<noteq> Panic p"
    by (auto simp: set_client_done_def Let_def split: option.splits prod.splits)
  then show ?thesis using Panic assms(2) by simp
qed

lemma handle_message_other:
  assumes "next_msg (lib_stream L) (lib_client L) (hs_messenger h) = (m, q)"
    and "q \<noteq> Ok DoneSending" and "\<And>pa. q \<noteq> Ok (SendPrivateAddr pa)"
    and "handle_message L h room_id is_creator = (h', r)"
  shows "hs_state h' = hs_state h \<and> (\<forall>x. r \<noteq> Ok x)"
proof (cases q)
  case (Ok msg)
  then show ?thesis
    using assms reply_and_fail [of L "h\<lparr>hs_messenger := m\<rparr>" SyntaxError _ h' r]
    by (cases msg) (auto simp: handle_message_def)
next
  case (Err e)
  then show ?thesis
    using assms reply_and_fail [of L "h\<lparr>hs_messenger := m\<rparr>" SyntaxError _ h' r]
    by (auto simp: handle_message_def)
qed (use assms in \<open>auto simp: handle_message_def\<close>)

text \<open>Every message a handler takes is a run of operations of the shared state.\<close>

lemma handle_message_steps:
  assumes "handle_message L h room_id is_creator = (h', r)"
  shows "(gs_step (lib_gen L) (lib_oneshot L))\<^sup>*\<^sup>* (hs_state h) (hs_state h')"
proof -
  obtain m q where nm: "next_msg (lib_stream L) (lib_client L) (hs_messenger h) = (m, q)" by fastforce
  consider (addr) pa where "q = Ok (SendPrivateAddr pa)" | (finish) "q = Ok DoneSending"
    | (other) "q \<noteq> Ok DoneSending" "\<And>pa. q \<noteq> Ok (SendPrivateAddr pa)" by blast
  then show ?thesis
  proof cases
    case addr
    then show ?thesis using handle_message_addr [of L h m pa, OF _ assms] nm by simp
  next
    case finish
    obtain gs p where "set_client_done (lib_oneshot L) (hs_state h) room_id is_creator = (gs, p)" by fastforce
    then show ?thesis
      using handle_message_done [of L h m, OF _ _ assms] nm finish step_done by (metis r_into_rtranclp)
  next
    case other
    then show ?thesis using handle_message_other [OF nm _ _ assms] by simp
  qed
qed

lemma handle_message_await:
  assumes "handle_message L h room_id is_creator = (h', Ok (AwaitPeer rx))"
  shows "set_client_done (lib_oneshot L) (hs_state h) room_id is_creator = (hs_state h', Ok rx)"
proof -
  obtain m q where nm: "next_msg (lib_stream L) (lib_client L) (hs_messenger h) = (m, q)" by fastforce
  obtain gs p where d: "set_client_done (lib_oneshot L) (hs_state h) room_id is_creator = (gs, p)" by fastforce
  consider (addr) pa where "q = Ok (SendPrivateAddr pa)" | (finish) "q = Ok DoneSending"
    | (other) "q \<noteq> Ok DoneSending" "\<And>pa. q \<noteq> Ok (SendPrivateAddr pa)" by blast
  then show ?thesis
  proof cases
    case addr
    then show ?thesis using handle_message_addr [of L h m pa, OF _ assms] nm by simp
  next
    case finish
    then show ?thesis using handle_message_done [of L h m, OF _ d assms] nm d by simp
  next
    case other
    then show ?thesis using handle_message_other [OF nm _ _ assms] by simp
  qed
qed

lemma handle_peer_ready_state:
  "handle_peer_ready L h rx = Some (h', r) \<Longrightarrow> hs_state h' = hs_state h"
  by (auto simp: handle_peer_ready_def split: recv.splits prod.splits dest: arg_cong [of _ _ "\<lambda>x. hs_state (fst x)"])

text \<open>A server step as a run of the shared state.\<close>

lemma server_step_steps:
  assumes "server_step L v w"
  shows "(gs_step (lib_gen L) (lib_oneshot L))\<^sup>*\<^sup>* (sv_state v) (sv_state w)"
  using assms
proof cases
  case (sv_start i m h r)
  then show ?thesis using start_steps [OF sv_start(3)] by (simp add: view_def install_def)
next
  case (sv_message i m room_id is_creator h r)
  then show ?thesis using handle_message_steps [OF sv_message(3)] by (simp add: view_def install_def)
next
  case (sv_resume i m room_id is_creator rx h r)
  then show ?thesis using handle_peer_ready_state [OF sv_resume(3)] by (simp add: view_def install_def)
next
  case (sv_timeout room_id)
  then show ?thesis by (auto intro: step_room_timeout)
qed auto

text \<open>What the steps of the server do to the directory of addresses.\<close>

lemma handler_update_client_directory:
  "handler_update_client L h room_id is_creator addr pub = (h', r) \<Longrightarrow> directory (hs_state h') = directory (hs_state h) \<or>
     directory (hs_state h') = (directory (hs_state h))((room_id, is_creator, pub, family_of addr) \<mapsto> addr)"
proof -
  assume u: "handler_update_client L h room_id is_creator addr pub = (h', r)"
  obtain gs q where q: "update_client (hs_state h) room_id is_creator addr pub = (gs, q)" by fastforce
  then have "hs_state (fst (handler_update_client L h room_id is_creator addr pub)) = gs"
    by (cases q) (simp_all add: handler_update_client_def)
  with u have "hs_state h' = gs" by simp
  then show ?thesis using update_client_directory [OF q] by simp
qed

lemma handle_message_directory:
  assumes "handle_message L h room_id is_creator = (h', r)" and "directory (hs_state h') k \<noteq> directory (hs_state h) k"
  shows "gs_rooms (hs_state h') (fst k) = None \<or>
    (\<exists>pub a. k = (room_id, is_creator, pub, family_of a) \<and> directory (hs_state h') k = Some a \<and> reported_by L (hs_messenger h) pub a)"
proof -
  obtain m q where nm: "next_msg (lib_stream L) (lib_client L) (hs_messenger h) = (m, q)" by fastforce
  consider (addr) pa where "q = Ok (SendPrivateAddr pa)" | (finish) "q = Ok DoneSending"
    | (other) "q \<noteq> Ok DoneSending" "\<And>pa. q \<noteq> Ok (SendPrivateAddr pa)" by blast
  then show ?thesis
  proof cases
    case addr
    let ?h = "h\<lparr>hs_messenger := m\<rparr>"
    show ?thesis
    proof (cases "peer_addr (lib_stream L) m")
      case (Ok a)
      obtain h1 r1 where u1: "handler_update_client L ?h room_id is_creator a True = (h1, r1)" by fastforce
      have pub: "reported_by L (hs_messenger h) True a" and priv: "pa = Some b \<Longrightarrow> reported_by L (hs_messenger h) False b" for b
        using nm addr Ok by (auto simp: reported_by_def)
      have "h' = h1 \<or> (\<exists>b r2. pa = Some b \<and> handler_update_client L h1 room_id is_creator b False = (h', r2))"
        using assms(1) nm addr Ok u1 by (cases r1; cases pa) (auto simp: handle_message_def elim!: bind_st.elims)
      then show ?thesis
        using handler_update_client_directory [OF u1] handler_update_client_directory [of L h1 room_id is_creator _ False h']
          assms(2) pub priv by (fastforce split: if_splits)
    qed (use assms nm addr in \<open>auto simp: handle_message_def\<close>)
  next
    case finish
    obtain gs p where "set_client_done (lib_oneshot L) (hs_state h) room_id is_creator = (gs, p)" by fastforce
    then show ?thesis
      using handle_message_done [of L h m, OF _ _ assms(1)] nm finish set_client_done_directory assms(2) by metis
  next
    case other
    then show ?thesis using handle_message_other [OF nm _ _ assms(1)] assms(2) by simp
  qed
qed

lemma start_directory:
  assumes "start L h = Some (h', r)"
  shows "directory (hs_state h') = directory (hs_state h)"
proof -
  obtain m q where nm: "next_msg (lib_stream L) (lib_client L) (hs_messenger h) = (m, q)" by fastforce
  show ?thesis
  proof (cases "\<exists>room_id gs g. q = Ok CreateRoom \<and> create_room (lib_gen L) (hs_state h) (hs_rng h) = Some (room_id, gs, g)")
    case True
    then obtain room_id gs g where cr: "q = Ok CreateRoom" "create_room (lib_gen L) (hs_state h) (hs_rng h) = Some (room_id, gs, g)" by blast
    then have "hs_state h' = gs"
      using assms nm by (auto simp: start_def dest: arg_cong [of _ _ "\<lambda>x. hs_state (fst x)"])
    then show ?thesis using create_room_directory [OF cr(2)] by simp
  next
    case False
    with assms nm have "hs_state h' = hs_state (h\<lparr>hs_messenger := m\<rparr>)"
      by (auto simp: start_def Let_def split: res.splits client_message.splits if_splits option.splits
          dest: arg_cong [of _ _ "\<lambda>x. hs_state (fst x)"])
    then show ?thesis by simp
  qed
qed

lemma gs_reachable_steps: "(gs_step gen os)\<^sup>*\<^sup>* s t \<Longrightarrow> gs_reachable gen os s \<Longrightarrow> gs_reachable gen os t"
  by (induction rule: rtranclp_induct) (auto intro: gs_next)

lemma server_reachable_state: "server_reachable L v \<Longrightarrow> gs_reachable (lib_gen L) (lib_oneshot L) (sv_state v)"
  by (induction rule: server_reachable.induct)
    (auto simp: init_server_def intro: gs_init gs_reachable_steps [OF server_step_steps])

section \<open>No connection that waits can be served\<close>

lemma server_inv_step:
  assumes "exchange_channels (lib_oneshot L) used" and "gen_in_range (lib_gen L)"
    and "server_step L v w" and "server_inv L used v"
  shows "server_inv L used w"
proof -
  have inv: "gs_inv (sv_state v)" using assms(4) by (simp add: server_inv_def)
  note keep = exchange_channels.steps_keep_recv [OF assms(1) server_step_steps [OF assms(3)] inv assms(2)]
  have inv': "gs_inv (sv_state w)"
    using server_step_steps [OF assms(3)] inv
    by (induction rule: rtranclp_induct) (auto intro: gs_step_inv assms(2))
  have old: "rx \<in> used (gs_chans (sv_state w)) \<and> os_recv (lib_oneshot L) (gs_chans (sv_state w)) rx = RecvError"
    if "sv_conns v j = Some (m, Waiting room_id is_creator rx)" for j m room_id is_creator rx
    using assms(4) that keep [of rx] by (simp add: server_inv_def)
  have "rx \<in> used (gs_chans (sv_state w)) \<and> os_recv (lib_oneshot L) (gs_chans (sv_state w)) rx = RecvError"
    if wait: "sv_conns w j = Some (m, Waiting room_id is_creator rx)"
      and new: "sv_conns v j \<noteq> Some (m, Waiting room_id is_creator rx)" for j m room_id is_creator rx
    using assms(3)
  proof cases
    case (sv_start i m' h r)
    then show ?thesis
      using wait new by (cases r rule: started.cases) (auto simp: install_def split: if_splits)
  next
    case (sv_message i m' id c h r)
    then have "r = Ok (AwaitPeer rx)"
      using wait new by (cases "(id, c, r)" rule: continued.cases) (auto simp: install_def split: if_splits)
    then show ?thesis
      using handle_message_await [of L "view v m'" id c h rx] sv_message
        exchange_channels.done_receiver_failed [OF assms(1) inv]
      by (simp add: view_def install_def)
  next
    case (sv_resume i m' id c rx' h r)
    have "r \<noteq> Ok (AwaitPeer rx)"
      using sv_resume(3) by (auto simp: handle_peer_ready_def rust_simps split: recv.splits
          elim!: bind_st.elims)
    then show ?thesis
      using wait new sv_resume by (cases "(id, c, r)" rule: continued.cases) (auto simp: install_def split: if_splits)
  qed (use wait new in \<open>auto split: if_splits\<close>)
  then show ?thesis using inv' old unfolding server_inv_def by blast
qed

lemma server_reachable_inv:
  assumes "exchange_channels (lib_oneshot L) used" and "gen_in_range (lib_gen L)" and "server_reachable L v"
  shows "server_inv L used v"
  using assms(3)
proof (induction rule: server_reachable.induct)
  case (sv_init k g)
  then show ?case by (simp add: server_inv_def init_server_def)
next
  case (sv_next v w)
  then show ?case using server_inv_step [OF assms(1,2)] by blast
qed

section \<open>The protocol over a connection that delivers\<close>

locale server_env =
  cl: message_channel "lib_stream L" incoming sent "lib_client L" enc_c valid_c +
  sr: message_channel "lib_stream L" incoming sent "lib_server L" enc_s valid_s
  for L :: "('s, 'k, 'g) server_libs" and incoming sent enc_c valid_c enc_s valid_s
begin

lemma send_ok:
  assumes "length (enc_s msg) \<le> 64" and "length (ms_buf (hs_messenger h)) = 68"
  shows "\<exists>m. send L h msg = (h\<lparr>hs_messenger := m\<rparr>, Ok ()) \<and> length (ms_buf m) = 68 \<and>
    sent (ms_stream m) = sent (ms_stream (hs_messenger h)) @ frame (enc_s msg) \<and>
    incoming (ms_stream m) = incoming (ms_stream (hs_messenger h))"
  using sr.write_msg_sends [of msg "hs_messenger h"] assms by (auto simp: send_def)

lemma receive_ok:
  assumes "next_is incoming enc_c valid_c h msg rest" and "requests_fit enc_c"
  obtains m where "next_msg (lib_stream L) (lib_client L) (hs_messenger h) = (m, Ok msg)"
    and "length (ms_buf m) = 68" and "incoming (ms_stream m) = rest"
    and "sent (ms_stream m) = sent (ms_stream (hs_messenger h))"
    and "same_ends (lib_stream L) (ms_stream (hs_messenger h)) (ms_stream m)"
  using cl.next_msg_receives [of "hs_messenger h" msg rest] assms
  by (auto simp: next_is_def requests_fit_def)

text \<open>A reply after a message was received and the state possibly moved on.\<close>

lemma reply_ok:
  assumes "next_is incoming enc_c valid_c h msg rest" and "requests_fit enc_c"
    and "length (enc_s reply) \<le> 64"
  obtains m m' where "next_msg (lib_stream L) (lib_client L) (hs_messenger h) = (m, Ok msg)"
    and "\<And>gs g. send L (h\<lparr>hs_messenger := m, hs_state := gs, hs_rng := g\<rparr>) reply =
          (h\<lparr>hs_messenger := m', hs_state := gs, hs_rng := g\<rparr>, Ok ())"
    and "\<And>gs g. replied incoming sent h (h\<lparr>hs_messenger := m', hs_state := gs, hs_rng := g\<rparr>)
          (frame (enc_s reply)) rest gs"
proof -
  obtain m where m: "next_msg (lib_stream L) (lib_client L) (hs_messenger h) = (m, Ok msg)"
    "length (ms_buf m) = 68" "incoming (ms_stream m) = rest"
    "sent (ms_stream m) = sent (ms_stream (hs_messenger h))"
    using receive_ok [OF assms(1,2)] by metis
  obtain m' where m': "write_msg (lib_stream L) (lib_server L) m reply = (m', Ok ())"
    "length (ms_buf m') = 68" "sent (ms_stream m') = sent (ms_stream m) @ frame (enc_s reply)"
    "incoming (ms_stream m') = incoming (ms_stream m)"
    using sr.write_msg_sends [of reply m] assms(3) m(2) by auto
  show thesis
    using m m' by (intro that [of m m']) (simp_all add: send_def replied_def)
qed

lemma reply_ok_same_state:
  assumes "next_is incoming enc_c valid_c h msg rest" and "requests_fit enc_c"
    and "length (enc_s reply) \<le> 64"
  obtains m h' where "next_msg (lib_stream L) (lib_client L) (hs_messenger h) = (m, Ok msg)"
    and "send L (h\<lparr>hs_messenger := m\<rparr>) reply = (h', Ok ())"
    and "replied incoming sent h h' (frame (enc_s reply)) rest (hs_state h)"
proof -
  obtain m m' where m: "next_msg (lib_stream L) (lib_client L) (hs_messenger h) = (m, Ok msg)"
    and snt: "\<And>gs g. send L (h\<lparr>hs_messenger := m, hs_state := gs, hs_rng := g\<rparr>) reply =
          (h\<lparr>hs_messenger := m', hs_state := gs, hs_rng := g\<rparr>, Ok ())"
    and rep: "\<And>gs g. replied incoming sent h (h\<lparr>hs_messenger := m', hs_state := gs, hs_rng := g\<rparr>)
          (frame (enc_s reply)) rest gs"
    using reply_ok [OF assms] by blast
  have "h\<lparr>hs_messenger := x, hs_state := hs_state h, hs_rng := hs_rng h\<rparr> = h\<lparr>hs_messenger := x\<rparr>" for x
    by simp
  then show thesis
    using that [OF m, of "h\<lparr>hs_messenger := m'\<rparr>"] snt [where gs = "hs_state h" and g = "hs_rng h"] rep [where gs = "hs_state h" and g = "hs_rng h"]
    by simp
qed

lemma start_create:
  assumes "next_is incoming enc_c valid_c h CreateRoom rest" and "requests_fit enc_c" and "replies_fit enc_s"
    and "create_room (lib_gen L) (hs_state h) (hs_rng h) = Some (room_id, gs, g)"
  shows "\<exists>h'. start L h = Some (h', Ok (room_id, True)) \<and>
    replied incoming sent h h' (frame (enc_s (RoomCreated room_id))) rest gs"
proof -
  have "length (enc_s (RoomCreated room_id)) \<le> 64" using assms(3) by (simp add: replies_fit_def)
  then obtain m m' where "next_msg (lib_stream L) (lib_client L) (hs_messenger h) = (m, Ok CreateRoom)"
    and "\<And>gs g. send L (h\<lparr>hs_messenger := m, hs_state := gs, hs_rng := g\<rparr>) (RoomCreated room_id) =
          (h\<lparr>hs_messenger := m', hs_state := gs, hs_rng := g\<rparr>, Ok ())"
    and "\<And>gs g. replied incoming sent h (h\<lparr>hs_messenger := m', hs_state := gs, hs_rng := g\<rparr>)
          (frame (enc_s (RoomCreated room_id))) rest gs"
    using reply_ok [OF assms(1,2)] by blast
  with assms(4) show ?thesis by (simp add: start_def)
qed

lemma start_join:
  assumes "next_is incoming enc_c valid_c h (JoinRoom room_id) rest" and "requests_fit enc_c" and "replies_fit enc_s"
  shows "\<exists>h'. start L h = Some (h', if room_exists (hs_state h) room_id then Ok (room_id, False) else Err SrvNoSuchRoomId) \<and>
    replied incoming sent h h'
      (frame (enc_s (if room_exists (hs_state h) room_id then RoomJoined else ErrorNoSuchRoomID))) rest (hs_state h)"
proof -
  let ?reply = "if room_exists (hs_state h) room_id then RoomJoined else ErrorNoSuchRoomID"
  have "length (enc_s ?reply) \<le> 64" using assms(3) by (simp add: replies_fit_def)
  then obtain m h' where "next_msg (lib_stream L) (lib_client L) (hs_messenger h) = (m, Ok (JoinRoom room_id))"
    and "send L (h\<lparr>hs_messenger := m\<rparr>) ?reply = (h', Ok ())"
    and "replied incoming sent h h' (frame (enc_s ?reply)) rest (hs_state h)"
    using reply_ok_same_state [OF assms(1,2)] by blast
  then show ?thesis
    by (cases "room_exists (hs_state h) room_id") (auto simp: start_def send_no_such_room_def)
qed

lemma handler_update_ok:
  assumes "room_exists (hs_state h) room_id"
  obtains gs where "handler_update_client L h room_id is_creator addr pub = (h\<lparr>hs_state := gs\<rparr>, Ok ())"
    and "directory gs = (directory (hs_state h))((room_id, is_creator, pub, family_of addr) \<mapsto> addr)"
    and "room_exists gs room_id"
  using update_client_ok [OF assms, of is_creator addr pub] assms room_exists_dom
  by (fastforce simp: handler_update_client_def)

lemma handle_send_addr:
  assumes "next_is incoming enc_c valid_c h (SendPrivateAddr pa) rest" and "requests_fit enc_c"
    and "st_peer_addr (lib_stream L) (ms_stream (hs_messenger h)) = Ok addr"
    and "room_exists (hs_state h) room_id"
  shows "\<exists>h'. handle_message L h room_id is_creator = (h', Ok Handled) \<and>
    replied incoming sent h h' [] rest (hs_state h') \<and>
    directory (hs_state h') =
      (let d = (directory (hs_state h))((room_id, is_creator, True, family_of addr) \<mapsto> addr)
       in case pa of None \<Rightarrow> d | Some a \<Rightarrow> d((room_id, is_creator, False, family_of a) \<mapsto> a))"
proof -
  obtain m where m: "next_msg (lib_stream L) (lib_client L) (hs_messenger h) = (m, Ok (SendPrivateAddr pa))"
    "length (ms_buf m) = 68" "incoming (ms_stream m) = rest" "sent (ms_stream m) = sent (ms_stream (hs_messenger h))"
    "peer_addr (lib_stream L) m = Ok addr"
    using receive_ok [OF assms(1,2)] assms(3) unfolding same_ends_def peer_addr_def by metis
  let ?h = "h\<lparr>hs_messenger := m\<rparr>"
  obtain gs where gs: "handler_update_client L ?h room_id is_creator addr True = (?h\<lparr>hs_state := gs\<rparr>, Ok ())"
    "directory gs = (directory (hs_state h))((room_id, is_creator, True, family_of addr) \<mapsto> addr)" "room_exists gs room_id"
    using handler_update_ok [of ?h room_id is_creator addr True] assms(4) by auto
  show ?thesis
  proof (cases pa)
    case None
    then show ?thesis using m gs by (simp add: handle_message_def replied_def)
  next
    case (Some a)
    obtain gs' where "handler_update_client L (?h\<lparr>hs_state := gs\<rparr>) room_id is_creator a False = (?h\<lparr>hs_state := gs'\<rparr>, Ok ())"
      "directory gs' = (directory gs)((room_id, is_creator, False, family_of a) \<mapsto> a)"
      using handler_update_ok [of "?h\<lparr>hs_state := gs\<rparr>" room_id is_creator a False] gs(3) by auto
    then show ?thesis using Some m gs by (simp add: handle_message_def replied_def)
  qed
qed

lemma handle_send_addr_missing:
  assumes "next_is incoming enc_c valid_c h (SendPrivateAddr pa) rest" and "requests_fit enc_c" and "replies_fit enc_s"
    and "st_peer_addr (lib_stream L) (ms_stream (hs_messenger h)) = Ok addr"
    and "\<not> room_exists (hs_state h) room_id"
  shows "\<exists>h'. handle_message L h room_id is_creator = (h', Err SrvNoSuchRoomId) \<and>
    replied incoming sent h h' (frame (enc_s ErrorNoSuchRoomID)) rest (hs_state h)"
proof -
  have "length (enc_s ErrorNoSuchRoomID) \<le> 64" using assms(3) by (simp add: replies_fit_def)
  then obtain m h' where m: "next_msg (lib_stream L) (lib_client L) (hs_messenger h) = (m, Ok (SendPrivateAddr pa))"
    and "send L (h\<lparr>hs_messenger := m\<rparr>) ErrorNoSuchRoomID = (h', Ok ())"
    and "replied incoming sent h h' (frame (enc_s ErrorNoSuchRoomID)) rest (hs_state h)"
    using reply_ok_same_state [OF assms(1,2)] by blast
  moreover have "peer_addr (lib_stream L) m = Ok addr"
    using receive_ok [OF assms(1,2)] assms(4) m unfolding same_ends_def peer_addr_def by (metis prod.inject)
  ultimately show ?thesis
    using assms(5)
    by (simp add: handle_message_def handler_update_client_def send_no_such_room_def update_client_missing)
qed

lemma reject_with_syntax_error:
  assumes "next_is incoming enc_c valid_c h msg rest" and "requests_fit enc_c" and "replies_fit enc_s"
  obtains m h' where "next_msg (lib_stream L) (lib_client L) (hs_messenger h) = (m, Ok msg)"
    and "send L (h\<lparr>hs_messenger := m\<rparr>) SyntaxError = (h', Ok ())"
    and "replied incoming sent h h' (frame (enc_s SyntaxError)) rest (hs_state h)"
proof -
  have "length (enc_s SyntaxError) \<le> 64" using assms(3) by (simp add: replies_fit_def)
  from reply_ok_same_state [OF assms(1,2) this] that show thesis by blast
qed

end

lemma pipe_libs_simps [simp]:
  "lib_stream pipe_libs = pipe_stream" "lib_client pipe_libs = client_codec"
  "lib_server pipe_libs = server_codec" "lib_oneshot pipe_libs = chan_list" "lib_gen pipe_libs = counting_gen"
  by (simp_all add: pipe_libs_def)

interpretation pipe_env: server_env pipe_libs pi_in pi_out
  enc_client_message valid_client_message enc_server_message valid_server_message
  by (simp add: server_env_def client_pipe.message_channel_axioms server_pipe.message_channel_axioms)

section \<open>Properties\<close>

text \<open>
  C7: whatever the interleaving of connections and timers, a connection that reported it is
  done and waits for its peer can only be woken with \<open>RoomTimedOut\<close>: it sends its client
  nothing and closes, also when the peer is done too.
\<close>

theorem waiting_client_always_times_out:
  assumes "exchange_channels (lib_oneshot L) used" and "gen_in_range (lib_gen L)"
    and "server_reachable L v" and "sv_conns v i = Some (m, Waiting room_id is_creator rx)"
  shows "handle_peer_ready L (view v m) rx = Some (view v m, Err RoomTimedOut) \<and>
    server_step L v (install v i (view v m) (Closed (Err RoomTimedOut)))"
proof -
  have "os_recv (lib_oneshot L) (gs_chans (sv_state v)) rx = RecvError"
    using server_reachable_inv [OF assms(1-3)] assms(4) by (simp add: server_inv_def)
  then have "handle_peer_ready L (view v m) rx = Some (view v m, Err RoomTimedOut)"
    by (simp add: handle_peer_ready_def view_def)
  then show ?thesis using sv_resume [OF assms(4)] by fastforce
qed

text \<open>
  C14: who writes the addresses of a client. When a step of the server, on any connection, changes
  an entry of the directory, the room of the entry is gone, or the step is a connection in that
  room and of that side that reads \<open>SendPrivateAddr\<close>: a public entry becomes the peer address of
  this connection, a private one the address in its message, each in the slot of its family.
\<close>

theorem entries_reported_by_client:
  assumes "server_step L v w"
    and "directory (sv_state w) (room_id, is_creator, pub, fam) \<noteq> directory (sv_state v) (room_id, is_creator, pub, fam)"
  shows "\<not> room_exists (sv_state w) room_id \<or>
    (\<exists>i m m' pa a. sv_conns v i = Some (m, Running room_id is_creator) \<and>
       next_msg (lib_stream L) (lib_client L) m = (m', Ok (SendPrivateAddr pa)) \<and>
       (if pub then peer_addr (lib_stream L) m' = Ok a else pa = Some a) \<and>
       directory (sv_state w) (room_id, is_creator, pub, fam) = Some a \<and> family_of a = fam)"
  using assms(1)
proof cases
  case (sv_message i m r c h q)
  then show ?thesis
    using assms(2) handle_message_directory [OF sv_message(3), of "(room_id, is_creator, pub, fam)"]
    by (fastforce simp: install_def view_def room_exists_def reported_by_def)
next
  case (sv_start i m h r)
  then show ?thesis using assms(2) start_directory [OF sv_start(3)] by (simp add: install_def view_def)
next
  case (sv_resume i m r c rx h q)
  then show ?thesis using assms(2) handle_peer_ready_state [OF sv_resume(3)] by (simp add: install_def view_def)
next
  case (sv_timeout r)
  then show ?thesis using assms(2) by (auto simp: room_timeout_fires_def room_exists_def directory_def split: if_splits)
qed (use assms(2) in auto)

text \<open>
  C15: an address report writes the peer address seen on the connection as the public address
  and the reported one, if any, as the private address, each in the slot of its family, and
  sends nothing; on a room that is gone it replies \<open>ErrorNoSuchRoomID\<close> and ends.
\<close>

theorem address_report_recorded:
  assumes "server_env L incoming sent enc_c valid_c enc_s valid_s"
    and "requests_fit enc_c" and "replies_fit enc_s"
    and "next_is incoming enc_c valid_c h (SendPrivateAddr pa) rest"
    and "st_peer_addr (lib_stream L) (ms_stream (hs_messenger h)) = Ok addr"
  shows "if room_exists (hs_state h) room_id
    then \<exists>h'. handle_message L h room_id is_creator = (h', Ok Handled) \<and>
      replied incoming sent h h' [] rest (hs_state h') \<and>
      directory (hs_state h') =
        (let d = (directory (hs_state h))((room_id, is_creator, True, family_of addr) \<mapsto> addr)
         in case pa of None \<Rightarrow> d | Some a \<Rightarrow> d((room_id, is_creator, False, family_of a) \<mapsto> a))
    else \<exists>h'. handle_message L h room_id is_creator = (h', Err SrvNoSuchRoomId) \<and>
      replied incoming sent h h' (frame (enc_s ErrorNoSuchRoomID)) rest (hs_state h)"
  using server_env.handle_send_addr [OF assms(1,4,2,5), of room_id is_creator]
    server_env.handle_send_addr_missing [OF assms(1,4,2,3,5), of room_id is_creator]
  by presburger

section \<open>Concrete instances\<close>

lemma length_varint: "n < 128 ^ k \<Longrightarrow> length (varint n) \<le> max 1 k"
proof (induction k arbitrary: n)
  case 0
  then show ?case by (simp add: varint.simps)
next
  case (Suc k)
  show ?case
  proof (cases "n < 128")
    case True
    then show ?thesis by (simp add: varint.simps)
  next
    case False
    then have "k \<noteq> 0" using Suc.prems by (cases k) auto
    moreover have "n div 128 < 128 ^ k" using Suc.prems by (simp add: less_mult_imp_div_less mult.commute)
    ultimately show ?thesis using Suc.IH [of "n div 128"] False by (simp add: varint.simps [of n])
  qed
qed

lemma length_varint_u16: "length (varint (unat (w :: u16))) \<le> 3"
  using length_varint [of "unat w" 3] unsigned_less [of w, where 'a = nat] by simp

lemma length_varint_u32: "length (varint (unat (w :: u32))) \<le> 5"
  using length_varint [of "unat w" 5] unat_less_u32 [of w] by simp

lemma length_enc_addr: "length (enc_addr a) \<le> 20"
proof (cases a)
  case (V4 x)
  then show ?thesis using length_varint_u16 [of "v4_port x"] by (simp add: enc_v4_def)
next
  case (V6 x)
  then show ?thesis using length_varint_u16 [of "v6_port x"] by (simp add: enc_v6_def)
qed

lemma client_requests_fit: "requests_fit enc_client_message"
proof -
  have "length (enc_client_message msg) \<le> 68" for msg
  proof (cases msg)
    case (JoinRoom r)
    then show ?thesis using length_varint_u32 [of r] by simp
  next
    case (SendPrivateAddr a)
    then show ?thesis using length_enc_addr [of "the a"] by (cases a) auto
  qed auto
  then show ?thesis by (simp add: requests_fit_def)
qed

lemma server_replies_fit: "replies_fit enc_server_message"
proof -
  have "length (varint (unat r)) \<le> 63" for r :: u32 using length_varint_u32 [of r] by simp
  then show ?thesis by (simp add: replies_fit_def)
qed

lemmas pipe_setup = pipe_env.server_env_axioms client_requests_fit server_replies_fit

lemma pipe_next_is:
  "valid_client_message msg \<Longrightarrow>
   next_is pi_in enc_client_message valid_client_message (pipe_handler gs (frame (enc_client_message msg))) msg []"
  by (simp add: next_is_def pipe_handler_def server_messenger_def with_capacity_def idle_pipe_def)

text \<open>A server whose first client created a room and reported that it is done.\<close>

lemma pipe_server_waiting:
  "\<exists>v m rx. server_reachable pipe_libs v \<and> sv_conns v 0 = Some (m, Waiting 0 True rx)"
proof -
  let ?done = "frame (enc_client_message DoneSending)"
  let ?s = "idle_pipe (frame (enc_client_message CreateRoom) @ ?done)"
  let ?v0 = "init_server [] 0 :: (pipe, exchange recv list, nat) server"
  let ?v1 = "?v0\<lparr>sv_conns := (sv_conns ?v0)(0 \<mapsto> (server_messenger ?s, Starting))\<rparr>"
  let ?h = "view ?v1 (server_messenger ?s)"
  have r1: "server_reachable pipe_libs ?v1"
    by (rule sv_next [OF sv_init sv_accept]) (simp add: init_server_def)
  have c1: "sv_conns ?v1 0 = Some (server_messenger ?s, Starting)" by simp
  have "next_is pi_in enc_client_message valid_client_message ?h CreateRoom ?done"
    by (simp add: next_is_def view_def server_messenger_def with_capacity_def idle_pipe_def)
  then obtain h1 where h1: "start pipe_libs ?h = Some (h1, Ok (0, True))"
    and rep: "replied pi_in pi_out ?h h1 (frame (enc_server_message (RoomCreated 0))) ?done one_room"
    using pipe_env.start_create [OF _ client_requests_fit server_replies_fit, of ?h ?done 0 one_room 1]
    by (auto simp: view_def init_server_def create_one_room)
  define v2 where "v2 = install ?v1 0 h1 (started (Ok (0, True)))"
  have reach: "server_reachable pipe_libs v2"
    unfolding v2_def by (rule sv_next [OF r1 sv_start [OF c1 h1]])
  have conn: "sv_conns v2 0 = Some (hs_messenger h1, Running 0 True)"
    by (simp add: v2_def install_def)
  have ni: "next_is pi_in enc_client_message valid_client_message (view v2 (hs_messenger h1)) DoneSending []"
    using rep by (simp add: next_is_def replied_def view_def)
  obtain m where "next_msg (lib_stream pipe_libs) (lib_client pipe_libs) (hs_messenger (view v2 (hs_messenger h1))) =
      (m, Ok DoneSending)"
    using pipe_env.receive_ok [OF ni client_requests_fit] by blast
  then have "next_msg pipe_stream client_codec (hs_messenger h1) = (m, Ok DoneSending)"
    by (simp add: view_def)
  moreover have "sv_state v2 = one_room" using rep by (simp add: v2_def install_def replied_def)
  moreover obtain gs rx where "set_client_done chan_list one_room 0 True = (gs, Ok rx)"
    using chan_list.done_gets_error [OF gs_reachable_inv [OF one_room_reachable counting_gen_in_range]
        counting_gen_in_range, of 0 default_room True]
    by (auto simp: one_room_def)
  ultimately have "\<exists>h. handle_message pipe_libs (view v2 (hs_messenger h1)) 0 True = (h, Ok (AwaitPeer rx))"
    by (simp add: handle_message_def view_def)
  then obtain h where "handle_message pipe_libs (view v2 (hs_messenger h1)) 0 True = (h, Ok (AwaitPeer rx))" ..
  from sv_next [OF reach sv_message [OF conn this]] show ?thesis
    by (fastforce simp: install_def)
qed

theorem waiting_client_always_times_out_witness:
  "\<exists>v m rx. sv_conns v 0 = Some (m, Waiting 0 True rx) \<and>
    handle_peer_ready pipe_libs (view v m) rx = Some (view v m, Err RoomTimedOut) \<and>
    server_step pipe_libs v (install v 0 (view v m) (Closed (Err RoomTimedOut)))"
proof -
  obtain v m rx where v: "server_reachable pipe_libs v" "sv_conns v 0 = Some (m, Waiting 0 True rx)"
    using pipe_server_waiting by blast
  have "exchange_channels (lib_oneshot pipe_libs) (\<lambda>k. {..<length k})"
    using chan_list.exchange_channels_axioms by simp
  moreover have "gen_in_range (lib_gen pipe_libs)" using counting_gen_in_range by simp
  ultimately show ?thesis using waiting_client_always_times_out v by blast
qed

theorem entries_reported_by_client_witness:
  "\<exists>v w i m m' pa a. server_step pipe_libs v w \<and> sv_conns v i = Some (m, Running 0 True) \<and>
    next_msg pipe_stream client_codec m = (m', Ok (SendPrivateAddr pa)) \<and> peer_addr pipe_stream m' = Ok a \<and>
    directory (sv_state w) (0, True, True, FamV4) = Some a \<and> family_of a = FamV4"
proof -
  let ?h = "pipe_handler one_room (frame (enc_client_message (SendPrivateAddr None)))"
  let ?v = "\<lparr>sv_state = one_room, sv_rng = (0 :: nat), sv_conns = [0 \<mapsto> (hs_messenger ?h, Running 0 True)]\<rparr>"
  let ?a = "V4 \<lparr>v4_ip = 2, v4_port = 2\<rparr>"
  have "next_is pi_in enc_client_message valid_client_message ?h (SendPrivateAddr None) []" by (rule pipe_next_is) simp
  moreover have "st_peer_addr pipe_stream (ms_stream (hs_messenger ?h)) = Ok ?a" "room_exists (hs_state ?h) 0"
    by (simp_all add: pipe_handler_def server_messenger_def with_capacity_def idle_pipe_def pipe_stream_def one_room_exists)
  ultimately obtain h' where h': "handle_message pipe_libs ?h 0 True = (h', Ok Handled)"
    "directory (hs_state h') = (directory one_room)((0, True, True, FamV4) \<mapsto> ?a)"
    using pipe_env.handle_send_addr [OF _ client_requests_fit, of ?h None "[]" ?a 0 True]
    by (auto simp: pipe_handler_def)
  define w where "w = install ?v 0 h' (continued 0 True (Ok Handled))"
  have "view ?v (hs_messenger ?h) = ?h" by (simp add: view_def pipe_handler_def)
  with h'(1) have step: "server_step pipe_libs ?v w"
    unfolding w_def by (intro sv_message [where m = "hs_messenger ?h"]) simp_all
  have new: "directory (sv_state w) (0, True, True, FamV4) = Some ?a" using h'(2) by (simp add: w_def install_def)
  have old: "directory (sv_state ?v) (0, True, True, FamV4) = None"
    by (simp add: directory_def one_room_def default_room_def default_client_def get_client_def default_full_contact_def default_contact_def)
  have "room_exists (sv_state w) 0" using new by (auto simp: room_exists_def directory_def split: option.splits)
  moreover have "directory (sv_state w) (0, True, True, FamV4) \<noteq> directory (sv_state ?v) (0, True, True, FamV4)"
    unfolding new old by simp
  ultimately obtain i m m' pa a where "sv_conns ?v i = Some (m, Running 0 True)"
    "next_msg pipe_stream client_codec m = (m', Ok (SendPrivateAddr pa))" "peer_addr pipe_stream m' = Ok a"
    "directory (sv_state w) (0, True, True, FamV4) = Some a" "family_of a = FamV4"
    using entries_reported_by_client [OF step, of 0 True True FamV4] unfolding pipe_libs_simps if_True by blast
  with step show ?thesis by blast
qed

theorem address_report_recorded_witness:
  "\<exists>h'. handle_message pipe_libs (pipe_handler one_room (frame (enc_client_message (SendPrivateAddr None)))) 0 True = (h', Ok Handled)"
  using address_report_recorded [OF pipe_setup pipe_next_is [of "SendPrivateAddr None" one_room], of
      "V4 \<lparr>v4_ip = 2, v4_port = 2\<rparr>" 0 True]
  by (auto simp: pipe_handler_def server_messenger_def with_capacity_def idle_pipe_def pipe_stream_def one_room_exists)

end
