(* ===== verification/Contact_Sharer.thy ===== *)
theory Contact_Sharer
  imports Connection_Handler
begin

text \<open>
  The client side of the hole-punching protocol: \<open>ServerConnection\<close>
  (\<^verbatim>\<open>client/contact_sharer/server_connection.rs\<close>) and \<open>ContactSharer\<close>
  (\<^verbatim>\<open>client/contact_sharer.rs\<close>), with the errors of \<^verbatim>\<open>client.rs\<close>. A client has a TLS stream to the
  server over IPv6, over IPv4, or both. It asks for a room on one of them and reports its private
  address on each.

  A mutable reference to a messenger is modelled by the call that is made through it.
\<close>

section \<open>Errors and data\<close>

datatype spake_error = BadSide | WrongLength | CorruptMessage

datatype client_error =
  NoAddressProvided | ExpectedIPv6 | ExpectedIPv4 | CliSerialization serialization_error | CliIO io_error
  | Cryptographical | InvalidServerReply | PeerConnectFailed | SpakeFailed spake_error
  | PeerAuthenticationFailed | CliRustls | InvalidUtf8

record 's server_connection =
  sc_v6 :: "'s messenger option"
  sc_v4 :: "'s messenger option"

record 's contact_sharer =
  sh_is_creator :: bool
  sh_connection :: "'s server_connection"

record peer_connector =
  pn_local :: full_contact
  pn_peer :: full_contact
  pn_is_creator :: bool

section \<open>The connection to the server\<close>

text \<open>The two socket options are set as far as the system allows; failures are ignored.\<close>

definition configure_stream :: "'s \<Rightarrow> 's messenger" where
  "configure_stream stream = with_capacity stream 68"

definition server_connection_new ::
  "'s byte_stream \<Rightarrow> 's option \<Rightarrow> 's option \<Rightarrow> (client_error, 's server_connection) res" where
  "server_connection_new S server_addr_v6 server_addr_v4 =
     (if server_addr_v6 = None \<and> server_addr_v4 = None then Err NoAddressProvided
      else
        let this = \<lparr>sc_v6 = None, sc_v4 = None\<rparr>
        in bind_res
             (case server_addr_v6 of
                None \<Rightarrow> Ok this
              | Some stream \<Rightarrow>
                  bind_res (map_err CliIO (st_local_addr S stream)) (\<lambda>a.
                    if family_of a \<noteq> FamV6 then Err ExpectedIPv6
                    else Ok (this\<lparr>sc_v6 := Some (configure_stream stream)\<rparr>)))
             (\<lambda>this.
                case server_addr_v4 of
                  None \<Rightarrow> Ok this
                | Some stream \<Rightarrow>
                    bind_res (map_err CliIO (st_local_addr S stream)) (\<lambda>a.
                      if family_of a \<noteq> FamV4 then Err ExpectedIPv4
                      else Ok (this\<lparr>sc_v4 := Some (configure_stream stream)\<rparr>))))"

definition get_any_messenger ::
  "'s server_connection \<Rightarrow> ('s messenger \<Rightarrow> 's messenger \<times> ('e, 'a) res) \<Rightarrow> 's server_connection \<times> ('e, 'a) res" where
  "get_any_messenger c call =
     (case sc_v6 c of
        Some m \<Rightarrow> (case call m of (m, r) \<Rightarrow> (c\<lparr>sc_v6 := Some m\<rparr>, r))
      | None \<Rightarrow>
          (case sc_v4 c of
             Some m \<Rightarrow> (case call m of (m, r) \<Rightarrow> (c\<lparr>sc_v4 := Some m\<rparr>, r))
           | None \<Rightarrow> (c, Panic UnreachableCode)))"

definition get_all_messengers :: "'s server_connection \<Rightarrow> 's messenger list" where
  "get_all_messengers c =
     (case sc_v6 c of None \<Rightarrow> [] | Some m \<Rightarrow> [m]) @ (case sc_v4 c of None \<Rightarrow> [] | Some m \<Rightarrow> [m])"

definition local_addr_v6 :: "'s byte_stream \<Rightarrow> 's server_connection \<Rightarrow> (io_error, socket_addr_v6 option) res" where
  "local_addr_v6 S c =
     (case sc_v6 c of
        None \<Rightarrow> Ok None
      | Some stream \<Rightarrow>
          bind_res (local_addr S stream) (\<lambda>a. case a of V6 v6 \<Rightarrow> Ok (Some v6) | V4 _ \<Rightarrow> Panic UnreachableCode))"

definition local_addr_v4 :: "'s byte_stream \<Rightarrow> 's server_connection \<Rightarrow> (io_error, socket_addr_v4 option) res" where
  "local_addr_v4 S c =
     (case sc_v4 c of
        None \<Rightarrow> Ok None
      | Some stream \<Rightarrow>
          bind_res (local_addr S stream) (\<lambda>a. case a of V4 v4 \<Rightarrow> Ok (Some v4) | V6 _ \<Rightarrow> Panic UnreachableCode))"

definition get_local_contact :: "'s byte_stream \<Rightarrow> 's server_connection \<Rightarrow> (io_error, contact) res" where
  "get_local_contact S c =
     bind_res (local_addr_v6 S c) (\<lambda>v6. bind_res (local_addr_v4 S c) (\<lambda>v4. Ok \<lparr>ct_v6 = v6, ct_v4 = v4\<rparr>))"

section \<open>The contact sharer\<close>

text \<open>A request and the reply to it.\<close>

definition ask ::
  "'s byte_stream \<Rightarrow> client_message codec \<Rightarrow> server_message codec \<Rightarrow> client_message \<Rightarrow> 's messenger
   \<Rightarrow> 's messenger \<times> (serialization_error, server_message) res" where
  "ask S CC SC msg m = bind_st (write_msg S CC m msg) (\<lambda>m _. next_msg S SC m)"

definition sharer_create_room ::
  "'s byte_stream \<Rightarrow> client_message codec \<Rightarrow> server_message codec \<Rightarrow> 's option \<Rightarrow> 's option
   \<Rightarrow> (client_error, 's contact_sharer \<times> u32) res" where
  "sharer_create_room S CC SC server_stream_v6 server_stream_v4 =
     bind_res (server_connection_new S server_stream_v6 server_stream_v4) (\<lambda>connection.
       case get_any_messenger connection (ask S CC SC CreateRoom) of (connection, r) \<Rightarrow>
       bind_res (map_err CliSerialization r) (\<lambda>response.
         case response of
           RoomCreated room_id \<Rightarrow> Ok (\<lparr>sh_is_creator = True, sh_connection = connection\<rparr>, room_id)
         | _ \<Rightarrow> Err InvalidServerReply))"

definition sharer_join_room ::
  "'s byte_stream \<Rightarrow> client_message codec \<Rightarrow> server_message codec \<Rightarrow> 's option \<Rightarrow> 's option \<Rightarrow> u32
   \<Rightarrow> (client_error, 's contact_sharer) res" where
  "sharer_join_room S CC SC server_stream_v6 server_stream_v4 room_id =
     bind_res (server_connection_new S server_stream_v6 server_stream_v4) (\<lambda>connection.
       case get_any_messenger connection (ask S CC SC (JoinRoom room_id)) of (connection, r) \<Rightarrow>
       bind_res (map_err CliSerialization r) (\<lambda>response.
         if response = RoomJoined then Ok \<lparr>sh_is_creator = False, sh_connection = connection\<rparr>
         else Err InvalidServerReply))"

text \<open>The loop over the connections; \<open>done\<close> are those that were written to.\<close>

fun send_private_addrs ::
  "'s byte_stream \<Rightarrow> client_message codec \<Rightarrow> 's messenger list \<Rightarrow> 's messenger list
   \<Rightarrow> 's messenger list \<times> (client_error, unit) res" where
  "send_private_addrs S CC done [] = (done, Ok ())"
| "send_private_addrs S CC done (conn # conns) =
     bind_st (done @ conn # conns, map_err CliIO (local_addr S conn)) (\<lambda>_ a.
       case write_msg S CC conn (SendPrivateAddr (Some a)) of (conn, r) \<Rightarrow>
       bind_st (done @ conn # conns, map_err CliSerialization r) (\<lambda>_ _.
         send_private_addrs S CC (done @ [conn]) conns))"

definition get_peer_connector ::
  "'s byte_stream \<Rightarrow> client_message codec \<Rightarrow> server_message codec \<Rightarrow> 's contact_sharer
   \<Rightarrow> 's messenger list \<times> (client_error, peer_connector) res" where
  "get_peer_connector S CC SC sharer =
     bind_st (send_private_addrs S CC [] (get_all_messengers (sh_connection sharer))) (\<lambda>conns _.
       case conns of
         [] \<Rightarrow> (conns, Panic OutOfBounds)
       | conn # others \<Rightarrow>
           (case ask S CC SC DoneSending conn of (conn, r) \<Rightarrow>
            bind_st (conn # others, map_err CliSerialization r) (\<lambda>conns response.
              case response of
                SharePeerContacts client_contact peer_contact \<Rightarrow>
                  (conns, Ok \<lparr>pn_local = client_contact, pn_peer = peer_contact, pn_is_creator = sh_is_creator sharer\<rparr>)
              | _ \<Rightarrow> (conns, Err InvalidServerReply))))"

section \<open>What a connection is\<close>

text \<open>
  A connection in order: at least one messenger, each with the buffer of 68 bytes and on a
  stream of its family.
\<close>

definition conn_inv :: "'s byte_stream \<Rightarrow> 's server_connection \<Rightarrow> bool" where
  "conn_inv S c \<longleftrightarrow> (sc_v6 c \<noteq> None \<or> sc_v4 c \<noteq> None) \<and>
     (\<forall>m. sc_v6 c = Some m \<longrightarrow> length (ms_buf m) = 68 \<and> (\<exists>a. local_addr S m = Ok (V6 a))) \<and>
     (\<forall>m. sc_v4 c = Some m \<longrightarrow> length (ms_buf m) = 68 \<and> (\<exists>a. local_addr S m = Ok (V4 a)))"

text \<open>The stream requests go to: IPv6 if there is one.\<close>

definition first_stream :: "'s option \<Rightarrow> 's option \<Rightarrow> 's" where
  "first_stream v6 v4 = (case v6 of Some s \<Rightarrow> s | None \<Rightarrow> the v4)"

definition streams_ok :: "'s byte_stream \<Rightarrow> 's option \<Rightarrow> 's option \<Rightarrow> bool" where
  "streams_ok S v6 v4 \<longleftrightarrow> (v6 \<noteq> None \<or> v4 \<noteq> None) \<and>
     (\<forall>s. v6 = Some s \<longrightarrow> (\<exists>a. st_local_addr S s = Ok (V6 a))) \<and>
     (\<forall>s. v4 = Some s \<longrightarrow> (\<exists>a. st_local_addr S s = Ok (V4 a)))"

definition opened :: "'s option \<Rightarrow> 's option \<Rightarrow> 's server_connection" where
  "opened v6 v4 = \<lparr>sc_v6 = map_option configure_stream v6, sc_v4 = map_option configure_stream v4\<rparr>"

text \<open>
  A connection on which a request was made: the first stream carried it, the other one, if
  there is one, is as it was opened.
\<close>

definition asked :: "'s byte_stream \<Rightarrow> ('s \<Rightarrow> u8 list) \<Rightarrow> 's option \<Rightarrow> 's option \<Rightarrow> u8 list \<Rightarrow> 's server_connection \<Rightarrow> bool" where
  "asked S sent v6 v4 request c \<longleftrightarrow> conn_inv S c \<and>
     (\<exists>m. get_all_messengers c = m # (if v6 = None then [] else map configure_stream (case v4 of None \<Rightarrow> [] | Some s \<Rightarrow> [s])) \<and>
        sent (ms_stream m) = sent (first_stream v6 v4) @ request)"

text \<open>Every request fits the messenger's buffer behind the length.\<close>

definition requests_writable :: "(client_message \<Rightarrow> u8 list) \<Rightarrow> bool" where
  "requests_writable enc_c \<longleftrightarrow> (\<forall>msg. length (enc_c msg) \<le> 64)"

text \<open>A messenger after its private address \<open>a\<close> was reported over it.\<close>

definition reported ::
  "('s \<Rightarrow> u8 list) \<Rightarrow> ('s \<Rightarrow> u8 list) \<Rightarrow> (client_message \<Rightarrow> u8 list) \<Rightarrow> socket_addr \<Rightarrow> 's messenger \<Rightarrow> 's messenger \<Rightarrow> bool" where
  "reported incoming sent enc_c a m m' \<longleftrightarrow> length (ms_buf m') = 68 \<and> incoming (ms_stream m') = incoming (ms_stream m) \<and>
     sent (ms_stream m') = sent (ms_stream m) @ frame (enc_c (SendPrivateAddr (Some a)))"

lemma family_of_V6 [simp]: "family_of a = FamV6 \<longleftrightarrow> (\<exists>b. a = V6 b)" "family_of a = FamV4 \<longleftrightarrow> (\<exists>b. a = V4 b)"
  by (cases a; simp)+

lemma server_connection_new_opened:
  "streams_ok S v6 v4 \<Longrightarrow> server_connection_new S v6 v4 = Ok (opened v6 v4)"
  by (cases v6; cases v4) (auto simp: server_connection_new_def streams_ok_def opened_def)

lemma server_connection_new_Ok:
  "server_connection_new S v6 v4 = Ok c \<Longrightarrow> streams_ok S v6 v4 \<and> c = opened v6 v4"
  by (cases v6; cases v4)
    (auto simp: server_connection_new_def streams_ok_def opened_def rust_simps Let_def
      elim!: map_err.elims split: if_splits)

lemma opened_inv: "streams_ok S v6 v4 \<Longrightarrow> conn_inv S (opened v6 v4)"
  by (auto simp: streams_ok_def opened_def conn_inv_def configure_stream_def with_capacity_def local_addr_def)

lemma get_local_contact_ok:
  assumes "conn_inv S c"
  shows "\<exists>k. get_local_contact S c = Ok k \<and> (ct_v6 k = None \<longleftrightarrow> sc_v6 c = None) \<and> (ct_v4 k = None \<longleftrightarrow> sc_v4 c = None)"
  using assms
  by (cases "sc_v6 c"; cases "sc_v4 c") (auto simp: get_local_contact_def local_addr_v6_def local_addr_v4_def conn_inv_def)

lemma any_messenger_called:
  assumes "conn_inv S c"
  obtains m where "m \<in> set (get_all_messengers c)"
    and "\<And>call :: 's messenger \<Rightarrow> 's messenger \<times> ('e, 'a) res. snd (get_any_messenger c call) = snd (call m)"
proof (cases "sc_v6 c")
  case None
  with assms obtain m where "sc_v4 c = Some m" by (auto simp: conn_inv_def)
  with None show ?thesis
    by (intro that [of m]) (auto simp: get_any_messenger_def get_all_messengers_def split: prod.split)
next
  case (Some m)
  then show ?thesis
    by (intro that [of m]) (auto simp: get_any_messenger_def get_all_messengers_def split: prod.split)
qed

section \<open>Over connections that deliver\<close>

locale client_env =
  cl: message_channel S incoming sent CC enc_c valid_c + sr: message_channel S incoming sent SC enc_s valid_s
  for S :: "'s byte_stream" and incoming sent
    and CC :: "client_message codec" and enc_c valid_c and SC :: "server_message codec" and enc_s valid_s
begin

lemma ask_ok:
  assumes "incoming (ms_stream m) = frame (enc_s reply) @ rest" and "valid_s reply"
    and "length (enc_c msg) \<le> 64" and "length (enc_s reply) \<le> 68" and "length (ms_buf m) = 68"
  shows "\<exists>m'. ask S CC SC msg m = (m', Ok reply) \<and> length (ms_buf m') = 68 \<and> incoming (ms_stream m') = rest \<and>
    sent (ms_stream m') = sent (ms_stream m) @ frame (enc_c msg) \<and> same_ends S (ms_stream m) (ms_stream m')"
proof -
  obtain m1 where m1: "write_msg S CC m msg = (m1, Ok ())" "length (ms_buf m1) = 68"
    "sent (ms_stream m1) = sent (ms_stream m) @ frame (enc_c msg)"
    "incoming (ms_stream m1) = incoming (ms_stream m)" "same_ends S (ms_stream m) (ms_stream m1)"
    using cl.write_msg_sends [of msg m] assms(3,5) by auto
  obtain m2 where m2: "next_msg S SC m1 = (m2, Ok reply)" "length (ms_buf m2) = 68" "incoming (ms_stream m2) = rest"
    "sent (ms_stream m2) = sent (ms_stream m1)" "same_ends S (ms_stream m1) (ms_stream m2)"
    using sr.next_msg_receives [of m1 reply rest] assms(1,2,4) m1(2,4) by auto
  show ?thesis using m1 m2 by (simp add: ask_def same_ends_def)
qed

text \<open>A request on a connection just opened.\<close>

lemma request_ok:
  assumes "streams_ok S v6 v4" and "incoming (first_stream v6 v4) = frame (enc_s reply) @ rest" and "valid_s reply"
    and "requests_writable enc_c" and "length (enc_s reply) \<le> 64"
  shows "\<exists>c. get_any_messenger (opened v6 v4) (ask S CC SC msg) = (c, Ok reply) \<and> asked S sent v6 v4 (frame (enc_c msg)) c"
proof -
  let ?m = "configure_stream (first_stream v6 v4)"
  have "length (ms_buf ?m) = 68" and s: "ms_stream ?m = first_stream v6 v4"
    by (simp_all add: configure_stream_def with_capacity_def)
  moreover have "length (enc_c msg) \<le> 64" using assms(4) by (simp add: requests_writable_def)
  ultimately obtain m where m: "ask S CC SC msg ?m = (m, Ok reply)" "length (ms_buf m) = 68"
    "sent (ms_stream m) = sent (first_stream v6 v4) @ frame (enc_c msg)" "same_ends S (first_stream v6 v4) (ms_stream m)"
    using ask_ok [of ?m reply rest msg] assms by auto
  show ?thesis
  proof (cases v6)
    case None
    with assms(1) obtain s4 where "v4 = Some s4" by (auto simp: streams_ok_def)
    with None m assms(1) show ?thesis
      by (auto simp: get_any_messenger_def opened_def first_stream_def get_all_messengers_def conn_inv_def streams_ok_def
          local_addr_def same_ends_def asked_def)
  next
    case (Some s6)
    with m assms(1) show ?thesis
      by (auto simp: get_any_messenger_def opened_def first_stream_def get_all_messengers_def conn_inv_def streams_ok_def
          local_addr_def same_ends_def configure_stream_def with_capacity_def asked_def split: option.split)
  qed
qed

lemma create_room_reply:
  assumes "streams_ok S v6 v4" and "incoming (first_stream v6 v4) = frame (enc_s (RoomCreated room_id)) @ rest"
    and "valid_s (RoomCreated room_id)" and "requests_writable enc_c" and "length (enc_s (RoomCreated room_id)) \<le> 64"
  shows "\<exists>c. sharer_create_room S CC SC v6 v4 = Ok (\<lparr>sh_is_creator = True, sh_connection = c\<rparr>, room_id) \<and>
    asked S sent v6 v4 (frame (enc_c CreateRoom)) c"
  using request_ok [OF assms, of CreateRoom]
  by (auto simp: sharer_create_room_def server_connection_new_opened [OF assms(1)])

lemma join_room_reply:
  assumes "streams_ok S v6 v4" and "incoming (first_stream v6 v4) = frame (enc_s reply) @ rest"
    and "valid_s reply" and "requests_writable enc_c" and "length (enc_s reply) \<le> 64"
  shows "\<exists>c. sharer_join_room S CC SC v6 v4 room_id =
      (if reply = RoomJoined then Ok \<lparr>sh_is_creator = False, sh_connection = c\<rparr> else Err InvalidServerReply) \<and>
    asked S sent v6 v4 (frame (enc_c (JoinRoom room_id))) c"
  using request_ok [OF assms, of "JoinRoom room_id"]
  by (auto simp: sharer_join_room_def server_connection_new_opened [OF assms(1)])

lemma send_private_addrs_ok:
  assumes "list_all2 (\<lambda>m a. length (ms_buf m) = 68 \<and> local_addr S m = Ok a) ms as" and "requests_writable enc_c"
  shows "\<exists>ms'. send_private_addrs S CC before ms = (before @ ms', Ok ()) \<and>
    list_all2 (\<lambda>(m, a) m'. reported incoming sent enc_c a m m') (zip ms as) ms'"
  using assms(1)
proof (induction arbitrary: before rule: list_all2_induct)
  case Nil
  then show ?case by simp
next
  case (Cons m ms a as)
  have "length (enc_c (SendPrivateAddr (Some a))) \<le> 64" using assms(2) by (simp add: requests_writable_def)
  then obtain m1 where m1: "write_msg S CC m (SendPrivateAddr (Some a)) = (m1, Ok ())" "reported incoming sent enc_c a m m1"
    using cl.write_msg_sends [of "SendPrivateAddr (Some a)" m] Cons.hyps(1) by (auto simp: reported_def)
  obtain ms' where "send_private_addrs S CC (before @ [m1]) ms = ((before @ [m1]) @ ms', Ok ())"
    "list_all2 (\<lambda>(m, a) m'. reported incoming sent enc_c a m m') (zip ms as) ms'"
    using Cons.IH by blast
  then show ?case using Cons.hyps(1) m1 by (intro exI [of _ "m1 # ms'"]) simp
qed

lemma peer_connector_ok:
  assumes "list_all2 (\<lambda>m a. length (ms_buf m) = 68 \<and> local_addr S m = Ok a) (get_all_messengers (sh_connection sharer)) (a # as)"
    and "requests_writable enc_c" and "incoming (ms_stream (hd (get_all_messengers (sh_connection sharer)))) =
      frame (enc_s (SharePeerContacts own peer)) @ rest" and "valid_s (SharePeerContacts own peer)"
    and "length (enc_s (SharePeerContacts own peer)) \<le> 68"
  shows "\<exists>conns. get_peer_connector S CC SC sharer =
    (conns, Ok \<lparr>pn_local = own, pn_peer = peer, pn_is_creator = sh_is_creator sharer\<rparr>)"
proof -
  obtain m ms where ms: "get_all_messengers (sh_connection sharer) = m # ms" using assms(1) by (cases "get_all_messengers (sh_connection sharer)") auto
  from send_private_addrs_ok [OF assms(1,2), of "[]"] ms obtain m1 ms1 where
    "send_private_addrs S CC [] (get_all_messengers (sh_connection sharer)) = (m1 # ms1, Ok ())"
    and m1: "reported incoming sent enc_c a m m1"
    by (auto simp: list_all2_Cons1)
  moreover have "length (enc_c DoneSending) \<le> 64" using assms(2) by (simp add: requests_writable_def)
  then obtain m2 where "ask S CC SC DoneSending m1 = (m2, Ok (SharePeerContacts own peer))"
    using ask_ok [of m1 "SharePeerContacts own peer" rest DoneSending] m1 assms(3,4,5) ms by (auto simp: reported_def)
  ultimately show ?thesis by (simp add: get_peer_connector_def)
qed

text \<open>What a client with two streams puts on the second one.\<close>

lemma second_stream:
  assumes "asked S sent (Some s6) (Some s4) request (sh_connection sharer)" and "requests_writable enc_c"
    and "st_local_addr S s4 = Ok b"
  shows "\<exists>m' n'. fst (get_peer_connector S CC SC sharer) = [m', n'] \<and> length (ms_buf n') = 68 \<and>
    sent (ms_stream n') = sent s4 @ frame (enc_c (SendPrivateAddr (Some b)))"
proof -
  let ?c = "sh_connection sharer" and ?n = "configure_stream s4"
  obtain m where ms: "get_all_messengers ?c = [m, ?n]" and inv: "conn_inv S ?c" using assms(1) by (auto simp: asked_def)
  then have "sc_v6 ?c = Some m" by (auto simp: get_all_messengers_def split: option.splits)
  then obtain a where "length (ms_buf m) = 68" "local_addr S m = Ok a" using inv by (auto simp: conn_inv_def)
  then have "list_all2 (\<lambda>m a. length (ms_buf m) = 68 \<and> local_addr S m = Ok a) (get_all_messengers ?c) [a, b]"
    using assms(3) ms by (simp add: configure_stream_def with_capacity_def local_addr_def)
  from send_private_addrs_ok [OF this assms(2), of "[]"] ms obtain m1 n1 where
    s: "send_private_addrs S CC [] (get_all_messengers ?c) = ([m1, n1], Ok ())"
    and n1: "reported incoming sent enc_c b ?n n1"
    by (auto simp: list_all2_Cons1)
  obtain m2 r where "ask S CC SC DoneSending m1 = (m2, r)" by fastforce
  then have "fst (get_peer_connector S CC SC sharer) = [m2, n1]"
    using s by (cases r) (auto simp: get_peer_connector_def split: server_message.split)
  with n1 show ?thesis by (auto simp: reported_def configure_stream_def with_capacity_def)
qed

end

text \<open>The libraries of the server serve a client as well.\<close>

sublocale server_env \<subseteq> client: client_env "lib_stream L" incoming sent "lib_client L" enc_c valid_c "lib_server L" enc_s valid_s
  by unfold_locales

interpretation pipe_client: client_env pipe_stream pi_in pi_out client_codec enc_client_message valid_client_message
    server_codec enc_server_message valid_server_message
  by unfold_locales

lemma requests_writable_fit: "requests_writable enc_c \<Longrightarrow> requests_fit enc_c"
  by (auto simp: requests_writable_def requests_fit_def intro: order_trans)

lemma client_requests_writable: "requests_writable enc_client_message"
proof -
  have "length (enc_client_message msg) \<le> 64" for msg
  proof (cases msg)
    case (JoinRoom r)
    then show ?thesis using length_varint_u32 [of r] by simp
  next
    case (SendPrivateAddr a)
    then show ?thesis using length_enc_addr [of "the a"] by (cases a) auto
  qed auto
  then show ?thesis by (simp add: requests_writable_def)
qed

section \<open>Properties\<close>

text \<open>
  C38: what \<open>ServerConnection::new\<close> accepts: it succeeds exactly when there is a stream and each
  stream has a local address of its family. The connection then has a messenger of 68 bytes
  per stream, the branches marked unreachable are not reached: a request through
  \<open>get_any_messenger\<close> is made, and \<open>get_local_contact\<close> gives an address for each stream.
\<close>

theorem connection_in_order:
  "if streams_ok S v6 v4
   then \<exists>c m k. server_connection_new S v6 v4 = Ok c \<and> conn_inv S c \<and> m \<in> set (get_all_messengers c) \<and>
     (\<forall>call :: 's messenger \<Rightarrow> 's messenger \<times> ('e, 'a) res. snd (get_any_messenger c call) = snd (call m)) \<and>
     get_local_contact S c = Ok k \<and> (ct_v6 k = None \<longleftrightarrow> v6 = None) \<and> (ct_v4 k = None \<longleftrightarrow> v4 = None)
   else \<forall>c. server_connection_new S v6 v4 \<noteq> Ok c"
proof (cases "streams_ok S v6 v4")
  case True
  let ?c = "opened v6 v4"
  have inv: "conn_inv S ?c" by (rule opened_inv [OF True])
  from get_local_contact_ok [OF inv] obtain k where
    "get_local_contact S ?c = Ok k" "ct_v6 k = None \<longleftrightarrow> v6 = None" "ct_v4 k = None \<longleftrightarrow> v4 = None"
    by (auto simp: opened_def)
  moreover obtain m where "m \<in> set (get_all_messengers ?c)"
    "\<And>call :: 's messenger \<Rightarrow> 's messenger \<times> ('e, 'a) res. snd (get_any_messenger ?c call) = snd (call m)"
    using any_messenger_called [OF inv] by metis
  ultimately show ?thesis using True inv server_connection_new_opened [OF True] by auto
qed (auto dest: server_connection_new_Ok)

end
