(* ===== verification/Rendezvous.thy ===== *)
theory Rendezvous
  imports Contact_Sharer
begin

text \<open>
  The hole-punching client and the server handler together: the bytes one side sends are what
  the other side reads. The locale \<open>rendezvous\<close> joins the two environments over common encodings;
  its lemmas say what a request leads to on both sides.
\<close>

section \<open>Bytes read and written\<close>

text \<open>A handler that starts on a connection whose next bytes are given.\<close>

definition reads :: "('s \<Rightarrow> u8 list) \<Rightarrow> ('s, 'k, 'g) handler_state \<Rightarrow> u8 list \<Rightarrow> bool" where
  "reads incoming h bytes \<longleftrightarrow> length (ms_buf (hs_messenger h)) = 68 \<and>
     (\<exists>rest. incoming (ms_stream (hs_messenger h)) = bytes @ rest)"

text \<open>What a handler wrote between two states.\<close>

definition wrote :: "('s \<Rightarrow> u8 list) \<Rightarrow> ('s, 'k, 'g) handler_state \<Rightarrow> ('s, 'k, 'g) handler_state \<Rightarrow> u8 list \<Rightarrow> bool" where
  "wrote sent h h' bytes \<longleftrightarrow> sent (ms_stream (hs_messenger h')) = sent (ms_stream (hs_messenger h)) @ bytes"

section \<open>Client and server\<close>

text \<open>Client and server over the same encodings.\<close>

locale rendezvous =
  client: client_env S incoming sent CC enc_c valid_c SC enc_s valid_s + server: server_env L incoming' sent' enc_c valid_c enc_s valid_s
  for S :: "'c byte_stream" and incoming sent CC enc_c valid_c SC enc_s valid_s
    and L :: "('s, 'k, 'g) server_libs" and incoming' sent' +
  assumes writable: "requests_writable enc_c" and replies: "replies_fit enc_s"
begin

lemma request_read:
  assumes "reads incoming' h (frame (enc_c msg))" and "valid_c msg"
  obtains rest where "next_is incoming' enc_c valid_c h msg rest"
  using assms by (auto simp: reads_def next_is_def)

lemma created:
  assumes "valid_c CreateRoom" and "valid_s (RoomCreated room_id)" and "reads incoming' h (frame (enc_c CreateRoom))"
    and "create_room (lib_gen L) (hs_state h) (hs_rng h) = Some (room_id, gs, g)"
  shows "\<exists>h' reply. start L h = Some (h', Ok (room_id, True)) \<and> hs_state h' = gs \<and> wrote sent' h h' reply \<and>
    (\<forall>v6 v4 rest. streams_ok S v6 v4 \<and> incoming (first_stream v6 v4) = reply @ rest \<longrightarrow>
       (\<exists>c. sharer_create_room S CC SC v6 v4 = Ok (\<lparr>sh_is_creator = True, sh_connection = c\<rparr>, room_id) \<and>
          asked S sent v6 v4 (frame (enc_c CreateRoom)) c))"
proof -
  let ?reply = "frame (enc_s (RoomCreated room_id))"
  obtain rest where "next_is incoming' enc_c valid_c h CreateRoom rest" using request_read [OF assms(3,1)] .
  from server.start_create [OF this requests_writable_fit [OF writable] replies assms(4)] obtain h' where
    "start L h = Some (h', Ok (room_id, True))" "replied incoming' sent' h h' ?reply rest gs" by blast
  moreover have "length (enc_s (RoomCreated room_id)) \<le> 64" using replies by (simp add: replies_fit_def)
  ultimately show ?thesis
    using client.create_room_reply [OF _ _ assms(2) writable]
    by (intro exI [of _ h'] exI [of _ ?reply]) (simp add: replied_def wrote_def)
qed

lemma joined:
  assumes "valid_c (JoinRoom room_id)" and "valid_s RoomJoined" and "valid_s ErrorNoSuchRoomID"
    and "reads incoming' h (frame (enc_c (JoinRoom room_id)))"
  shows "\<exists>h' reply. start L h = Some (h', if room_exists (hs_state h) room_id then Ok (room_id, False) else Err SrvNoSuchRoomId) \<and>
    hs_state h' = hs_state h \<and> wrote sent' h h' reply \<and>
    (\<forall>v6 v4 rest. streams_ok S v6 v4 \<and> incoming (first_stream v6 v4) = reply @ rest \<longrightarrow>
       (\<exists>c. sharer_join_room S CC SC v6 v4 room_id =
            (if room_exists (hs_state h) room_id then Ok \<lparr>sh_is_creator = False, sh_connection = c\<rparr> else Err InvalidServerReply) \<and>
          asked S sent v6 v4 (frame (enc_c (JoinRoom room_id))) c))"
proof -
  let ?msg = "if room_exists (hs_state h) room_id then RoomJoined else ErrorNoSuchRoomID"
  obtain rest where "next_is incoming' enc_c valid_c h (JoinRoom room_id) rest" using request_read [OF assms(4,1)] .
  from server.start_join [OF this requests_writable_fit [OF writable] replies] obtain h' where
    "start L h = Some (h', if room_exists (hs_state h) room_id then Ok (room_id, False) else Err SrvNoSuchRoomId)"
    "replied incoming' sent' h h' (frame (enc_s ?msg)) rest (hs_state h)" by blast
  moreover have "length (enc_s ?msg) \<le> 64" "valid_s ?msg" using replies assms(2,3) by (simp_all add: replies_fit_def)
  moreover have "?msg = RoomJoined \<longleftrightarrow> room_exists (hs_state h) room_id" by simp
  ultimately show ?thesis
    using client.join_room_reply [of _ _ ?msg _ room_id]  writable
    by (intro exI [of _ h'] exI [of _ "frame (enc_s ?msg)"]) (simp add: replied_def wrote_def)
qed

lemma second_rejected:
  assumes "valid_c (SendPrivateAddr (Some b))" and "asked S sent (Some s6) (Some s4) request (sh_connection sharer)"
    and "st_local_addr S s4 = Ok b"
  shows "\<exists>m n report. fst (get_peer_connector S CC SC sharer) = [m, n] \<and> sent (ms_stream n) = sent s4 @ report \<and>
    (\<forall>h. reads incoming' h report \<longrightarrow>
       (\<exists>h'. start L h = Some (h', Err ReceivedIncorrectMessage) \<and> hs_state h' = hs_state h \<and> wrote sent' h h' (frame (enc_s SyntaxError))))"
proof -
  let ?msg = "SendPrivateAddr (Some b)"
  have "\<exists>h'. start L h = Some (h', Err ReceivedIncorrectMessage) \<and> hs_state h' = hs_state h \<and> wrote sent' h h' (frame (enc_s SyntaxError))"
    if read: "reads incoming' h (frame (enc_c ?msg))" for h
  proof -
    obtain rest where ni: "next_is incoming' enc_c valid_c h ?msg rest" using request_read [OF read assms(1)] .
    obtain m h' where "next_msg (lib_stream L) (lib_client L) (hs_messenger h) = (m, Ok ?msg)"
      "send L (h\<lparr>hs_messenger := m\<rparr>) SyntaxError = (h', Ok ())"
      "replied incoming' sent' h h' (frame (enc_s SyntaxError)) rest (hs_state h)"
      using server.reject_with_syntax_error [OF ni requests_writable_fit [OF writable] replies] .
    then show ?thesis by (auto simp: start_def replied_def wrote_def)
  qed
  with client.second_stream [OF assms(2) writable assms(3)] show ?thesis by blast
qed

end

lemma pipe_rendezvous_fits: "requests_writable enc_client_message" "replies_fit enc_server_message"
  by (rule client_requests_writable, rule server_replies_fit)

interpretation pipe_meet: rendezvous pipe_stream pi_in pi_out client_codec enc_client_message valid_client_message
    server_codec enc_server_message valid_server_message pipe_libs pi_in pi_out
  by unfold_locales (rule pipe_rendezvous_fits)+

end
