(* ===== verification/Peer_Connector.thy ===== *)
theory Peer_Connector
  imports Contact_Sharer
begin

text \<open>
  The direct connection of two peers: \<^verbatim>\<open>gday_hole_punch/src/client/peer_connector.rs\<close>. A peer
  listens on its private addresses and connects to those of the other one, all at once; the first
  connection whose other end proves that it knows the shared secret is taken.

  Parameters: the SPAKE2 key exchange and SHA-256 (locales \<open>spake_laws\<close> and \<open>hash_laws\<close>), the
  sockets, and \<open>select_ok\<close> of the futures library (locale \<open>select_laws\<close>). A loop over incoming
  connections runs over the list of results the system has returned so far; \<open>None\<close> means that it
  still waits.
\<close>

section \<open>The libraries\<close>

text \<open>
  \<open>sp_start pw id r\<close> is \<open>start_symmetric\<close> with the randomness \<open>r\<close>: the state and the message to send.
\<close>

record ('r, 'k) spake =
  sp_start :: "u8 list \<Rightarrow> u8 list \<Rightarrow> 'r \<Rightarrow> 'k \<times> u8 list"
  sp_finish :: "'k \<Rightarrow> u8 list \<Rightarrow> (spake_error, u8 list) res"

record 'k sockets =
  so_new_v4 :: "(io_error, 'k) res"
  so_new_v6 :: "(io_error, 'k) res"
  so_bind :: "'k \<Rightarrow> socket_addr \<Rightarrow> (io_error, 'k) res"
  so_listen :: "'k \<Rightarrow> (io_error, unit) res"

section \<open>Verifying a peer\<close>

definition get_verification_code :: "(u8 list \<Rightarrow> u8 list) \<Rightarrow> u8 list \<Rightarrow> bool \<Rightarrow> u8 list" where
  "get_verification_code sha256 key is_creator = sha256 (key @ [if is_creator then 1 else 0])"

text \<open>\<open>try_into().unwrap()\<close> into an array of 32 bytes.\<close>

definition array32 :: "u8 list \<Rightarrow> ('e, u8 list) res" where
  "array32 bs = (if length bs = 32 then Ok bs else Panic UnwrapFailed)"

definition identity :: "u8 list" where
  "identity = [112, 115, 101, 110, 100, 32, 112, 101, 101, 114]"

definition verify_peer ::
  "'s byte_stream \<Rightarrow> ('r, 'k) spake \<Rightarrow> (u8 list \<Rightarrow> u8 list) \<Rightarrow> u32 \<Rightarrow> 's \<Rightarrow> 'r \<Rightarrow> bool
   \<Rightarrow> 's \<times> (client_error, u8 list) res" where
  "verify_peer S K sha256 peer_id stream rand is_creator =
     (case sp_start K (u32_to_be_bytes peer_id) identity rand of (spake, outbound_msg) \<Rightarrow>
      case st_write_all S stream outbound_msg of (stream, r) \<Rightarrow>
      bind_st (stream, map_err CliIO r) (\<lambda>stream _.
      case st_read_exact S stream (replicate 33 0) of (stream, inbound_message, r) \<Rightarrow>
      bind_st (stream, map_err CliIO r) (\<lambda>stream _.
      bind_st (stream, map_err SpakeFailed (sp_finish K spake inbound_message)) (\<lambda>stream key.
      bind_st (stream, array32 key) (\<lambda>stream shared_secret.
        let my_code = get_verification_code sha256 shared_secret is_creator;
            peer_code = get_verification_code sha256 shared_secret (\<not> is_creator)
        in case st_write_all S stream my_code of (stream, r) \<Rightarrow>
           bind_st (stream, map_err CliIO r) (\<lambda>stream _.
           case st_read_exact S stream (replicate 32 0) of (stream, received, r) \<Rightarrow>
           bind_st (stream, map_err CliIO r) (\<lambda>stream _.
             if received = peer_code then (stream, Ok shared_secret)
             else (stream, Err PeerAuthenticationFailed))))))))"

section \<open>The attempts\<close>

definition get_local_socket :: "'k sockets \<Rightarrow> socket_addr \<Rightarrow> (io_error, 'k) res" where
  "get_local_socket N a =
     bind_res (case a of V6 _ \<Rightarrow> so_new_v6 N | V4 _ \<Rightarrow> so_new_v4 N) (\<lambda>socket. so_bind N socket a)"

text \<open>The result of one round of either loop: return the connection, or go round again.\<close>

definition verified :: "'s \<times> (client_error, u8 list) res \<Rightarrow> (io_error, 's \<times> u8 list) res option" where
  "verified v =
     (case snd v of
        Ok shared_secret \<Rightarrow> Some (Ok (fst v, shared_secret))
      | Err e \<Rightarrow> None
      | Panic p \<Rightarrow> Some (Panic p))"

text \<open>\<open>verify\<close> is \<open>verify_peer\<close> on a stream, with the randomness of that call.\<close>

fun accept_loop ::
  "('s \<Rightarrow> 's \<times> (client_error, u8 list) res) \<Rightarrow> (io_error, 's) res list \<Rightarrow> (io_error, 's \<times> u8 list) res option" where
  "accept_loop verify [] = None"
| "accept_loop verify (Ok stream # rest) =
     (case verified (verify stream) of Some r \<Rightarrow> Some r | None \<Rightarrow> accept_loop verify rest)"
| "accept_loop verify (Err e # rest) = Some (Err e)"
| "accept_loop verify (Panic p # rest) = Some (Panic p)"

definition try_accept ::
  "'k sockets \<Rightarrow> ('s \<Rightarrow> 's \<times> (client_error, u8 list) res) \<Rightarrow> socket_addr \<Rightarrow> (io_error, 's) res list
   \<Rightarrow> (io_error, 's \<times> u8 list) res option" where
  "try_accept N verify local accepted =
     (case bind_res (get_local_socket N local) (so_listen N) of
        Ok _ \<Rightarrow> accept_loop verify accepted
      | Err e \<Rightarrow> Some (Err e)
      | Panic p \<Rightarrow> Some (Panic p))"

text \<open>
  Every round of \<open>try_connect\<close> binds a new socket before it connects: \<open>N i\<close> is what the calls on
  sockets return in round \<open>i\<close>.
\<close>

fun try_connect ::
  "(nat \<Rightarrow> 'k sockets) \<Rightarrow> nat \<Rightarrow> ('s \<Rightarrow> 's \<times> (client_error, u8 list) res) \<Rightarrow> socket_addr \<Rightarrow> socket_addr \<Rightarrow> (io_error, 's) res list
   \<Rightarrow> (io_error, 's \<times> u8 list) res option" where
  "try_connect N i verify local peer connected =
     (case get_local_socket (N i) local of
        Ok _ \<Rightarrow>
          (case connected of
             [] \<Rightarrow> None
           | Ok stream # rest \<Rightarrow>
               (case verified (verify stream) of Some r \<Rightarrow> Some r | None \<Rightarrow> try_connect N (Suc i) verify local peer rest)
           | Err e # rest \<Rightarrow> Some (Err e)
           | Panic p # rest \<Rightarrow> Some (Panic p))
      | Err e \<Rightarrow> Some (Err e)
      | Panic p \<Rightarrow> Some (Panic p))"

datatype attempt = TryAccept socket_addr | TryConnect socket_addr socket_addr

definition attempts_v6 :: "full_contact \<Rightarrow> full_contact \<Rightarrow> attempt list" where
  "attempts_v6 local peer =
     (case ct_v6 (fc_private local) of
        None \<Rightarrow> []
      | Some l \<Rightarrow>
          [TryAccept (V6 l)] @
          (case ct_v6 (fc_private peer) of None \<Rightarrow> [] | Some q \<Rightarrow> [TryConnect (V6 l) (V6 q)]) @
          (case ct_v6 (fc_public peer) of None \<Rightarrow> [] | Some q \<Rightarrow> [TryConnect (V6 l) (V6 q)]))"

definition attempts_v4 :: "full_contact \<Rightarrow> full_contact \<Rightarrow> attempt list" where
  "attempts_v4 local peer =
     (case ct_v4 (fc_private local) of
        None \<Rightarrow> []
      | Some l \<Rightarrow>
          [TryAccept (V4 l)] @
          (case ct_v4 (fc_private peer) of None \<Rightarrow> [] | Some q \<Rightarrow> [TryConnect (V4 l) (V4 q)]) @
          (case ct_v4 (fc_public peer) of None \<Rightarrow> [] | Some q \<Rightarrow> [TryConnect (V4 l) (V4 q)]))"

text \<open>The attempts of a peer, in the order they are made.\<close>

definition attempts :: "full_contact \<Rightarrow> full_contact \<Rightarrow> attempt list" where
  "attempts local peer = attempts_v6 local peer @ attempts_v4 local peer"

text \<open>
  \<open>connect_to_peer\<close>: \<open>N a\<close> are the calls on sockets of an attempt, round by round, \<open>events a\<close> the
  results the system returns for it, \<open>verify\<close> verifies a
  stream of that attempt with the secret and role of this peer.
\<close>

definition run_attempt ::
  "(attempt \<Rightarrow> nat \<Rightarrow> 'k sockets) \<Rightarrow> (attempt \<Rightarrow> 's \<Rightarrow> 's \<times> (client_error, u8 list) res) \<Rightarrow> (attempt \<Rightarrow> (io_error, 's) res list) \<Rightarrow> attempt
   \<Rightarrow> (io_error, 's \<times> u8 list) res option" where
  "run_attempt N verify events a =
     (case a of
        TryAccept local \<Rightarrow> try_accept (N a 0) (verify a) local (events a)
      | TryConnect local peer \<Rightarrow> try_connect (N a) 0 (verify a) local peer (events a))"

type_synonym 'c select_ok = "(io_error, 'c) res option list \<Rightarrow> (io_error, 'c) res option"

definition connect_to_peer ::
  "'s byte_stream \<Rightarrow> ('r, 'k) spake \<Rightarrow> (u8 list \<Rightarrow> u8 list) \<Rightarrow> (attempt \<Rightarrow> nat \<Rightarrow> 'n sockets) \<Rightarrow> ('s \<times> u8 list) select_ok
   \<Rightarrow> (attempt \<Rightarrow> 's \<Rightarrow> 'r) \<Rightarrow> (attempt \<Rightarrow> (io_error, 's) res list) \<Rightarrow> peer_connector \<Rightarrow> u32
   \<Rightarrow> (io_error, 's \<times> u8 list) res option" where
  "connect_to_peer S K sha256 N select_ok rand events c shared_secret =
     (let verify = (\<lambda>a stream. verify_peer S K sha256 shared_secret stream (rand a stream) (pn_is_creator c));
          futs = map (run_attempt N verify events) (attempts (pn_local c) (pn_peer c))
      in select_ok futs)"

text \<open>\<open>gen_range(0..32768)\<close>: the random source is an argument.\<close>

definition random_peer_secret :: "('g \<Rightarrow> nat \<Rightarrow> u32 \<times> 'g) \<Rightarrow> 'g \<Rightarrow> u32 \<times> 'g" where
  "random_peer_secret gen_range rng = gen_range rng 32768"

section \<open>Laws and instances\<close>

text \<open>A key exchange and a hash that can be computed, without any secrecy.\<close>

definition plain_spake :: "(u8, u8 \<times> u8 list) spake" where
  "plain_spake =
     \<lparr>sp_start = (\<lambda>pw idt r. ((r, pw), 83 # replicate 32 r)),
      sp_finish = (\<lambda>k m. if length m \<noteq> 33 then Err WrongLength else Ok (replicate 32 (fst k + m ! 1 + sum_list (snd k))))\<rparr>"

definition plain_hash :: "u8 list \<Rightarrow> u8 list" where
  "plain_hash bs = take 32 (rev bs @ replicate 32 0)"

fun first_ok :: "'c select_ok" where
  "first_ok [] = Some (Panic AssertionFailed)"
| "first_ok (f # fs) =
     (case f of
        Some (Ok c) \<Rightarrow> Some (Ok c)
      | Some (Panic p) \<Rightarrow> Some (Panic p)
      | _ \<Rightarrow> if fs = [] then f else (case first_ok fs of Some (Err e) \<Rightarrow> (if f = None then None else Some (Err e)) | r \<Rightarrow> r))"

text \<open>A peer whose other side has the same address, for concrete runs, and sockets that always work.\<close>

definition loopback :: peer_connector where
  "loopback =
     (let c = \<lparr>fc_private = \<lparr>ct_v6 = None, ct_v4 = Some \<lparr>v4_ip = 1, v4_port = 9\<rparr>\<rparr>, fc_public = default_contact\<rparr>
      in \<lparr>pn_local = c, pn_peer = c, pn_is_creator = True\<rparr>)"

definition free_sockets :: "unit sockets" where
  "free_sockets = \<lparr>so_new_v4 = Ok (), so_new_v6 = Ok (), so_bind = (\<lambda>_ _. Ok ()), so_listen = (\<lambda>_. Ok ())\<rparr>"

text \<open>
  A stream with the bytes of a joiner that uses the secret 7, followed by its nonce, and the
  system that accepts it.
\<close>

definition joiner_key :: "u8 list" where
  "joiner_key = replicate 32 (1 + 2 + sum_list (u32_to_be_bytes 7))"

definition joiner_stream :: pipe where
  "joiner_stream = idle_pipe ((83 # replicate 32 2) @ get_verification_code plain_hash joiner_key False @ replicate 8 3)"

definition joiner_arrives :: "attempt \<Rightarrow> (io_error, pipe) res list" where
  "joiner_arrives a = (case a of TryAccept _ \<Rightarrow> [Ok joiner_stream] | TryConnect _ _ \<Rightarrow> [])"

text \<open>
  A symmetric exchange: both ends derive the same key when they use the same password and
  neither has been sent its own message.
\<close>

locale spake_laws =
  fixes K :: "('r, 'k) spake"
  assumes message_length: "sp_start K pw idt r = (k, m) \<Longrightarrow> length m = 33"
    and same_key: "sp_start K pw idt r = (k, m) \<Longrightarrow> sp_start K pw idt r' = (k', m') \<Longrightarrow> m \<noteq> m' \<Longrightarrow>
      \<exists>key. sp_finish K k m' = Ok key \<and> sp_finish K k' m = Ok key \<and> length key = 32"

text \<open>SHA-256 yields 32 bytes and is assumed to have no collision between the codes of the two roles.\<close>

locale hash_laws =
  fixes sha256 :: "u8 list \<Rightarrow> u8 list"
  assumes hash_length: "length (sha256 bs) = 32"
    and roles_differ: "sha256 (key @ [1]) \<noteq> sha256 (key @ [0])"

text \<open>\<open>select_ok\<close> panics without futures and otherwise returns the first that is \<open>Ok\<close>.\<close>

locale select_laws =
  fixes select :: "'c select_ok"
  assumes select_empty: "select [] = Some (Panic AssertionFailed)"
    and select_sound: "select futs = Some (Ok c) \<Longrightarrow> Some (Ok c) \<in> set futs"
    and select_complete: "Some (Ok c) \<in> set futs \<Longrightarrow> (\<And>p. Some (Panic p) \<notin> set futs) \<Longrightarrow> \<exists>d. select futs = Some (Ok d)"

interpretation plain_spake: spake_laws plain_spake
  by unfold_locales (auto simp: plain_spake_def add.commute)

interpretation plain_hash: hash_laws plain_hash
  by unfold_locales (auto simp: plain_hash_def)

lemma first_ok_sound: "first_ok futs = Some (Ok c) \<Longrightarrow> Some (Ok c) \<in> set futs"
  by (induction futs) (auto split: option.splits res.splits if_splits)

lemma first_ok_complete:
  "Some (Ok c) \<in> set futs \<Longrightarrow> (\<And>p. Some (Panic p) \<notin> set futs) \<Longrightarrow> \<exists>d. first_ok futs = Some (Ok d)"
  by (induction futs) (fastforce split: option.splits res.splits)+

interpretation first_ok: select_laws first_ok
  by unfold_locales (simp, fact first_ok_sound, rule first_ok_complete)

locale peer_env = duplex_stream S incoming sent + spake_laws K + hash_laws sha256
  for S :: "'s byte_stream" and incoming sent and K :: "('r, 'k) spake" and sha256
begin

lemma length_code [simp]: "length (get_verification_code sha256 key c) = 32"
  by (simp add: get_verification_code_def hash_length)

text \<open>The whole exchange over a stream that brings the 65 bytes of the other end.\<close>

lemma verify_peer_result:
  assumes "sp_start K (u32_to_be_bytes secret) identity rand = (k, m)" and "sp_finish K k inbound = Ok key"
    and "incoming s = inbound @ code @ rest" and "length inbound = 33" and "length key = 32" and "length code = 32"
  shows "\<exists>s'. verify_peer S K sha256 secret s rand c =
      (s', if code = get_verification_code sha256 key (\<not> c) then Ok key else Err PeerAuthenticationFailed) \<and>
    sent s' = sent s @ m @ get_verification_code sha256 key c \<and> incoming s' = rest"
proof -
  let ?mine = "get_verification_code sha256 key c"
  obtain s1 where s1: "st_write_all S s m = (s1, Ok ())" "sent s1 = sent s @ m" "incoming s1 = incoming s"
    using write_all by blast
  have "length (replicate 33 (0::u8)) \<le> length (incoming s1)" using s1(3) assms(3,4) by simp
  from read_exact [OF this] s1 assms(3,4) obtain s2 where
    s2: "st_read_exact S s1 (replicate 33 0) = (s2, inbound, Ok ())" "incoming s2 = code @ rest" "sent s2 = sent s1" by auto
  obtain s3 where s3: "st_write_all S s2 ?mine = (s3, Ok ())" "sent s3 = sent s2 @ ?mine" "incoming s3 = incoming s2"
    using write_all by blast
  have "length (replicate 32 (0::u8)) \<le> length (incoming s3)" using s2(2) s3(3) assms(6) by simp
  from read_exact [OF this] s2 s3 assms(6) obtain s4 where
    s4: "st_read_exact S s3 (replicate 32 0) = (s4, code, Ok ())" "incoming s4 = rest" "sent s4 = sent s3" by auto
  show ?thesis
    using assms(1,2,5) s1 s2 s3 s4
    by (intro exI [of _ s4]) (simp add: verify_peer_def array32_def Let_def)
qed

end

interpretation pipe_peers: peer_env pipe_stream pi_in pi_out plain_spake plain_hash
  by unfold_locales

section \<open>Where a connection comes from\<close>

lemma verified_Ok: "verified v = Some (Ok c) \<longleftrightarrow> v = (fst c, Ok (snd c))"
  by (cases v; cases "snd v") (auto simp: verified_def)

lemma accept_loop_Ok:
  "accept_loop verify events = Some (Ok (t, key)) \<Longrightarrow> \<exists>s. Ok s \<in> set events \<and> verify s = (t, Ok key)"
  by (induction verify events rule: accept_loop.induct) (auto simp: verified_Ok split: option.splits)

lemma try_connect_Ok:
  "try_connect N i verify l q events = Some (Ok (t, key)) \<Longrightarrow> \<exists>s. Ok s \<in> set events \<and> verify s = (t, Ok key)"
proof (induction events arbitrary: i)
  case Nil
  then show ?case by (auto split: res.splits)
next
  case (Cons e events)
  then show ?case by (fastforce simp: verified_Ok simp del: try_connect.simps
      simp: try_connect.simps [of _ _ _ _ _ "e # events"] split: res.splits option.splits)
qed

lemma run_attempt_Ok:
  assumes "run_attempt N verify events a = Some (Ok (t, key))"
  shows "\<exists>s. Ok s \<in> set (events a) \<and> verify a s = (t, Ok key)"
proof (cases a)
  case (TryAccept l)
  then have "accept_loop (verify a) (events a) = Some (Ok (t, key))"
    using assms by (auto simp: run_attempt_def try_accept_def split: res.splits)
  then show ?thesis by (rule accept_loop_Ok)
next
  case (TryConnect l q)
  then have "try_connect (N a) 0 (verify a) l q (events a) = Some (Ok (t, key))"
    using assms by (simp add: run_attempt_def)
  then show ?thesis by (rule try_connect_Ok)
qed

lemma connect_to_peer_verified:
  assumes "select_laws select" and "connect_to_peer S K sha256 N select rand events c secret = Some (Ok (t, key))"
  shows "\<exists>a s. a \<in> set (attempts (pn_local c) (pn_peer c)) \<and> Ok s \<in> set (events a) \<and>
    verify_peer S K sha256 secret s (rand a s) (pn_is_creator c) = (t, Ok key)"
proof -
  let ?verify = "\<lambda>a stream. verify_peer S K sha256 secret stream (rand a stream) (pn_is_creator c)"
  from select_laws.select_sound [OF assms(1)] assms(2) obtain a where
    "a \<in> set (attempts (pn_local c) (pn_peer c))" "run_attempt N ?verify events a = Some (Ok (t, key))"
    by (force simp: connect_to_peer_def Let_def)
  with run_attempt_Ok [of N ?verify events a t key] show ?thesis by blast
qed

section \<open>Properties\<close>

text \<open>
  C26: two peers with the same secret and opposite roles, on two ends of a connection, whose random
  numbers led to different first messages: there are a key of 32 bytes and two transcripts such that each side, when it reads the transcript of the other one,
  sends its own and accepts with that key, and leaves what follows unread.
\<close>

theorem peers_verify_each_other:
  assumes "peer_env S incoming sent K sha256"
    and "sp_start K (u32_to_be_bytes secret) identity r = (k, m)" and "sp_start K (u32_to_be_bytes secret) identity r' = (k', m')"
    and "m \<noteq> m'"
  shows "\<exists>key t t'. length key = 32 \<and>
    (\<forall>s rest. incoming s = t' @ rest \<longrightarrow>
       (\<exists>u. verify_peer S K sha256 secret s r True = (u, Ok key) \<and> sent u = sent s @ t \<and> incoming u = rest)) \<and>
    (\<forall>s rest. incoming s = t @ rest \<longrightarrow>
       (\<exists>u. verify_peer S K sha256 secret s r' False = (u, Ok key) \<and> sent u = sent s @ t' \<and> incoming u = rest))"
proof -
  have laws: "spake_laws K" using assms(1) by (simp add: peer_env_def)
  from spake_laws.same_key [OF laws assms(2-4)] obtain key where
    key: "sp_finish K k m' = Ok key" "sp_finish K k' m = Ok key" "length key = 32" by blast
  have len: "length m = 33" "length m' = 33" using spake_laws.message_length [OF laws] assms(2,3) by blast+
  let ?code = "get_verification_code sha256 key"
  note res = peer_env.verify_peer_result [OF assms(1)] and code = peer_env.length_code [OF assms(1)]
  have "\<exists>u. verify_peer S K sha256 secret s r True = (u, Ok key) \<and> sent u = sent s @ m @ ?code True \<and> incoming u = rest"
    if "incoming s = (m' @ ?code False) @ rest" for s rest
    using res [OF assms(2) key(1) _ len(2) key(3), of s "?code False" rest True] that code by simp
  moreover have "\<exists>u. verify_peer S K sha256 secret s r' False = (u, Ok key) \<and> sent u = sent s @ m' @ ?code False \<and> incoming u = rest"
    if "incoming s = (m @ ?code True) @ rest" for s rest
    using res [OF assms(3) key(2) _ len(1) key(3), of s "?code True" rest False] that code by simp
  ultimately show ?thesis using key(3) by blast
qed

text \<open>
  C28: an end that presents the code of the same role is refused, even when it knows the key; in
  particular an attacker that reflects a peer's own messages back to it is refused.
\<close>

theorem same_role_rejected:
  assumes "peer_env S incoming sent K sha256"
    and "sp_start K (u32_to_be_bytes secret) identity r = (k, m)" and "sp_finish K k inbound = Ok key"
    and "length inbound = 33" and "length key = 32"
    and "incoming s = inbound @ get_verification_code sha256 key is_creator @ rest"
  shows "\<exists>u. verify_peer S K sha256 secret s r is_creator = (u, Err PeerAuthenticationFailed)"
proof -
  have "hash_laws sha256" using assms(1) by (simp add: peer_env_def)
  then have "get_verification_code sha256 key is_creator \<noteq> get_verification_code sha256 key (\<not> is_creator)"
    using hash_laws.roles_differ [of sha256 key] by (cases is_creator) (auto simp: get_verification_code_def)
  then show ?thesis
    using peer_env.verify_peer_result [OF assms(1-3,6,4,5), of is_creator] peer_env.length_code [OF assms(1)] by auto
qed

text \<open>
  C27: a connection that \<open>connect_to_peer\<close> returns is one that an attempt obtained and that
  \<open>verify_peer\<close> accepted with the secret and the role of this peer, with the key returned.
\<close>

theorem connection_is_verified:
  assumes "select_laws select" and "connect_to_peer S K sha256 N select rand events c secret = Some (Ok (t, key))"
  shows "\<exists>a s. a \<in> set (attempts (pn_local c) (pn_peer c)) \<and> Ok s \<in> set (events a) \<and>
    verify_peer S K sha256 secret s (rand a s) (pn_is_creator c) = (t, Ok key)"
  using assms by (rule connect_to_peer_verified)

text \<open>
  C29: which attempts a peer makes, over the address slots of the two contacts: it listens on
  each of its private addresses, and connects from it to the private and to the public address
  of the other side of the same family, six attempts at most. So with exchanged contacts every
  attempt to reach a private address meets a listener. Without a private address of its own
  there is no attempt at all.
\<close>

theorem attempts_meet:
  "length (attempts own peer) \<le> 6 \<and> (attempts own peer = [] \<longleftrightarrow> fc_private own = default_contact) \<and>
   (\<forall>l. TryAccept l \<in> set (attempts own peer) \<longleftrightarrow> slots own (False, family_of l) = Some l) \<and>
   (\<forall>l q. TryConnect l q \<in> set (attempts own peer) \<longleftrightarrow>
      TryAccept l \<in> set (attempts own peer) \<and> family_of q = family_of l \<and>
      (slots peer (False, family_of q) = Some q \<or> slots peer (True, family_of q) = Some q))"
proof (intro conjI allI)
  show "length (attempts own peer) \<le> 6"
    by (simp add: attempts_def attempts_v6_def attempts_v4_def split: option.split)
  show "attempts own peer = [] \<longleftrightarrow> fc_private own = default_contact"
    by (cases "fc_private own") (simp add: attempts_def attempts_v6_def attempts_v4_def default_contact_def split: option.split)
  show accept: "TryAccept l \<in> set (attempts own peer) \<longleftrightarrow> slots own (False, family_of l) = Some l" for l
    by (cases l) (auto simp: attempts_def attempts_v6_def attempts_v4_def split: option.splits)
  show "TryConnect l q \<in> set (attempts own peer) \<longleftrightarrow>
      TryAccept l \<in> set (attempts own peer) \<and> family_of q = family_of l \<and>
      (slots peer (False, family_of q) = Some q \<or> slots peer (True, family_of q) = Some q)" for l q
    unfolding accept by (cases l; cases q) (auto simp: attempts_def attempts_v6_def attempts_v4_def split: option.splits)
qed

lemma no_private_address_panics:
  assumes "select_laws select" and "fc_private (pn_local c) = default_contact"
  shows "connect_to_peer S K sha256 N select rand events c secret = Some (Panic AssertionFailed)"
proof -
  have "attempts (pn_local c) (pn_peer c) = []"
    using assms(2) by (simp add: attempts_def attempts_v6_def attempts_v4_def default_contact_def)
  then show ?thesis using select_laws.select_empty [OF assms(1)] by (simp add: connect_to_peer_def)
qed

section \<open>Concrete instances\<close>

lemma plain_start: "sp_start plain_spake (u32_to_be_bytes 7) identity r = ((r, u32_to_be_bytes 7), 83 # replicate 32 r)"
  by (simp add: plain_spake_def)

theorem peers_verify_each_other_witness:
  "\<exists>key t t'. length key = 32 \<and>
    (\<forall>s rest. pi_in s = t' @ rest \<longrightarrow>
       (\<exists>u. verify_peer pipe_stream plain_spake plain_hash 7 s 1 True = (u, Ok key) \<and> pi_out u = pi_out s @ t \<and> pi_in u = rest)) \<and>
    (\<forall>s rest. pi_in s = t @ rest \<longrightarrow>
       (\<exists>u. verify_peer pipe_stream plain_spake plain_hash 7 s 2 False = (u, Ok key) \<and> pi_out u = pi_out s @ t' \<and> pi_in u = rest))"
  by (rule peers_verify_each_other [OF pipe_peers.peer_env_axioms plain_start plain_start]) simp

lemma plain_key: "sp_finish plain_spake (1, u32_to_be_bytes 7) (83 # replicate 32 2) = Ok joiner_key" "length joiner_key = 32"
  by (simp_all add: plain_spake_def joiner_key_def)

theorem same_role_rejected_witness:
  "\<exists>s u. verify_peer pipe_stream plain_spake plain_hash 7 s 1 True = (u, Err PeerAuthenticationFailed)"
  using same_role_rejected [OF pipe_peers.peer_env_axioms plain_start plain_key(1) _ plain_key(2), of
      "idle_pipe ((83 # replicate 32 2) @ get_verification_code plain_hash joiner_key True)" True "[]"]
  by (auto simp: idle_pipe_def)

lemma loopback_connected:
  "\<exists>t. connect_to_peer pipe_stream plain_spake plain_hash (\<lambda>_ _. free_sockets) first_ok (\<lambda>_ _. 1) joiner_arrives loopback 7 =
      Some (Ok (t, joiner_key)) \<and> pi_in t = replicate 8 3"
proof -
  have "pi_in joiner_stream = (83 # replicate 32 2) @ get_verification_code plain_hash joiner_key False @ replicate 8 3"
    by (simp add: joiner_stream_def idle_pipe_def)
  from pipe_peers.verify_peer_result [OF plain_start plain_key(1) this _ plain_key(2), of True] obtain t where
    "verify_peer pipe_stream plain_spake plain_hash 7 joiner_stream 1 True = (t, Ok joiner_key)" "pi_in t = replicate 8 3" by auto
  then show ?thesis
    by (simp add: connect_to_peer_def loopback_def attempts_def attempts_v6_def attempts_v4_def default_contact_def run_attempt_def
        try_accept_def get_local_socket_def free_sockets_def joiner_arrives_def verified_def Let_def)
qed

theorem connection_is_verified_witness:
  "\<exists>a s t key. connect_to_peer pipe_stream plain_spake plain_hash (\<lambda>_ _. free_sockets) first_ok (\<lambda>_ _. 1) joiner_arrives loopback 7 =
      Some (Ok (t, key)) \<and> a \<in> set (attempts (pn_local loopback) (pn_peer loopback)) \<and> Ok s \<in> set (joiner_arrives a) \<and>
    verify_peer pipe_stream plain_spake plain_hash 7 s 1 (pn_is_creator loopback) = (t, Ok key)"
proof -
  obtain t where "connect_to_peer pipe_stream plain_spake plain_hash (\<lambda>_ _. free_sockets) first_ok (\<lambda>_ _. 1) joiner_arrives loopback 7 =
      Some (Ok (t, joiner_key))" using loopback_connected by blast
  with connection_is_verified [OF first_ok.select_laws_axioms this] show ?thesis by blast
qed

end
