(* ===== verification/Bytes_Mut.thy ===== *)
theory Bytes_Mut
  imports Gday_Prelude
begin

text \<open>
  The growable buffer of the bytes library, a parameter of the encryption model: \<open>bytes_mut\<close>
  holds the calls the code makes, and the locale \<open>bytes_mut_laws\<close> their documented behaviour.
  The relation \<open>adj a c\<close> says that \<open>c\<close> was split off \<open>a\<close> and neither has been moved to
  another allocation since; then \<open>unsplit\<close> joins the two pieces and their capacities.
\<close>

section \<open>The interface\<close>

text \<open>
  \<open>bm_store\<close> stands for access in place: writing through a mutable slice, the unused
  capacity filled by a read and \<open>set_len\<close>, and a cipher that works on its buffer.
\<close>

record 'b bytes_mut =
  bm_with_capacity :: "nat \<Rightarrow> 'b"
  bm_bytes :: "'b \<Rightarrow> u8 list"
  bm_capacity :: "'b \<Rightarrow> nat"
  bm_clear :: "'b \<Rightarrow> 'b"
  bm_resize :: "'b \<Rightarrow> nat \<Rightarrow> u8 \<Rightarrow> 'b"
  bm_extend :: "'b \<Rightarrow> u8 list \<Rightarrow> 'b"
  bm_store :: "'b \<Rightarrow> u8 list \<Rightarrow> 'b"
  bm_split_off :: "'b \<Rightarrow> nat \<Rightarrow> 'b \<times> 'b"
  bm_unsplit :: "'b \<Rightarrow> 'b \<Rightarrow> 'b"

text \<open>\<open>split_off\<close> panics beyond the capacity.\<close>

definition split_off :: "'b bytes_mut \<Rightarrow> 'b \<Rightarrow> nat \<Rightarrow> ('e, 'b \<times> 'b) res" where
  "split_off B b at = (if bm_capacity B b < at then Panic AssertionFailed else Ok (bm_split_off B b at))"

text \<open>A buffer as its bytes and its capacity.\<close>

record list_buf =
  lb_bytes :: "u8 list"
  lb_spare :: nat

definition list_bytes_mut :: "list_buf bytes_mut" where
  "list_bytes_mut =
     \<lparr>bm_with_capacity = (\<lambda>n. \<lparr>lb_bytes = [], lb_spare = n\<rparr>),
      bm_bytes = lb_bytes,
      bm_capacity = (\<lambda>b. length (lb_bytes b) + lb_spare b),
      bm_clear = (\<lambda>b. \<lparr>lb_bytes = [], lb_spare = length (lb_bytes b) + lb_spare b\<rparr>),
      bm_resize = (\<lambda>b n x. let bs = take n (lb_bytes b) @ replicate (n - length (lb_bytes b)) x
                     in \<lparr>lb_bytes = bs, lb_spare = length (lb_bytes b) + lb_spare b - length bs\<rparr>),
      bm_extend = (\<lambda>b xs. \<lparr>lb_bytes = lb_bytes b @ xs, lb_spare = lb_spare b - length xs\<rparr>),
      bm_store = (\<lambda>b xs. \<lparr>lb_bytes = xs, lb_spare = length (lb_bytes b) + lb_spare b - length xs\<rparr>),
      bm_split_off = (\<lambda>b n. (\<lparr>lb_bytes = take n (lb_bytes b), lb_spare = n - length (lb_bytes b)\<rparr>,
                       \<lparr>lb_bytes = drop n (lb_bytes b), lb_spare = lb_spare b - (n - length (lb_bytes b))\<rparr>)),
      bm_unsplit = (\<lambda>b c. \<lparr>lb_bytes = lb_bytes b @ lb_bytes c, lb_spare = lb_spare c\<rparr>)\<rparr>"

section \<open>Its laws\<close>

locale bytes_mut_laws =
  fixes B :: "'b bytes_mut" and adj :: "'b \<Rightarrow> 'b \<Rightarrow> bool"
  assumes length_le_capacity: "length (bm_bytes B b) \<le> bm_capacity B b"
    and with_capacity_bytes: "bm_bytes B (bm_with_capacity B n) = []"
    and with_capacity_capacity: "bm_capacity B (bm_with_capacity B n) = n"
    and clear_bytes: "bm_bytes B (bm_clear B b) = []"
    and clear_capacity: "bm_capacity B (bm_clear B b) = bm_capacity B b"
    and resize_bytes: "n \<le> length (bm_bytes B b) \<Longrightarrow> bm_bytes B (bm_resize B b n x) = take n (bm_bytes B b)"
    and resize_capacity: "n \<le> length (bm_bytes B b) \<Longrightarrow> bm_capacity B (bm_resize B b n x) = bm_capacity B b"
    and extend_bytes: "bm_bytes B (bm_extend B b xs) = bm_bytes B b @ xs"
    and extend_capacity: "length (bm_bytes B b) + length xs \<le> bm_capacity B b \<Longrightarrow>
      bm_capacity B (bm_extend B b xs) = bm_capacity B b"
    and store_bytes: "length xs \<le> bm_capacity B b \<Longrightarrow> bm_bytes B (bm_store B b xs) = xs"
    and store_capacity: "length xs \<le> bm_capacity B b \<Longrightarrow> bm_capacity B (bm_store B b xs) = bm_capacity B b"
    and split_bytes: "n \<le> length (bm_bytes B b) \<Longrightarrow> bm_split_off B b n = (a, c) \<Longrightarrow>
      bm_bytes B a = take n (bm_bytes B b) \<and> bm_bytes B c = drop n (bm_bytes B b)"
    and split_capacity: "n \<le> length (bm_bytes B b) \<Longrightarrow> bm_split_off B b n = (a, c) \<Longrightarrow>
      bm_capacity B a = n \<and> bm_capacity B c = bm_capacity B b - n"
    and split_adj: "n \<le> length (bm_bytes B b) \<Longrightarrow> bm_split_off B b n = (a, c) \<Longrightarrow> adj a c"
    and extend_adj: "adj a c \<Longrightarrow> length (bm_bytes B c) + length xs \<le> bm_capacity B c \<Longrightarrow> adj a (bm_extend B c xs)"
    and store_adj_left: "adj a c \<Longrightarrow> length xs \<le> bm_capacity B a \<Longrightarrow> adj (bm_store B a xs) c"
    and store_adj_right: "adj a c \<Longrightarrow> length xs \<le> bm_capacity B c \<Longrightarrow> adj a (bm_store B c xs)"
    and unsplit_bytes: "bm_bytes B (bm_unsplit B a c) = bm_bytes B a @ bm_bytes B c"
    and unsplit_capacity: "adj a c \<Longrightarrow> length (bm_bytes B a) = bm_capacity B a \<Longrightarrow>
      bm_capacity B (bm_unsplit B a c) = bm_capacity B a + bm_capacity B c"
begin

lemmas buffer_simps = with_capacity_bytes with_capacity_capacity clear_bytes clear_capacity
  resize_bytes resize_capacity extend_bytes extend_capacity store_bytes store_capacity unsplit_bytes

text \<open>Working in place on a piece that was split off and joining it again.\<close>

lemma split_work_unsplit:
  assumes "n \<le> length (bm_bytes B b)" and "bm_split_off B b n = (a, c)"
    and "length xs = n" and "length ys \<le> bm_capacity B b - n"
  shows "bm_bytes B (bm_unsplit B (bm_store B a xs) (bm_store B c ys)) = xs @ ys"
    and "bm_capacity B (bm_unsplit B (bm_store B a xs) (bm_store B c ys)) = bm_capacity B b"
proof -
  have cap: "bm_capacity B a = n" "bm_capacity B c = bm_capacity B b - n" "n \<le> bm_capacity B b"
    using split_capacity [OF assms(1,2)] length_le_capacity [of b] assms(1) by auto
  have "adj (bm_store B a xs) (bm_store B c ys)"
    using split_adj [OF assms(1,2)] assms(3,4) cap by (intro store_adj_left store_adj_right) auto
  then show "bm_bytes B (bm_unsplit B (bm_store B a xs) (bm_store B c ys)) = xs @ ys"
    and "bm_capacity B (bm_unsplit B (bm_store B a xs) (bm_store B c ys)) = bm_capacity B b"
    using assms(3,4) cap by (simp_all add: buffer_simps unsplit_capacity)
qed

text \<open>The same at the end of the buffer: data copied to the spare capacity and worked on there.\<close>

lemma split_end_unsplit:
  assumes "bm_split_off B b (length (bm_bytes B b)) = (a, c)"
    and "length (bm_bytes B b) + length xs \<le> bm_capacity B b" and "length ys \<le> length xs"
  shows "bm_bytes B (bm_extend B c xs) = xs"
    and "bm_bytes B (bm_unsplit B a (bm_store B (bm_extend B c xs) ys)) = bm_bytes B b @ ys"
    and "bm_capacity B (bm_unsplit B a (bm_store B (bm_extend B c xs) ys)) = bm_capacity B b"
proof -
  note split = split_bytes [OF order_refl assms(1)] split_capacity [OF order_refl assms(1)]
  have cap: "bm_capacity B (bm_extend B c xs) = bm_capacity B b - length (bm_bytes B b)"
    using split assms(2) by (simp add: extend_capacity)
  have "adj a (bm_store B (bm_extend B c xs) ys)"
    using split_adj [OF order_refl assms(1)] split assms(2,3) cap
    by (intro store_adj_right extend_adj) auto
  then show "bm_bytes B (bm_extend B c xs) = xs"
    and "bm_bytes B (bm_unsplit B a (bm_store B (bm_extend B c xs) ys)) = bm_bytes B b @ ys"
    and "bm_capacity B (bm_unsplit B a (bm_store B (bm_extend B c xs) ys)) = bm_capacity B b"
    using split assms(2,3) cap by (simp_all add: buffer_simps unsplit_capacity)
qed

end

interpretation list_buf: bytes_mut_laws list_bytes_mut "\<lambda>_ _. True"
  by unfold_locales (auto simp: list_bytes_mut_def Let_def)

end
