(* ===== verification/Helper_Buf.thy ===== *)
theory Helper_Buf
  imports Bytes_Mut
begin

text \<open>
  The buffer with a read cursor that reader and writer share: \<open>HelperBuf\<close> of
  \<^verbatim>\<open>gday_encryption/src/lib.rs\<close>. Its invariant \<open>hb_inv\<close> says that the cursor is inside the data,
  or everything is empty; \<open>hb_data\<close> is the data not yet consumed. A panic carries no state:
  what an object holds after a panic is not modelled.
\<close>

definition MAX_CHUNK_SIZE :: nat where
  "MAX_CHUNK_SIZE = 8 * 1024"

definition CIPHERTEXT_OVERHEAD :: nat where
  "CIPHERTEXT_OVERHEAD = 16"

record 'b helper_buf =
  hb_buf :: 'b
  hb_cursor :: nat

definition hb_with_capacity :: "'b bytes_mut \<Rightarrow> nat \<Rightarrow> 'b helper_buf" where
  "hb_with_capacity B capacity = \<lparr>hb_buf = bm_with_capacity B capacity, hb_cursor = 0\<rparr>"

definition advance_cursor :: "profile \<Rightarrow> 'b bytes_mut \<Rightarrow> 'b helper_buf \<Rightarrow> nat \<Rightarrow> ('e, 'b helper_buf) res" where
  "advance_cursor p B h num_bytes =
     bind_res (usize_add p (hb_cursor h) num_bytes) (\<lambda>cursor.
       if \<not> cursor \<le> length (bm_bytes B (hb_buf h)) then Panic AssertionFailed
       else if cursor = length (bm_bytes B (hb_buf h))
       then Ok \<lparr>hb_buf = bm_clear B (hb_buf h), hb_cursor = 0\<rparr>
       else Ok (h\<lparr>hb_cursor := cursor\<rparr>))"

text \<open>\<open>data\<close> slices from the cursor, which panics when the cursor is beyond the end.\<close>

definition data :: "'b bytes_mut \<Rightarrow> 'b helper_buf \<Rightarrow> ('e, u8 list) res" where
  "data B h = index_range (bm_bytes B (hb_buf h)) (hb_cursor h) (length (bm_bytes B (hb_buf h)))"

definition spare_capacity_len :: "'b bytes_mut \<Rightarrow> 'b helper_buf \<Rightarrow> nat" where
  "spare_capacity_len B h = bm_capacity B (hb_buf h) - length (bm_bytes B (hb_buf h))"

text \<open>
  \<open>wrap\<close> moves the data to the front: it panics when the part before the cursor is too short
  to take the data.
\<close>

definition wrap :: "'b bytes_mut \<Rightarrow> 'b helper_buf \<Rightarrow> ('e, 'b helper_buf) res" where
  "wrap B h =
     (let bs = bm_bytes B (hb_buf h) in
      if length bs < hb_cursor h then Panic AssertionFailed
      else
        let blank = take (hb_cursor h) bs; dat = drop (hb_cursor h) bs; data_len = length dat
        in if length blank < data_len then Panic OutOfBounds
           else
             let copied = bm_store B (hb_buf h) ((dat @ drop data_len blank) @ dat)
             in Ok \<lparr>hb_buf = bm_resize B copied data_len 0, hb_cursor = 0\<rparr>)"

section \<open>Invariant and contents\<close>

definition hb_inv :: "'b bytes_mut \<Rightarrow> 'b helper_buf \<Rightarrow> bool" where
  "hb_inv B h \<longleftrightarrow> hb_cursor h < length (bm_bytes B (hb_buf h)) \<or>
     hb_cursor h = 0 \<and> bm_bytes B (hb_buf h) = []"

definition hb_data :: "'b bytes_mut \<Rightarrow> 'b helper_buf \<Rightarrow> u8 list" where
  "hb_data B h = drop (hb_cursor h) (bm_bytes B (hb_buf h))"

definition hb_cap :: "'b bytes_mut \<Rightarrow> 'b helper_buf \<Rightarrow> nat" where
  "hb_cap B h = bm_capacity B (hb_buf h)"

lemma data_Ok: "hb_inv B h \<Longrightarrow> data B h = Ok (hb_data B h)"
  by (auto simp: hb_inv_def data_def hb_data_def index_range_def)

lemma hb_data_Nil: "hb_inv B h \<Longrightarrow> hb_data B h = [] \<longleftrightarrow> bm_bytes B (hb_buf h) = []"
  by (auto simp: hb_inv_def hb_data_def)

lemma hb_inv_cursor: "hb_inv B h \<Longrightarrow> hb_cursor h \<le> length (bm_bytes B (hb_buf h))"
  by (auto simp: hb_inv_def)

lemma length_hb_data: "length (hb_data B h) = length (bm_bytes B (hb_buf h)) - hb_cursor h"
  by (simp add: hb_data_def)

context bytes_mut_laws
begin

lemma spare_empty: "hb_inv B h \<Longrightarrow> hb_data B h = [] \<Longrightarrow> spare_capacity_len B h = hb_cap B h"
  by (simp add: hb_data_Nil spare_capacity_len_def hb_cap_def)

lemma hb_with_capacity_empty:
  "hb_inv B (hb_with_capacity B n)" "hb_data B (hb_with_capacity B n) = []" "hb_cap B (hb_with_capacity B n) = n"
  by (simp_all add: hb_inv_def hb_data_def hb_cap_def hb_with_capacity_def buffer_simps)

lemma advance_cursor_ok:
  assumes "hb_inv B h" and "n \<le> length (hb_data B h)" and "hb_cap B h < 2 ^ 64"
  shows "\<exists>h'. advance_cursor p B h n = Ok h' \<and> hb_inv B h' \<and> hb_data B h' = drop n (hb_data B h) \<and>
    hb_cap B h' = hb_cap B h"
proof -
  let ?len = "length (bm_bytes B (hb_buf h))"
  have le: "hb_cursor h + n \<le> ?len" using assms(2) hb_inv_cursor [OF assms(1)] by (simp add: length_hb_data)
  also have "\<dots> < 2 ^ 64" using assms(3) length_le_capacity [of "hb_buf h"] by (simp add: hb_cap_def)
  finally have lt: "hb_cursor h + n < 2 ^ 64" .
  show ?thesis
    using le by (cases "hb_cursor h + n = ?len")
      (simp_all add: advance_cursor_def usize_add_Ok [OF lt] hb_inv_def hb_data_def hb_cap_def buffer_simps add.commute [of n])
qed

lemma wrap_ok:
  assumes "hb_inv B h" and "length (hb_data B h) \<le> hb_cursor h"
  shows "\<exists>h'. wrap B h = Ok h' \<and> hb_inv B h' \<and> hb_data B h' = hb_data B h \<and> hb_cap B h' = hb_cap B h \<and>
    length (bm_bytes B (hb_buf h')) = length (hb_data B h)"
proof -
  let ?bs = "bm_bytes B (hb_buf h)"
  let ?dat = "drop (hb_cursor h) ?bs"
  define new where "new = (?dat @ drop (length ?dat) (take (hb_cursor h) ?bs)) @ ?dat"
  have c: "hb_cursor h \<le> length ?bs" by (rule hb_inv_cursor [OF assms(1)])
  have "length new = length ?bs" using assms(2) c by (simp add: hb_data_def new_def)
  then have "length new \<le> bm_capacity B (hb_buf h)" using length_le_capacity [of "hb_buf h"] by simp
  note st = store_bytes [OF this] store_capacity [OF this]
  have "bm_bytes B (bm_resize B (bm_store B (hb_buf h) new) (length ?dat) 0) = ?dat"
    by (subst resize_bytes) (simp_all add: st, simp_all add: new_def)
  moreover have "bm_capacity B (bm_resize B (bm_store B (hb_buf h) new) (length ?dat) 0) = bm_capacity B (hb_buf h)"
    by (subst resize_capacity) (simp_all add: st, simp_all add: new_def)
  ultimately show ?thesis
    using assms(2) c by (auto simp: wrap_def Let_def hb_data_def hb_inv_def hb_cap_def new_def)
qed

end

end
