(* ===== verification/Aead_Stream.thy ===== *)
theory Aead_Stream
  imports Gday_Prelude
begin

unbundle bit_operations_syntax

text \<open>
  The stream encryption of the chacha20poly1305 library (\<open>EncryptorLE31\<close> and
  \<open>DecryptorLE31\<close>), a parameter of the model. Encrypting a message gives the ciphertext with its
  tag of 16 bytes and moves the encryptor on, or fails when the message counter is used up.
  The relation \<open>sync e d\<close> of the laws says that encryptor and decryptor are at the same
  position under the same key and nonce.
\<close>

section \<open>The interface\<close>

record ('e, 'd) aead_stream =
  ae_encryptor :: "u8 list \<Rightarrow> u8 list \<Rightarrow> 'e"
  ae_decryptor :: "u8 list \<Rightarrow> u8 list \<Rightarrow> 'd"
  ae_encrypt :: "'e \<Rightarrow> u8 list \<Rightarrow> 'e \<times> u8 list option"
  ae_decrypt :: "'d \<Rightarrow> u8 list \<Rightarrow> 'd \<times> u8 list option"

text \<open>A sequence of messages through an encryptor and back.\<close>

fun encrypt_chunks :: "('e, 'd) aead_stream \<Rightarrow> 'e \<Rightarrow> u8 list list \<Rightarrow> 'e \<times> u8 list list option" where
  "encrypt_chunks A e [] = (e, Some [])"
| "encrypt_chunks A e (pt # pts) =
     (case ae_encrypt A e pt of
        (e, None) \<Rightarrow> (e, None)
      | (e, Some ct) \<Rightarrow> (case encrypt_chunks A e pts of (e, r) \<Rightarrow> (e, map_option ((#) ct) r)))"

fun decrypt_chunks :: "('e, 'd) aead_stream \<Rightarrow> 'd \<Rightarrow> u8 list list \<Rightarrow> u8 list list option" where
  "decrypt_chunks A d [] = Some []"
| "decrypt_chunks A d (ct # cts) =
     (case ae_decrypt A d ct of
        (d, None) \<Rightarrow> None
      | (d, Some pt) \<Rightarrow> map_option ((#) pt) (decrypt_chunks A d cts))"

text \<open>
  A stream cipher over a counter, for concrete instances: a keystream byte that depends on
  key, nonce and counter, and a tag of 16 bytes that repeats the counter.
\<close>

definition counter_limit :: nat where
  "counter_limit = 2 ^ 28 - 1"

definition counter_tag :: "nat \<Rightarrow> u8 list" where
  "counter_tag n = replicate 16 (of_nat n)"

definition counter_mask :: "u8 \<times> nat \<Rightarrow> u8 list \<Rightarrow> u8 list" where
  "counter_mask s = map (\<lambda>b. b XOR (fst s + of_nat (snd s)))"

definition counter_aead :: "(u8 \<times> nat, u8 \<times> nat) aead_stream" where
  "counter_aead =
     \<lparr>ae_encryptor = (\<lambda>k n. (sum_list k + sum_list n, 0)),
      ae_decryptor = (\<lambda>k n. (sum_list k + sum_list n, 0)),
      ae_encrypt = (\<lambda>s pt. if snd s = counter_limit then (s, None)
                     else ((fst s, Suc (snd s)), Some (counter_mask s pt @ counter_tag (snd s)))),
      ae_decrypt = (\<lambda>s ct. if snd s = counter_limit \<or> length ct < 16 \<or>
                          drop (length ct - 16) ct \<noteq> counter_tag (snd s) then (s, None)
                     else ((fst s, Suc (snd s)), Some (counter_mask s (take (length ct - 16) ct))))\<rparr>"

section \<open>Its laws\<close>

locale aead_laws =
  fixes A :: "('e, 'd) aead_stream" and sync :: "'e \<Rightarrow> 'd \<Rightarrow> bool"
  assumes start_sync: "sync (ae_encryptor A key nonce) (ae_decryptor A key nonce)"
    and encrypt_length: "ae_encrypt A e pt = (e', Some ct) \<Longrightarrow> length ct = length pt + 16"
    and decrypt_length: "ae_decrypt A d ct = (d', Some pt) \<Longrightarrow> length ct = length pt + 16"
    and decrypt_encrypt: "sync e d \<Longrightarrow> ae_encrypt A e pt = (e', Some ct) \<Longrightarrow>
      \<exists>d'. ae_decrypt A d ct = (d', Some pt) \<and> sync e' d'"
begin

lemma decrypt_encrypt_chunks:
  assumes "sync e d" and "encrypt_chunks A e pts = (e', Some cts)"
  shows "decrypt_chunks A d cts = Some pts"
  using assms
proof (induction pts arbitrary: e d cts)
  case Nil
  then show ?case by simp
next
  case (Cons pt pts)
  from Cons.prems(2) obtain e1 ct cts1 where enc: "ae_encrypt A e pt = (e1, Some ct)"
    and rest: "encrypt_chunks A e1 pts = (e', Some cts1)" and cts: "cts = ct # cts1"
    by (auto split: prod.splits option.splits)
  obtain d1 where "ae_decrypt A d ct = (d1, Some pt)" "sync e1 d1"
    using decrypt_encrypt [OF Cons.prems(1) enc] by blast
  then show ?case using Cons.IH [OF _ rest] cts by simp
qed

lemma encrypt_chunks_length:
  assumes "encrypt_chunks A e pts = (e', Some cts)"
  shows "list_all2 (\<lambda>pt ct. length ct = length pt + 16) pts cts"
  using assms
proof (induction pts arbitrary: e cts)
  case (Cons pt pts)
  then show ?case by (auto split: prod.splits option.splits dest: encrypt_length)
qed simp

lemma encrypt_chunks_bounded:
  assumes "encrypt_chunks A e pts = (e', Some cts)" and "\<forall>pt \<in> set pts. length pt \<le> n"
  shows "\<forall>ct \<in> set cts. length ct \<le> n + 16"
  using encrypt_chunks_length [OF assms(1)] assms(2)
  by (fastforce simp: list_all2_conv_all_nth in_set_conv_nth)

end

lemma encrypt_chunks_append:
  "encrypt_chunks A e (pts @ qts) =
     (case encrypt_chunks A e pts of
        (e, None) \<Rightarrow> (e, None)
      | (e, Some cts) \<Rightarrow> (case encrypt_chunks A e qts of (e, r) \<Rightarrow> (e, map_option ((@) cts) r)))"
  by (induction pts arbitrary: e) (auto simp: map_option_case split: prod.splits option.splits)

lemma counter_mask_mask [simp]: "counter_mask s (counter_mask s bs) = bs"
  by (induction bs) (simp_all add: counter_mask_def xor.assoc)

lemma length_counter [simp]: "length (counter_mask s bs) = length bs" "length (counter_tag n) = 16"
  by (simp_all add: counter_mask_def counter_tag_def)

interpretation counter: aead_laws counter_aead "(=)"
  by unfold_locales (auto simp: counter_aead_def split: if_splits)

end
