(* ===== verification/Encrypted_Writer.thy ===== *)
theory Encrypted_Writer
  imports Helper_Buf Aead_Stream
begin

text \<open>
  \<open>EncryptedWriter\<close> of \<^verbatim>\<open>gday_encryption/src/writer.rs\<close>: plaintext is collected behind four
  reserved bytes of an 8192 byte buffer; when the buffer is full or on a flush the plaintext is
  encrypted in place, the four bytes become the length of the ciphertext, and the frame is
  written out. While a frame is being written (\<open>is_flushing\<close>) no plaintext is accepted.

  The inner writer is a parameter (\<open>async_write\<close>, laws in \<open>async_sink\<close> over the bytes it has
  accepted). The abstract view \<open>writer_rel\<close> is a list of chunks that were encrypted, the
  plaintext still pending, and the bytes on the wire: what was sent, with what remains of the
  frame in flight, is the concatenation of the frames of the encrypted chunks.
\<close>

section \<open>The inner writer\<close>

record 'w async_write =
  aw_poll_write :: "'w \<Rightarrow> u8 list \<Rightarrow> 'w \<times> (io_error, nat) res poll"
  aw_poll_flush :: "'w \<Rightarrow> 'w \<times> (io_error, unit) res poll"
  aw_poll_shutdown :: "'w \<Rightarrow> 'w \<times> (io_error, unit) res poll"
  aw_write_all :: "'w \<Rightarrow> u8 list \<Rightarrow> 'w \<times> (io_error, unit) res"
  aw_flush :: "'w \<Rightarrow> 'w \<times> (io_error, unit) res"

section \<open>The writer\<close>

record ('w, 'e, 'b) encrypted_writer =
  ew_writer :: 'w
  ew_encryptor :: 'e
  ew_bytes :: "'b helper_buf"
  ew_is_flushing :: bool

text \<open>\<open>new\<close>: the nonce that \<open>rand::random\<close> returns is an argument.\<close>

definition writer_new ::
  "'b bytes_mut \<Rightarrow> ('e, 'd) aead_stream \<Rightarrow> 'w async_write \<Rightarrow> 'w \<Rightarrow> u8 list \<Rightarrow> u8 list
   \<Rightarrow> 'w \<times> (io_error, ('w, 'e, 'b) encrypted_writer) res" where
  "writer_new B A W writer shared_key nonce =
     bind_st (aw_write_all W writer nonce) (\<lambda>writer _.
     bind_st (aw_flush W writer) (\<lambda>writer _.
       (writer, Ok \<lparr>ew_writer = writer, ew_encryptor = ae_encryptor A shared_key nonce,
                    ew_bytes = hb_with_capacity B MAX_CHUNK_SIZE, ew_is_flushing = True\<rparr>)))"

text \<open>The loop of \<open>poll_flush_local\<close>, which may not end.\<close>

partial_function (option) write_out ::
  "profile \<Rightarrow> 'b bytes_mut \<Rightarrow> 'w async_write \<Rightarrow> ('w, 'e, 'b) encrypted_writer
   \<Rightarrow> (('w, 'e, 'b) encrypted_writer \<times> (io_error, unit) res poll) option" where
  "write_out p B W s =
     (case data B (ew_bytes s) of
        Panic q \<Rightarrow> Some (s, Ready (Panic q))
      | Err e \<Rightarrow> Some (s, Ready (Err e))
      | Ok d \<Rightarrow>
          if d = [] then Some (s, Ready (Ok ()))
          else
            (case aw_poll_write W (ew_writer s) d of (w, r) \<Rightarrow>
             case r of
               Pending \<Rightarrow> Some (s\<lparr>ew_writer := w\<rparr>, Pending)
             | Ready r \<Rightarrow>
                 (case r of
                    Panic q \<Rightarrow> Some (s\<lparr>ew_writer := w\<rparr>, Ready (Panic q))
                  | Err e \<Rightarrow> Some (s\<lparr>ew_writer := w\<rparr>, Ready (Err e))
                  | Ok bytes_wrote \<Rightarrow>
                      (case advance_cursor p B (ew_bytes s) bytes_wrote of
                         Panic q \<Rightarrow> Some (s\<lparr>ew_writer := w\<rparr>, Ready (Panic q))
                       | Err e \<Rightarrow> Some (s\<lparr>ew_writer := w\<rparr>, Ready (Err e))
                       | Ok h \<Rightarrow> write_out p B W (s\<lparr>ew_writer := w, ew_bytes := h\<rparr>)))))"

definition hb_extend :: "'b bytes_mut \<Rightarrow> 'b helper_buf \<Rightarrow> u8 list \<Rightarrow> 'b helper_buf" where
  "hb_extend B h xs = h\<lparr>hb_buf := bm_extend B (hb_buf h) xs\<rparr>"

definition poll_flush_local ::
  "profile \<Rightarrow> 'b bytes_mut \<Rightarrow> 'w async_write \<Rightarrow> ('w, 'e, 'b) encrypted_writer
   \<Rightarrow> (('w, 'e, 'b) encrypted_writer, unit) run" where
  "poll_flush_local p B W s =
     bind_run (Some (s, Ready (debug_assert p (ew_is_flushing s)))) (\<lambda>s _.
     bind_run (write_out p B W s) (\<lambda>s _.
       Some (s\<lparr>ew_is_flushing := False, ew_bytes := hb_extend B (ew_bytes s) [0, 0, 0, 0]\<rparr>, Ready (Ok ()))))"

definition start_flushing ::
  "'b bytes_mut \<Rightarrow> ('e, 'd) aead_stream \<Rightarrow> ('w, 'e, 'b) encrypted_writer
   \<Rightarrow> ('w, 'e, 'b) encrypted_writer \<times> (io_error, unit) res" where
  "start_flushing B A s =
     bind_st (s, split_off B (hb_buf (ew_bytes s)) 4) (\<lambda>s (buf, msg).
       case ae_encrypt A (ew_encryptor s) (bm_bytes B msg) of (e, r) \<Rightarrow>
       let s = s\<lparr>ew_encryptor := e, ew_bytes := (ew_bytes s)\<lparr>hb_buf := buf\<rparr>\<rparr>
       in case r of
            None \<Rightarrow> (s, Err InvalidData)
          | Some ct \<Rightarrow>
              let msg = bm_store B msg ct
              in case u32_try_from (length (bm_bytes B msg)) of
                   None \<Rightarrow> (s, Panic UnwrapFailed)
                 | Some len \<Rightarrow>
                     if length (bm_bytes B buf) \<noteq> 4 then (s, Panic AssertionFailed)
                     else
                       (s\<lparr>ew_bytes := (ew_bytes s)\<lparr>hb_buf := bm_unsplit B (bm_store B buf (u32_to_be_bytes len)) msg\<rparr>,
                          ew_is_flushing := True\<rparr>, Ok ()))"

definition poll_write ::
  "profile \<Rightarrow> 'b bytes_mut \<Rightarrow> ('e, 'd) aead_stream \<Rightarrow> 'w async_write \<Rightarrow> ('w, 'e, 'b) encrypted_writer
   \<Rightarrow> u8 list \<Rightarrow> (('w, 'e, 'b) encrypted_writer, nat) run" where
  "poll_write p B A W s buf =
     bind_run (Some (s, Ready (debug_assert p (bm_capacity B (hb_buf (ew_bytes s)) = MAX_CHUNK_SIZE)))) (\<lambda>s _.
     bind_run (if ew_is_flushing s then poll_flush_local p B W s else Some (s, Ready (Ok ()))) (\<lambda>s _.
     bind_run (Some (s, Ready (usize_sub p (spare_capacity_len B (ew_bytes s)) CIPHERTEXT_OVERHEAD))) (\<lambda>s room.
       let bytes_taken = min (length buf) room;
           s = s\<lparr>ew_bytes := hb_extend B (ew_bytes s) (take bytes_taken buf)\<rparr>
       in bind_run (if spare_capacity_len B (ew_bytes s) = CIPHERTEXT_OVERHEAD
                    then done_run (start_flushing B A s) else Some (s, Ready (Ok ())))
            (\<lambda>s _. Some (s, Ready (Ok bytes_taken))))))"

definition poll_flush ::
  "profile \<Rightarrow> 'b bytes_mut \<Rightarrow> ('e, 'd) aead_stream \<Rightarrow> 'w async_write \<Rightarrow> ('w, 'e, 'b) encrypted_writer
   \<Rightarrow> (('w, 'e, 'b) encrypted_writer, unit) run" where
  "poll_flush p B A W s =
     bind_run (if \<not> ew_is_flushing s
               then bind_run (Some (s, Ready (data B (ew_bytes s)))) (\<lambda>s d.
                      if d \<noteq> [] then done_run (start_flushing B A s) else Some (s, Ready (Ok ())))
               else Some (s, Ready (Ok ()))) (\<lambda>s _.
     bind_run (if ew_is_flushing s then poll_flush_local p B W s else Some (s, Ready (Ok ()))) (\<lambda>s _.
       case aw_poll_flush W (ew_writer s) of (w, r) \<Rightarrow> Some (s\<lparr>ew_writer := w\<rparr>, r)))"

definition poll_shutdown ::
  "profile \<Rightarrow> 'b bytes_mut \<Rightarrow> ('e, 'd) aead_stream \<Rightarrow> 'w async_write \<Rightarrow> ('w, 'e, 'b) encrypted_writer
   \<Rightarrow> (('w, 'e, 'b) encrypted_writer, unit) run" where
  "poll_shutdown p B A W s =
     bind_run (poll_flush p B A W s) (\<lambda>s _.
       case aw_poll_shutdown W (ew_writer s) of (w, r) \<Rightarrow> Some (s\<lparr>ew_writer := w\<rparr>, r))"

section \<open>The abstract view\<close>

text \<open>
  \<open>writer_rel B A sent e0 base s chunks pending\<close>: since the wire held \<open>base\<close> and the encryptor
  was \<open>e0\<close>, the chunks were encrypted in order and \<open>pending\<close> is still to be. A chunk has at
  most 8192 - 4 - 16 bytes.
\<close>

definition MAX_PLAINTEXT :: nat where
  "MAX_PLAINTEXT = 8172"

definition writer_rel ::
  "'b bytes_mut \<Rightarrow> ('e, 'd) aead_stream \<Rightarrow> ('w \<Rightarrow> u8 list) \<Rightarrow> 'e \<Rightarrow> u8 list
   \<Rightarrow> ('w, 'e, 'b) encrypted_writer \<Rightarrow> u8 list list \<Rightarrow> u8 list \<Rightarrow> bool" where
  "writer_rel B A sent e0 base s chunks pending \<longleftrightarrow>
     hb_inv B (ew_bytes s) \<and> hb_cap B (ew_bytes s) = MAX_CHUNK_SIZE \<and>
     (\<forall>c \<in> set chunks. length c \<le> MAX_PLAINTEXT) \<and>
     (\<exists>cts. encrypt_chunks A e0 chunks = (ew_encryptor s, Some cts) \<and>
        (if ew_is_flushing s
         then pending = [] \<and> sent (ew_writer s) @ hb_data B (ew_bytes s) = base @ concat (map frame cts)
         else hb_cursor (ew_bytes s) = 0 \<and> bm_bytes B (hb_buf (ew_bytes s)) = [0, 0, 0, 0] @ pending \<and>
           length pending < MAX_PLAINTEXT \<and> sent (ew_writer s) = base @ concat (map frame cts)))"

text \<open>The state while plaintext is collected; the buffer may just have become full.\<close>

definition collecting ::
  "'b bytes_mut \<Rightarrow> ('e, 'd) aead_stream \<Rightarrow> ('w \<Rightarrow> u8 list) \<Rightarrow> 'e \<Rightarrow> u8 list
   \<Rightarrow> ('w, 'e, 'b) encrypted_writer \<Rightarrow> u8 list list \<Rightarrow> u8 list \<Rightarrow> bool" where
  "collecting B A sent e0 base s chunks pending \<longleftrightarrow>
     \<not> ew_is_flushing s \<and> hb_cursor (ew_bytes s) = 0 \<and> hb_cap B (ew_bytes s) = MAX_CHUNK_SIZE \<and>
     bm_bytes B (hb_buf (ew_bytes s)) = [0, 0, 0, 0] @ pending \<and> length pending \<le> MAX_PLAINTEXT \<and>
     (\<forall>c \<in> set chunks. length c \<le> MAX_PLAINTEXT) \<and>
     (\<exists>cts. encrypt_chunks A e0 chunks = (ew_encryptor s, Some cts) \<and>
        sent (ew_writer s) = base @ concat (map frame cts))"

text \<open>The encryptor has reached the end of its counter.\<close>

definition exhausted :: "('e, 'd) aead_stream \<Rightarrow> 'e \<Rightarrow> bool" where
  "exhausted A e \<longleftrightarrow> (\<exists>pt. snd (ae_encrypt A e pt) = None)"

text \<open>An inner writer that takes at least one byte whenever it takes any.\<close>

definition takes_some :: "'w async_write \<Rightarrow> bool" where
  "takes_some W \<longleftrightarrow> (\<forall>w bs w' n. bs \<noteq> [] \<longrightarrow> aw_poll_write W w bs = (w', Ready (Ok n)) \<longrightarrow> 0 < n)"

text \<open>
  A session of calls on a writer, as the code that owns it makes them; a call that is pending
  is simply followed by the next one. The result is the writer and the plaintext accepted, or
  \<open>None\<close> when a call fails or does not return.
\<close>

datatype writer_call = CallWrite "u8 list" | CallFlush | CallShutdown

fun writer_session ::
  "profile \<Rightarrow> 'b bytes_mut \<Rightarrow> ('e, 'd) aead_stream \<Rightarrow> 'w async_write \<Rightarrow> ('w, 'e, 'b) encrypted_writer
   \<Rightarrow> writer_call list \<Rightarrow> (('w, 'e, 'b) encrypted_writer \<times> u8 list) option" where
  "writer_session p B A W s [] = Some (s, [])"
| "writer_session p B A W s (CallWrite buf # calls) =
     (case poll_write p B A W s buf of
        Some (s, Pending) \<Rightarrow> writer_session p B A W s calls
      | Some (s, Ready (Ok n)) \<Rightarrow> map_option (\<lambda>(t, bs). (t, take n buf @ bs)) (writer_session p B A W s calls)
      | _ \<Rightarrow> None)"
| "writer_session p B A W s (CallFlush # calls) =
     (case poll_flush p B A W s of
        Some (s, Pending) \<Rightarrow> writer_session p B A W s calls
      | Some (s, Ready (Ok _)) \<Rightarrow> writer_session p B A W s calls
      | _ \<Rightarrow> None)"
| "writer_session p B A W s (CallShutdown # calls) =
     (case poll_shutdown p B A W s of
        Some (s, Pending) \<Rightarrow> writer_session p B A W s calls
      | Some (s, Ready (Ok _)) \<Rightarrow> writer_session p B A W s calls
      | _ \<Rightarrow> None)"

text \<open>The ciphertext not yet written and the plaintext not yet encrypted.\<close>

definition unsent :: "'b bytes_mut \<Rightarrow> ('w, 'e, 'b) encrypted_writer \<Rightarrow> u8 list" where
  "unsent B s = (if ew_is_flushing s then hb_data B (ew_bytes s) else [])"

definition collected :: "'b bytes_mut \<Rightarrow> ('w, 'e, 'b) encrypted_writer \<Rightarrow> u8 list" where
  "collected B s = (if ew_is_flushing s then [] else drop 4 (bm_bytes B (hb_buf (ew_bytes s))))"

text \<open>
  Two inner writers over lists: one takes up to 100 bytes a call, one is closed and takes none.
\<close>

definition vec_sink :: "u8 list async_write" where
  "vec_sink =
     \<lparr>aw_poll_write = (\<lambda>w bs. (w @ take 100 bs, Ready (Ok (min 100 (length bs))))),
      aw_poll_flush = (\<lambda>w. (w, Ready (Ok ()))),
      aw_poll_shutdown = (\<lambda>w. (w, Ready (Ok ()))),
      aw_write_all = (\<lambda>w bs. (w @ bs, Ok ())),
      aw_flush = (\<lambda>w. (w, Ok ()))\<rparr>"

definition closed_sink :: "u8 list async_write" where
  "closed_sink =
     \<lparr>aw_poll_write = (\<lambda>w bs. (w, Ready (Ok 0))),
      aw_poll_flush = (\<lambda>w. (w, Ready (Ok ()))),
      aw_poll_shutdown = (\<lambda>w. (w, Ready (Ok ()))),
      aw_write_all = (\<lambda>w bs. if bs = [] then (w, Ok ()) else (w, Err WriteZero)),
      aw_flush = (\<lambda>w. (w, Ok ()))\<rparr>"

definition fresh_writer :: "(u8 list, u8 \<times> nat, list_buf) encrypted_writer" where
  "fresh_writer =
     \<lparr>ew_writer = [1, 2, 3, 4, 5, 6, 7, 8], ew_encryptor = ae_encryptor counter_aead [9] [1, 2, 3, 4, 5, 6, 7, 8],
      ew_bytes = hb_with_capacity list_bytes_mut MAX_CHUNK_SIZE, ew_is_flushing = True\<rparr>"

text \<open>The same writer once the nonce is out, and with an empty chunk in flight.\<close>

definition idle_writer :: "(u8 list, u8 \<times> nat, list_buf) encrypted_writer" where
  "idle_writer = fresh_writer\<lparr>ew_bytes := hb_extend list_bytes_mut (ew_bytes fresh_writer) [0, 0, 0, 0], ew_is_flushing := False\<rparr>"

definition stuck_writer :: "(u8 list, u8 \<times> nat, list_buf) encrypted_writer" where
  "stuck_writer = fst (start_flushing list_bytes_mut counter_aead idle_writer)"

section \<open>The laws of the inner writer\<close>

locale async_sink =
  fixes W :: "'w async_write" and sent :: "'w \<Rightarrow> u8 list"
  assumes write_ok: "aw_poll_write W w bs = (w', Ready (Ok n)) \<Longrightarrow>
      n \<le> length bs \<and> sent w' = sent w @ take n bs"
    and write_pending: "aw_poll_write W w bs = (w', Pending) \<Longrightarrow> sent w' = sent w"
    and write_err: "aw_poll_write W w bs = (w', Ready (Err e)) \<Longrightarrow> sent w' = sent w"
    and write_no_panic: "aw_poll_write W w bs \<noteq> (w', Ready (Panic q))"
    and flush_sent: "sent (fst (aw_poll_flush W w)) = sent w"
    and flush_no_panic: "snd (aw_poll_flush W w) \<noteq> Ready (Panic q)"
    and shutdown_sent: "sent (fst (aw_poll_shutdown W w)) = sent w"
    and shutdown_no_panic: "snd (aw_poll_shutdown W w) \<noteq> Ready (Panic q)"
    and write_all_ok: "aw_write_all W w bs = (w', Ok u) \<Longrightarrow> sent w' = sent w @ bs"
    and await_flush_ok: "aw_flush W w = (w', Ok u) \<Longrightarrow> sent w' = sent w"

locale writer_env = bytes_mut_laws B adj + aead_laws A sync + async_sink W sent
  for B :: "'b bytes_mut" and adj and A :: "('e, 'd) aead_stream" and sync
    and W :: "'w async_write" and sent
begin

lemma write_out_partial:
  assumes "write_out p B' W' s = Some y" and "B' = B" and "W' = W"
    and "hb_inv B (ew_bytes s)" and "hb_cap B (ew_bytes s) = MAX_CHUNK_SIZE"
  shows "case y of (s', r) \<Rightarrow> hb_inv B (ew_bytes s') \<and> hb_cap B (ew_bytes s') = MAX_CHUNK_SIZE \<and>
    ew_encryptor s' = ew_encryptor s \<and> ew_is_flushing s' = ew_is_flushing s \<and>
    sent (ew_writer s') @ hb_data B (ew_bytes s') = sent (ew_writer s) @ hb_data B (ew_bytes s) \<and>
    (r = Ready (Ok ()) \<longrightarrow> hb_data B (ew_bytes s') = []) \<and> (\<forall>q. r \<noteq> Ready (Panic q))"
  using assms
proof (induction p B' W' s y rule: write_out.raw_induct [rotated, consumes 1, case_names step])
  case (step rec p B' W' s y)
  note inv = step.prems(3)
  have body: "B' = B" "W' = W" and cap: "hb_cap B (ew_bytes s) = MAX_CHUNK_SIZE" by fact+
  obtain w r where wr: "aw_poll_write W (ew_writer s) (hb_data B (ew_bytes s)) = (w, r)" by fastforce
  show ?case
  proof (cases "hb_data B (ew_bytes s) \<noteq> [] \<and> (\<exists>n. r = Ready (Ok n))")
    case True
    then obtain n where n: "r = Ready (Ok n)" by blast
    note ok = write_ok [OF wr [unfolded n]]
    have "hb_cap B (ew_bytes s) < 2 ^ 64" using cap by (simp add: MAX_CHUNK_SIZE_def)
    then obtain h where h: "(advance_cursor p B (ew_bytes s) n :: (io_error, 'b helper_buf) res) = Ok h" "hb_inv B h"
      "hb_data B h = drop n (hb_data B (ew_bytes s))" "hb_cap B h = hb_cap B (ew_bytes s)"
      using advance_cursor_ok [OF inv] ok by blast
    have "rec p B W (s\<lparr>ew_writer := w, ew_bytes := h\<rparr>) = Some y"
      using step.hyps True wr n h(1) by (simp add: data_Ok [OF inv] body)
    from step.IH [OF this] show ?thesis using h ok cap by (simp add: case_prod_beta body)
  next
    case False
    then show ?thesis
      using step.hyps wr inv cap write_pending write_err write_no_panic
      by (auto simp: data_Ok [OF inv] body split: poll.splits res.splits if_splits)
  qed
qed

lemma write_out_returns:
  assumes "takes_some W" and "hb_inv B (ew_bytes s)" and "hb_cap B (ew_bytes s) = MAX_CHUNK_SIZE"
  shows "\<exists>y. write_out p B W s = Some y"
  using assms(2,3)
proof (induction "length (hb_data B (ew_bytes s))" arbitrary: s rule: less_induct)
  case less
  note inv = less.prems(1)
  obtain w r where wr: "aw_poll_write W (ew_writer s) (hb_data B (ew_bytes s)) = (w, r)" by fastforce
  show ?case
  proof (cases "hb_data B (ew_bytes s) \<noteq> [] \<and> (\<exists>n. r = Ready (Ok n))")
    case True
    then obtain n where n: "r = Ready (Ok n)" by blast
    have pos: "0 < n" "n \<le> length (hb_data B (ew_bytes s))"
      using assms(1) wr n True write_ok by (auto simp: takes_some_def)
    have "hb_cap B (ew_bytes s) < 2 ^ 64" using less.prems(2) by (simp add: MAX_CHUNK_SIZE_def)
    then obtain h where h: "(advance_cursor p B (ew_bytes s) n :: (io_error, 'b helper_buf) res) = Ok h" "hb_inv B h"
      "hb_data B h = drop n (hb_data B (ew_bytes s))" "hb_cap B h = hb_cap B (ew_bytes s)"
      using advance_cursor_ok [OF inv] pos by blast
    have "write_out p B W s = write_out p B W (s\<lparr>ew_writer := w, ew_bytes := h\<rparr>)"
      using True wr n h(1) by (simp add: write_out.simps [of p B W s] data_Ok [OF inv])
    then show ?thesis using less.hyps [of "s\<lparr>ew_writer := w, ew_bytes := h\<rparr>"] h pos True less.prems(2) by simp
  next
    case False
    then show ?thesis
      using wr by (auto simp: write_out.simps [of p B W s] data_Ok [OF inv] split: poll.splits res.splits)
  qed
qed

lemma rel_collecting:
  "\<not> ew_is_flushing s \<Longrightarrow>
   writer_rel B A sent e0 base s chunks pending \<longleftrightarrow>
     collecting B A sent e0 base s chunks pending \<and> length pending < MAX_PLAINTEXT"
  by (auto simp: writer_rel_def collecting_def hb_inv_def)

text \<open>Writing out a frame in flight.\<close>

lemma flush_local_partial:
  assumes "writer_rel B A sent e0 base s chunks pending" and "ew_is_flushing s"
    and "poll_flush_local p B W s = Some (s', r)"
  shows "writer_rel B A sent e0 base s' chunks pending \<and> pending = [] \<and>
    (r = Ready (Ok ()) \<longrightarrow> \<not> ew_is_flushing s') \<and> (\<forall>q. r \<noteq> Ready (Panic q)) \<and>
    ew_encryptor s' = ew_encryptor s"
proof -
  obtain t q where wo: "write_out p B W s = Some (t, q)"
    using assms(2,3) by (auto simp: poll_flush_local_def bind_run_Some)
  have inv: "hb_inv B (ew_bytes s)" "hb_cap B (ew_bytes s) = MAX_CHUNK_SIZE"
    using assms(1) by (auto simp: writer_rel_def)
  note out = write_out_partial [OF wo refl refl inv, simplified]
  show ?thesis
  proof (cases "q = Ready (Ok ())")
    case True
    then have s': "s' = t\<lparr>ew_is_flushing := False, ew_bytes := hb_extend B (ew_bytes t) [0, 0, 0, 0]\<rparr>" "r = Ready (Ok ())"
      using assms(2,3) wo by (auto simp: poll_flush_local_def)
    have "bm_bytes B (hb_buf (ew_bytes t)) = []" "hb_cursor (ew_bytes t) = 0"
      using out True hb_data_Nil [of B "ew_bytes t"] by (auto simp: hb_inv_def)
    then show ?thesis
      using assms(1,2) out True s'
      by (auto simp: writer_rel_def hb_extend_def hb_inv_def hb_cap_def hb_data_def buffer_simps MAX_PLAINTEXT_def MAX_CHUNK_SIZE_def)
  next
    case False
    then have "s' = t" "r = q"
      using assms(2,3) wo by (auto simp: poll_flush_local_def bind_run_Some split: poll.splits res.splits)
    then show ?thesis using False assms(1,2) out by (auto simp: writer_rel_def)
  qed
qed

text \<open>Encrypting what was collected.\<close>

lemma start_flushing_ok:
  assumes "collecting B A sent e0 base s chunks pending" and "start_flushing B A s = (s', r)"
  shows "(r = Ok () \<and> ew_is_flushing s' \<and> writer_rel B A sent e0 base s' (chunks @ [pending]) []) \<or>
    (r = Err InvalidData \<and> exhausted A (ew_encryptor s))"
proof -
  let ?b = "hb_buf (ew_bytes s)"
  obtain cts where cts: "encrypt_chunks A e0 chunks = (ew_encryptor s, Some cts)"
    "sent (ew_writer s) = base @ concat (map frame cts)" using assms(1) by (auto simp: collecting_def)
  have bytes: "bm_bytes B ?b = [0, 0, 0, 0] @ pending" "length pending \<le> 8172" "bm_capacity B ?b = 8192"
    "hb_cursor (ew_bytes s) = 0"
    using assms(1) by (auto simp: collecting_def hb_cap_def MAX_CHUNK_SIZE_def MAX_PLAINTEXT_def)
  obtain buf msg where sp: "bm_split_off B ?b 4 = (buf, msg)" by fastforce
  have four: "4 \<le> length (bm_bytes B ?b)" using bytes by simp
  note split = split_bytes [OF four sp] split_capacity [OF four sp]
  obtain e r' where enc: "ae_encrypt A (ew_encryptor s) pending = (e, r')" by fastforce
  show ?thesis
  proof (cases r')
    case None
    then show ?thesis
      using assms(2) bytes split sp enc by (auto simp: start_flushing_def split_off_def exhausted_def intro!: exI [of _ pending])
  next
    case (Some ct)
    have len: "length ct = length pending + 16" using encrypt_length enc Some by simp
    then have st: "length ct \<le> bm_capacity B ?b - 4" using bytes by simp
    have ct: "bm_bytes B (bm_store B msg ct) = ct" using split st bytes by (simp add: store_bytes)
    note joined = split_work_unsplit [OF four sp _ st, of "u32_to_be_bytes (of_nat (length ct))", simplified]
    have "u32_try_from (length ct) = Some (of_nat (length ct))"
      using len bytes by (intro u32_try_from_Some) simp
    then have "s' = s\<lparr>ew_encryptor := e, ew_is_flushing := True,
        ew_bytes := (ew_bytes s)\<lparr>hb_buf := bm_unsplit B (bm_store B buf (u32_to_be_bytes (of_nat (length ct)))) (bm_store B msg ct)\<rparr>\<rparr>"
      "r = Ok ()"
      using assms(2) bytes split sp enc Some ct by (auto simp: start_flushing_def split_off_def)
    moreover have "encrypt_chunks A e0 (chunks @ [pending]) = (e, Some (cts @ [ct]))"
      using cts enc Some by (simp add: encrypt_chunks_append)
    ultimately show ?thesis
      using assms(1) cts(2) joined bytes
      by (auto simp: writer_rel_def collecting_def hb_inv_def hb_cap_def hb_data_def frame_def MAX_PLAINTEXT_def)
  qed
qed

lemma collecting_spare:
  assumes "collecting B A sent e0 base s chunks pending"
  shows "spare_capacity_len B (ew_bytes s) = CIPHERTEXT_OVERHEAD + (MAX_PLAINTEXT - length pending)"
  using assms
  by (simp add: collecting_def spare_capacity_len_def hb_cap_def MAX_CHUNK_SIZE_def MAX_PLAINTEXT_def CIPHERTEXT_OVERHEAD_def)

lemma collecting_extend:
  assumes "collecting B A sent e0 base s chunks pending" and "length pending + length xs \<le> MAX_PLAINTEXT"
  shows "collecting B A sent e0 base (s\<lparr>ew_bytes := hb_extend B (ew_bytes s) xs\<rparr>) chunks (pending @ xs)"
  using assms by (auto simp: collecting_def hb_extend_def hb_cap_def buffer_simps MAX_CHUNK_SIZE_def MAX_PLAINTEXT_def)

text \<open>The part of \<open>poll_write\<close> after the frame in flight is gone.\<close>

lemma poll_write_collecting:
  assumes "writer_rel B A sent e0 base s chunks pending" and "\<not> ew_is_flushing s"
    and "poll_write p B A W s buf = Some (s', r)"
  shows "(\<exists>n chunks' pending'. r = Ready (Ok n) \<and> n \<le> length buf \<and> (buf \<noteq> [] \<longrightarrow> 0 < n) \<and>
      writer_rel B A sent e0 base s' chunks' pending' \<and>
      concat chunks' @ pending' = concat chunks @ pending @ take n buf) \<or>
    r = Ready (Err InvalidData) \<and> exhausted A (ew_encryptor s)"
proof -
  have col: "collecting B A sent e0 base s chunks pending" and less: "length pending < MAX_PLAINTEXT"
    using assms(1,2) by (simp_all add: rel_collecting)
  define n where "n = min (length buf) (MAX_PLAINTEXT - length pending)"
  define t where "t = s\<lparr>ew_bytes := hb_extend B (ew_bytes s) (take n buf)\<rparr>"
  have n: "n \<le> length buf" "buf \<noteq> [] \<longrightarrow> 0 < n" using less by (auto simp: n_def)
  have colt: "collecting B A sent e0 base t chunks (pending @ take n buf)"
    unfolding t_def by (rule collecting_extend [OF col]) (use less in \<open>auto simp: n_def\<close>)
  have cap: "bm_capacity B (hb_buf (ew_bytes s)) = MAX_CHUNK_SIZE" using col by (simp add: collecting_def hb_cap_def)
  have run: "poll_write p B A W s buf =
      bind_run (if spare_capacity_len B (ew_bytes t) = CIPHERTEXT_OVERHEAD
                then done_run (start_flushing B A t) else Some (t, Ready (Ok ()))) (\<lambda>s _. Some (s, Ready (Ok n)))"
    using assms(2) by (simp add: poll_write_def cap collecting_spare [OF col] usize_sub_Ok n_def t_def Let_def)
  show ?thesis
  proof (cases "length (pending @ take n buf) = MAX_PLAINTEXT")
    case True
    obtain u q where st: "start_flushing B A t = (u, q)" by fastforce
    have "poll_write p B A W s buf = bind_run (Some (u, Ready q)) (\<lambda>s _. Some (s, Ready (Ok n)))"
      using run True st by (simp add: collecting_spare [OF colt])
    then have "(r = Ready (Ok n) \<and> writer_rel B A sent e0 base s' (chunks @ [pending @ take n buf]) []) \<or>
        r = Ready (Err InvalidData) \<and> exhausted A (ew_encryptor s)"
      using start_flushing_ok [OF colt st] assms(3) by (auto simp: t_def)
    then show ?thesis
      using n by (auto intro!: exI [of _ "chunks @ [pending @ take n buf]"] exI [of _ "[] :: u8 list"])
  next
    case False
    then have lt: "length (pending @ take n buf) < MAX_PLAINTEXT" using colt by (simp add: collecting_def)
    then have "spare_capacity_len B (ew_bytes t) \<noteq> CIPHERTEXT_OVERHEAD"
      unfolding collecting_spare [OF colt] by linarith
    then have "s' = t" "r = Ready (Ok n)" using run assms(3) by auto
    moreover have "writer_rel B A sent e0 base t chunks (pending @ take n buf)"
      using colt lt rel_collecting [of t] by (simp add: t_def assms(2))
    ultimately show ?thesis using n by fastforce
  qed
qed

lemma poll_write_partial:
  assumes "writer_rel B A sent e0 base s chunks pending" and "poll_write p B A W s buf = Some (s', r)"
  shows "(\<exists>n chunks' pending'. r = Ready (Ok n) \<and> n \<le> length buf \<and> (buf \<noteq> [] \<longrightarrow> 0 < n) \<and>
      writer_rel B A sent e0 base s' chunks' pending' \<and>
      concat chunks' @ pending' = concat chunks @ pending @ take n buf) \<or>
    (r = Pending \<or> (\<exists>e. r = Ready (Err e))) \<and> writer_rel B A sent e0 base s' chunks pending \<or>
    r = Ready (Err InvalidData) \<and> exhausted A (ew_encryptor s)"
proof (cases "ew_is_flushing s")
  case True
  have cap: "bm_capacity B (hb_buf (ew_bytes s)) = MAX_CHUNK_SIZE" using assms(1) by (simp add: writer_rel_def hb_cap_def)
  obtain t q where fl: "poll_flush_local p B W s = Some (t, q)"
    using assms(2) True by (auto simp: poll_write_def cap bind_run_Some)
  note rel = flush_local_partial [OF assms(1) True fl]
  show ?thesis
  proof (cases "q = Ready (Ok ())")
    case ok: True
    have nf: "\<not> ew_is_flushing t" using rel ok by simp
    have "bm_capacity B (hb_buf (ew_bytes t)) = MAX_CHUNK_SIZE" using rel by (simp add: writer_rel_def hb_cap_def)
    then have "poll_write p B A W s buf = poll_write p B A W t buf"
      using True nf fl ok cap by (simp add: poll_write_def)
    then show ?thesis using poll_write_collecting [OF _ nf, of e0 base chunks pending p buf s' r] rel assms(2) by auto
  next
    case False
    have "s' = t \<and> ((r = Pending \<and> q = Pending) \<or> (\<exists>e. r = Ready (Err e)))"
      using assms(2) True fl rel False
      by (cases q; cases "case q of Ready x \<Rightarrow> x") (auto simp: poll_write_def cap)
    then show ?thesis using rel by blast
  qed
next
  case False
  from poll_write_collecting [OF assms(1) False assms(2)] show ?thesis by blast
qed

lemma poll_flush_exact:
  assumes "writer_rel B A sent e0 base s chunks pending" and "poll_flush p B A W s = Some (s', r)"
  shows "writer_rel B A sent e0 base s' (if ew_is_flushing s then chunks else chunks @ [pending]) [] \<and>
      (r = Ready (Ok ()) \<longrightarrow> \<not> ew_is_flushing s') \<and> (\<forall>q. r \<noteq> Ready (Panic q)) \<or>
    r = Ready (Err InvalidData) \<and> exhausted A (ew_encryptor s)"
proof -
  define out where "out t = bind_run (if ew_is_flushing t then poll_flush_local p B W t else Some (t, Ready (Ok ()))) (\<lambda>s _.
       case aw_poll_flush W (ew_writer s) of (w, r) \<Rightarrow> Some (s\<lparr>ew_writer := w\<rparr>, r))" for t :: "('w, 'e, 'b) encrypted_writer"
  have send: "writer_rel B A sent e0 base s' chs [] \<and> (r = Ready (Ok ()) \<longrightarrow> \<not> ew_is_flushing s') \<and>
      (\<forall>q. r \<noteq> Ready (Panic q))"
    if rel: "writer_rel B A sent e0 base t chs []" and fl: "ew_is_flushing t" and o: "out t = Some (s', r)" for t chs
  proof -
    obtain u q where u: "poll_flush_local p B W t = Some (u, q)" using o fl by (auto simp: out_def bind_run_Some)
    note fp = flush_local_partial [OF rel fl u]
    show ?thesis
    proof (cases "q = Ready (Ok ())")
      case True
      then have "s' = u\<lparr>ew_writer := fst (aw_poll_flush W (ew_writer u))\<rparr>" "r = snd (aw_poll_flush W (ew_writer u))"
        using o fl u by (auto simp: out_def split: prod.splits)
      then show ?thesis using fp True flush_sent [of "ew_writer u"] flush_no_panic [of "ew_writer u"]
        by (auto simp: writer_rel_def)
    next
      case False
      then have "s' = u" "r = q"
        using o fl u by (auto simp: out_def bind_run_Some split: poll.splits res.splits)
      then show ?thesis using fp False by simp
    qed
  qed
  show ?thesis
  proof (cases "ew_is_flushing s")
    case True
    then have "out s = Some (s', r)" "pending = []"
      using assms by (auto simp: poll_flush_def out_def writer_rel_def)
    then show ?thesis using send [of s chunks] assms(1) True by simp
  next
    case False
    have col: "collecting B A sent e0 base s chunks pending" using assms(1) False by (simp add: rel_collecting)
    have inv: "hb_inv B (ew_bytes s)" using assms(1) by (simp add: writer_rel_def)
    have ne: "hb_data B (ew_bytes s) \<noteq> []" using col by (simp add: collecting_def hb_data_def)
    obtain t q where st: "start_flushing B A s = (t, q)" by fastforce
    have run: "bind_run (Some (t, Ready q)) (\<lambda>s _. out s) = Some (s', r)"
      using assms(2) False ne st by (simp add: poll_flush_def out_def data_Ok [OF inv])
    from start_flushing_ok [OF col st] show ?thesis
    proof
      assume q: "q = Ok () \<and> ew_is_flushing t \<and> writer_rel B A sent e0 base t (chunks @ [pending]) []"
      then have "out t = Some (s', r)" using run by simp
      with q have "writer_rel B A sent e0 base s' (chunks @ [pending]) [] \<and> (r = Ready (Ok ()) \<longrightarrow> \<not> ew_is_flushing s') \<and>
        (\<forall>q. r \<noteq> Ready (Panic q))" by (intro send) auto
      then show ?thesis using False by simp
    next
      assume "q = Err InvalidData \<and> exhausted A (ew_encryptor s)"
      then show ?thesis using run by simp
    qed
  qed
qed

lemma poll_flush_partial:
  assumes "writer_rel B A sent e0 base s chunks pending" and "poll_flush p B A W s = Some (s', r)"
  shows "(\<exists>chunks' pending'. writer_rel B A sent e0 base s' chunks' pending' \<and>
      concat chunks' @ pending' = concat chunks @ pending \<and>
      (r = Ready (Ok ()) \<longrightarrow> pending' = [] \<and> \<not> ew_is_flushing s') \<and> (\<forall>q. r \<noteq> Ready (Panic q))) \<or>
    r = Ready (Err InvalidData) \<and> exhausted A (ew_encryptor s)"
proof -
  let ?chs = "if ew_is_flushing s then chunks else chunks @ [pending]"
  have "concat ?chs @ [] = concat chunks @ pending" using assms(1) by (auto simp: writer_rel_def)
  then show ?thesis using poll_flush_exact [OF assms] by blast
qed

lemma poll_shutdown_partial:
  assumes "writer_rel B A sent e0 base s chunks pending" and "poll_shutdown p B A W s = Some (s', r)"
    and "\<And>e. r \<noteq> Ready (Err e)"
  shows "\<exists>chunks' pending'. writer_rel B A sent e0 base s' chunks' pending' \<and>
      concat chunks' @ pending' = concat chunks @ pending \<and>
      (r = Ready (Ok ()) \<longrightarrow> pending' = [] \<and> \<not> ew_is_flushing s') \<and> (\<forall>q. r \<noteq> Ready (Panic q))"
proof -
  obtain t q where fl: "poll_flush p B A W s = Some (t, q)"
    using assms(2) by (auto simp: poll_shutdown_def bind_run_Some)
  show ?thesis
  proof (cases "q = Ready (Ok ())")
    case True
    then have "s' = t\<lparr>ew_writer := fst (aw_poll_shutdown W (ew_writer t))\<rparr>" "r = snd (aw_poll_shutdown W (ew_writer t))"
      using assms(2) fl by (auto simp: poll_shutdown_def split: prod.splits)
    moreover obtain chs where "writer_rel B A sent e0 base t chs []" "concat chs = concat chunks @ pending"
      "\<not> ew_is_flushing t"
      using poll_flush_partial [OF assms(1) fl] True by auto
    ultimately show ?thesis using shutdown_sent [of "ew_writer t"] shutdown_no_panic [of "ew_writer t"]
      by (intro exI [of _ chs] exI [of _ "[]"]) (auto simp: writer_rel_def)
  next
    case False
    then have "s' = t" "r = q"
      using assms(2) fl by (auto simp: poll_shutdown_def bind_run_Some split: poll.splits res.splits)
    then show ?thesis using poll_flush_partial [OF assms(1) fl] assms(3) False by fastforce
  qed
qed

lemma writer_session_rel:
  assumes "writer_rel B A sent e0 base s chunks pending" and "writer_session p B A W s calls = Some (t, bs)"
  shows "\<exists>chunks' pending'. writer_rel B A sent e0 base t chunks' pending' \<and>
    concat chunks' @ pending' = concat chunks @ pending @ bs"
  using assms
proof (induction calls arbitrary: s chunks pending bs)
  case Nil
  then show ?case by auto
next
  case (Cons call calls)
  show ?case
  proof (cases call)
    case (CallWrite buf)
    obtain u r where c: "poll_write p B A W s buf = Some (u, r)"
      using Cons.prems(2) CallWrite by (auto split: option.splits)
    consider (pending) "r = Pending" | (ok) n where "r = Ready (Ok n)"
      using Cons.prems(2) c CallWrite by (auto split: poll.splits res.splits)
    then show ?thesis
    proof cases
      case pending
      then show ?thesis
        using poll_write_partial [OF Cons.prems(1) c] Cons.prems(2) c CallWrite Cons.IH [of u chunks pending bs] by auto
    next
      case (ok n)
      then obtain bs2 where "bs = take n buf @ bs2" and rest: "writer_session p B A W u calls = Some (t, bs2)"
        using Cons.prems(2) c CallWrite by auto
      moreover obtain chs pen where "writer_rel B A sent e0 base u chs pen"
        "concat chs @ pen = concat chunks @ pending @ take n buf"
        using poll_write_partial [OF Cons.prems(1) c] ok by auto
      ultimately show ?thesis using Cons.IH [of u chs pen bs2] by (metis append.assoc)
    qed
  next
    case CallFlush
    obtain u r where c: "poll_flush p B A W s = Some (u, r)"
      using Cons.prems(2) CallFlush by (auto split: option.splits)
    show ?thesis
      using poll_flush_partial [OF Cons.prems(1) c] Cons.prems(2) c CallFlush Cons.IH [of u]
      by (fastforce split: poll.splits res.splits)
  next
    case CallShutdown
    obtain u r where c: "poll_shutdown p B A W s = Some (u, r)"
      using Cons.prems(2) CallShutdown by (auto split: option.splits)
    show ?thesis
      using poll_shutdown_partial [OF Cons.prems(1) c] Cons.prems(2) c CallShutdown Cons.IH [of u]
      by (fastforce split: poll.splits res.splits)
  qed
qed

lemma writer_new_rel:
  assumes "writer_new B A W w key nonce = (w', Ok s)"
  shows "writer_rel B A sent (ae_encryptor A key nonce) (sent w @ nonce) s [] []"
proof -
  obtain w1 u1 where w1: "aw_write_all W w nonce = (w1, Ok u1)"
    using assms unfolding writer_new_def
    by (cases "aw_write_all W w nonce"; cases "snd (aw_write_all W w nonce)") auto
  then obtain u2 where w2: "aw_flush W w1 = (w', Ok u2)"
    using assms unfolding writer_new_def by (cases "aw_flush W w1"; cases "snd (aw_flush W w1)") auto
  have "sent w' = sent w @ nonce" using write_all_ok [OF w1] await_flush_ok [OF w2] by simp
  then show ?thesis
    using assms w1 w2 hb_with_capacity_empty by (auto simp: writer_new_def writer_rel_def)
qed

lemma poll_flush_local_returns:
  assumes "takes_some W" and "writer_rel B A sent e0 base s chunks pending"
  shows "poll_flush_local p B W s \<noteq> None"
proof -
  have "hb_inv B (ew_bytes s)" "hb_cap B (ew_bytes s) = MAX_CHUNK_SIZE" using assms(2) by (auto simp: writer_rel_def)
  then show ?thesis using write_out_returns [OF assms(1), of s p] by (auto simp: poll_flush_local_def bind_run_None)
qed

lemma poll_write_returns:
  assumes "takes_some W" and "writer_rel B A sent e0 base s chunks pending"
  shows "poll_write p B A W s buf \<noteq> None"
  using poll_flush_local_returns [OF assms, of p]
  by (auto simp: poll_write_def bind_run_None Let_def split: if_splits)

lemma poll_flush_returns:
  assumes "takes_some W" and "writer_rel B A sent e0 base s chunks pending"
  shows "poll_flush p B A W s \<noteq> None"
proof (cases "ew_is_flushing s")
  case True
  then show ?thesis
    using poll_flush_local_returns [OF assms, of p] by (auto simp: poll_flush_def bind_run_None split: prod.splits)
next
  case False
  have col: "collecting B A sent e0 base s chunks pending" using assms(2) False by (simp add: rel_collecting)
  obtain t q where st: "start_flushing B A s = (t, q)" by fastforce
  have "poll_flush_local p B W t \<noteq> None" if "q = Ok ()"
    using start_flushing_ok [OF col st] that poll_flush_local_returns [OF assms(1)] by auto
  moreover have inv: "hb_inv B (ew_bytes s)" using assms(2) by (simp add: writer_rel_def)
  moreover have "hb_data B (ew_bytes s) \<noteq> []" using col by (simp add: collecting_def hb_data_def)
  ultimately show ?thesis
    using False st by (auto simp: poll_flush_def bind_run_None data_Ok [OF inv] split: if_splits prod.splits)
qed

lemma poll_shutdown_returns:
  assumes "takes_some W" and "writer_rel B A sent e0 base s chunks pending"
  shows "poll_shutdown p B A W s \<noteq> None"
  using poll_flush_returns [OF assms, of p] by (auto simp: poll_shutdown_def bind_run_None split: prod.splits)

text \<open>An inner writer that takes nothing keeps the loop going forever.\<close>

lemma write_out_stalls:
  assumes "write_out p B' W' s = Some y" and "B' = B" and "W' = W"
    and "hb_inv B (ew_bytes s)" and "hb_cap B (ew_bytes s) = MAX_CHUNK_SIZE" and "hb_data B (ew_bytes s) \<noteq> []"
    and "\<And>w bs. aw_poll_write W w bs = (w, Ready (Ok 0))"
  shows False
  using assms
proof (induction p B' W' s y rule: write_out.raw_induct [rotated, consumes 1, case_names step])
  case (step rec p B' W' s y)
  note inv = step.prems(3)
  have cap: "hb_cap B (ew_bytes s) < 2 ^ 64" using step.prems(4) by (simp add: MAX_CHUNK_SIZE_def)
  obtain h where h: "(advance_cursor p B (ew_bytes s) 0 :: (io_error, 'b helper_buf) res) = Ok h" "hb_inv B h"
      "hb_data B h = hb_data B (ew_bytes s)" "hb_cap B h = hb_cap B (ew_bytes s)"
    using advance_cursor_ok [OF inv _ cap, of 0] by auto
  have "rec p B W (s\<lparr>ew_writer := ew_writer s, ew_bytes := h\<rparr>) = Some y"
    using step.hyps step.prems h(1) by (simp add: data_Ok [OF inv])
  from step.IH [OF this] show ?case using h step.prems by simp
qed

end

lemma writer_rel_views:
  assumes "writer_rel B A sent e0 base s chunks pending"
  shows "pending = collected B s"
    and "\<exists>cts. encrypt_chunks A e0 chunks = (ew_encryptor s, Some cts) \<and>
      sent (ew_writer s) @ unsent B s = base @ concat (map frame cts)"
  using assms by (auto simp: writer_rel_def unsent_def collected_def)

interpretation vec_writer: writer_env list_bytes_mut "\<lambda>_ _. True" counter_aead "(=)" vec_sink "\<lambda>w. w"
  by unfold_locales (auto simp: vec_sink_def min_def)

interpretation closed_writer: writer_env list_bytes_mut "\<lambda>_ _. True" counter_aead "(=)" closed_sink "\<lambda>w. w"
  by unfold_locales (auto simp: closed_sink_def split: if_splits)

section \<open>Properties\<close>

text \<open>
  C4: at any time in the life of a writer, whatever calls were made and however the inner
  writer cut the frames up, the bytes sent and still to be sent are the nonce and then the
  frames of a sequence of encrypted chunks of at most 8172 bytes, and those chunks with the
  collected plaintext are exactly what the calls accepted, in order.
\<close>

theorem writer_stream:
  assumes "writer_env B adj A sync W sent"
    and "writer_new B A W w key nonce = (w', Ok s)"
    and "writer_session p B A W s calls = Some (t, accepted)"
  shows "\<exists>chunks cts. accepted = concat chunks @ collected B t \<and> (\<forall>c \<in> set chunks. length c \<le> 8172) \<and>
    encrypt_chunks A (ae_encryptor A key nonce) chunks = (ew_encryptor t, Some cts) \<and>
    sent (ew_writer t) @ unsent B t = sent w @ nonce @ concat (map frame cts)"
proof -
  obtain chunks pending where rel: "writer_rel B A sent (ae_encryptor A key nonce) (sent w @ nonce) t chunks pending"
    and acc: "concat chunks @ pending = accepted"
    using writer_env.writer_session_rel [OF assms(1) writer_env.writer_new_rel [OF assms(1,2)] assms(3)] by auto
  have "\<forall>c \<in> set chunks. length c \<le> 8172" using rel by (simp add: writer_rel_def MAX_PLAINTEXT_def)
  then show ?thesis using writer_rel_views [OF rel] acc by auto
qed

text \<open>
  C5: when a flush returns \<open>Ok\<close>, everything accepted before it has been encrypted and handed
  to the inner writer, frame after frame.
\<close>

theorem flush_sends_everything:
  assumes "writer_env B adj A sync W sent"
    and "writer_new B A W w key nonce = (w', Ok s)"
    and "writer_session p B A W s calls = Some (t, accepted)"
    and "poll_flush p B A W t = Some (u, Ready (Ok ()))"
  shows "\<exists>chunks cts. accepted = concat chunks \<and>
    snd (encrypt_chunks A (ae_encryptor A key nonce) chunks) = Some cts \<and>
    sent (ew_writer u) = sent w @ nonce @ concat (map frame cts)"
proof -
  obtain chunks pending where rel: "writer_rel B A sent (ae_encryptor A key nonce) (sent w @ nonce) t chunks pending"
    and acc: "concat chunks @ pending = accepted"
    using writer_env.writer_session_rel [OF assms(1) writer_env.writer_new_rel [OF assms(1,2)] assms(3)] by auto
  obtain chs where "writer_rel B A sent (ae_encryptor A key nonce) (sent w @ nonce) u chs []"
    and "concat chs = accepted" and "\<not> ew_is_flushing u"
    using writer_env.poll_flush_partial [OF assms(1) rel assms(4)] acc by auto
  then show ?thesis using writer_rel_views(2) by (fastforce simp: unsent_def)
qed

text \<open>
  C12: \<open>poll_write\<close> on every branch: it accepts a prefix of the buffer (not an empty one), or
  it is pending or reports an I/O error and has accepted nothing, or the encryptor has no
  message number left; it never panics and keeps the buffer's capacity.
\<close>

lemma poll_write_accepts_prefix:
  assumes "writer_env B adj A sync W sent" and "writer_rel B A sent e0 base s chunks pending"
    and "poll_write p B A W s buf = Some (s', r)"
  shows "case r of
      Pending \<Rightarrow> writer_rel B A sent e0 base s' chunks pending
    | Ready (Ok n) \<Rightarrow> n \<le> length buf \<and> (buf \<noteq> [] \<longrightarrow> 0 < n) \<and>
        (\<exists>chunks' pending'. writer_rel B A sent e0 base s' chunks' pending' \<and>
           concat chunks' @ pending' = concat chunks @ pending @ take n buf)
    | Ready (Err e) \<Rightarrow> writer_rel B A sent e0 base s' chunks pending \<or> e = InvalidData \<and> exhausted A (ew_encryptor s)
    | Ready (Panic q) \<Rightarrow> False"
  using writer_env.poll_write_partial [OF assms] by (auto split: poll.splits res.splits)

text \<open>
  C11: with an inner writer that takes at least one byte whenever it accepts a write, every
  call on the writer returns.
\<close>

theorem writer_calls_return:
  assumes "writer_env B adj A sync W sent" and "takes_some W"
    and "writer_rel B A sent e0 base s chunks pending"
  shows "poll_write p B A W s buf \<noteq> None \<and> poll_flush p B A W s \<noteq> None \<and> poll_shutdown p B A W s \<noteq> None"
  using writer_env.poll_write_returns [OF assms] writer_env.poll_flush_returns [OF assms]
    writer_env.poll_shutdown_returns [OF assms] by blast

text \<open>
  An inner writer that keeps returning \<open>Ok(0)\<close>, as a writer does that can take no more
  bytes, is never reported as an error: every call made while a frame is in flight spins
  forever.
\<close>

lemma writer_stalls_on_zero:
  assumes "writer_env B adj A sync W sent" and "writer_rel B A sent e0 base s chunks pending"
    and "unsent B s \<noteq> []" and "\<forall>w bs. aw_poll_write W w bs = (w, Ready (Ok 0))"
  shows "poll_write p B A W s buf = None \<and> poll_flush p B A W s = None"
proof -
  have fl: "ew_is_flushing s" "hb_data B (ew_bytes s) \<noteq> []" using assms(3) by (auto simp: unsent_def split: if_splits)
  have inv: "hb_inv B (ew_bytes s)" "hb_cap B (ew_bytes s) = MAX_CHUNK_SIZE" using assms(2) by (auto simp: writer_rel_def)
  have "write_out p B W s = None"
    using writer_env.write_out_stalls [OF assms(1) _ refl refl inv fl(2), of p] assms(4)
    by (cases "write_out p B W s") auto
  then show ?thesis
    using fl inv(2) by (simp add: poll_write_def poll_flush_def poll_flush_local_def hb_cap_def)
qed

text \<open>
  Flushing a writer that holds no plaintext is not a no-op: the four reserved bytes count
  as data, so every such flush encrypts an empty chunk and puts 20 more bytes on the wire.
\<close>

lemma idle_flush_emits_frame:
  assumes "writer_env B adj A sync W sent" and "writer_rel B A sent e0 base s chunks []"
    and "\<not> ew_is_flushing s" and "poll_flush p B A W s = Some (u, r)" and "\<And>e. r \<noteq> Ready (Err e)"
  shows "length (sent (ew_writer u) @ unsent B u) = length (sent (ew_writer s)) + 20"
proof -
  have "writer_rel B A sent e0 base u (chunks @ [[]]) []"
    using writer_env.poll_flush_exact [OF assms(1,2,4)] assms(3,5) by auto
  from writer_rel_views(2) [OF this] obtain cts' where
    cts': "encrypt_chunks A e0 (chunks @ [[]]) = (ew_encryptor u, Some cts')"
      "sent (ew_writer u) @ unsent B u = base @ concat (map frame cts')" by blast
  from writer_rel_views(2) [OF assms(2)] obtain cts where
    cts: "encrypt_chunks A e0 chunks = (ew_encryptor s, Some cts)"
      "sent (ew_writer s) = base @ concat (map frame cts)" using assms(3) by (auto simp: unsent_def)
  from cts'(1) cts(1) obtain ct where "cts' = cts @ [ct]" and "ae_encrypt A (ew_encryptor s) [] = (ew_encryptor u, Some ct)"
    by (auto simp: encrypt_chunks_append split: prod.splits option.splits)
  moreover from this(2) have "length ct = 16"
    using aead_laws.encrypt_length [of A sync] assms(1) by (fastforce simp: writer_env_def)
  ultimately show ?thesis using cts'(2) cts(2) by simp
qed

section \<open>Concrete instances\<close>

lemmas concrete_defs = list_bytes_mut_def counter_aead_def vec_sink_def closed_sink_def MAX_CHUNK_SIZE_def
  CIPHERTEXT_OVERHEAD_def hb_with_capacity_def hb_extend_def spare_capacity_len_def data_def index_range_def
  advance_cursor_def usize_add_def usize_sub_def split_off_def counter_limit_def counter_mask_def counter_tag_def

lemmas writer_run_defs = fresh_writer_def idle_writer_def stuck_writer_def poll_write_def poll_flush_def
  poll_flush_local_def write_out.simps start_flushing_def u32_try_from_def u32_to_be_bytes_def

lemma fresh_writer_new:
  "writer_new list_bytes_mut counter_aead vec_sink [] [9] [1, 2, 3, 4, 5, 6, 7, 8] = ([1, 2, 3, 4, 5, 6, 7, 8], Ok fresh_writer)"
  by (simp add: writer_new_def fresh_writer_def vec_sink_def)

lemma fresh_writer_rel:
  "writer_rel list_bytes_mut counter_aead (\<lambda>w. w) (ew_encryptor fresh_writer) [1, 2, 3, 4, 5, 6, 7, 8] fresh_writer [] []"
  using vec_writer.writer_new_rel [OF fresh_writer_new] by (simp add: fresh_writer_def)

lemma fresh_writer_session:
  "\<exists>t u. writer_session Debug list_bytes_mut counter_aead vec_sink fresh_writer [CallWrite [65, 66, 67]] = Some (t, [65, 66, 67]) \<and>
    poll_flush Debug list_bytes_mut counter_aead vec_sink t = Some (u, Ready (Ok ()))"
  by (simp add: writer_run_defs concrete_defs)

theorem writer_stream_witness:
  "\<exists>t chunks cts. [65, 66, 67] = concat chunks @ collected list_bytes_mut t \<and> (\<forall>c \<in> set chunks. length c \<le> 8172) \<and>
    encrypt_chunks counter_aead (ae_encryptor counter_aead [9] [1, 2, 3, 4, 5, 6, 7, 8]) chunks = (ew_encryptor t, Some cts) \<and>
    ew_writer t @ unsent list_bytes_mut t = [] @ [1, 2, 3, 4, 5, 6, 7, 8] @ concat (map frame cts)"
proof -
  obtain t where "writer_session Debug list_bytes_mut counter_aead vec_sink fresh_writer [CallWrite [65, 66, 67]] = Some (t, [65, 66, 67])"
    using fresh_writer_session by blast
  from writer_stream [OF vec_writer.writer_env_axioms fresh_writer_new this] show ?thesis by blast
qed

theorem flush_sends_everything_witness:
  "\<exists>u chunks cts. [65, 66, 67] = concat chunks \<and>
    snd (encrypt_chunks counter_aead (ae_encryptor counter_aead [9] [1, 2, 3, 4, 5, 6, 7, 8]) chunks) = Some cts \<and>
    ew_writer (u :: (u8 list, u8 \<times> nat, list_buf) encrypted_writer) = [] @ [1, 2, 3, 4, 5, 6, 7, 8] @ concat (map frame cts)"
proof -
  obtain t u where
    "writer_session Debug list_bytes_mut counter_aead vec_sink fresh_writer [CallWrite [65, 66, 67]] = Some (t, [65, 66, 67])"
    "poll_flush Debug list_bytes_mut counter_aead vec_sink t = Some (u, Ready (Ok ()))"
    using fresh_writer_session by blast
  from flush_sends_everything [OF vec_writer.writer_env_axioms fresh_writer_new this] show ?thesis by blast
qed

theorem writer_calls_return_witness:
  "poll_write Debug list_bytes_mut counter_aead vec_sink fresh_writer [65] \<noteq> None \<and>
   poll_flush Debug list_bytes_mut counter_aead vec_sink fresh_writer \<noteq> None \<and>
   poll_shutdown Debug list_bytes_mut counter_aead vec_sink fresh_writer \<noteq> None"
  by (rule writer_calls_return [OF vec_writer.writer_env_axioms _ fresh_writer_rel])
    (auto simp: takes_some_def vec_sink_def)

lemma idle_writer_rel:
  "writer_rel list_bytes_mut counter_aead (\<lambda>w. w) (ew_encryptor fresh_writer) [1, 2, 3, 4, 5, 6, 7, 8] idle_writer [] []"
  by (simp add: writer_rel_def idle_writer_def fresh_writer_def hb_inv_def hb_cap_def MAX_PLAINTEXT_def concrete_defs)

lemma stuck_writer_rel:
  "writer_rel list_bytes_mut counter_aead (\<lambda>w. w) (ew_encryptor fresh_writer) [1, 2, 3, 4, 5, 6, 7, 8] stuck_writer [[]] []"
proof -
  have "collecting list_bytes_mut counter_aead (\<lambda>w. w) (ew_encryptor fresh_writer) [1, 2, 3, 4, 5, 6, 7, 8] idle_writer [] []"
    using idle_writer_rel closed_writer.rel_collecting by (simp add: idle_writer_def)
  from closed_writer.start_flushing_ok [OF this prod.collapse [symmetric]] show ?thesis
    by (auto simp: stuck_writer_def exhausted_def idle_writer_def fresh_writer_def counter_aead_def counter_limit_def)
qed

end
