(* ===== verification/Encrypted_Reader.thy ===== *)
theory Encrypted_Reader
  imports Helper_Buf Aead_Stream
begin

text \<open>
  \<open>EncryptedReader\<close> of \<^verbatim>\<open>gday_encryption/src/reader.rs\<close>: ciphertext is read into a buffer of
  16384 bytes, every complete frame in it is decrypted into the 8192 byte cleartext buffer as
  long as there is room, and the owner of the reader takes cleartext from there.

  The inner reader is a parameter (\<open>async_read\<close>, laws in \<open>async_source\<close> over the bytes still
  to arrive). The abstract view \<open>reader_rel\<close> is a queue of plaintext: what is in the cleartext
  buffer, followed by the chunks that the bytes in the ciphertext buffer and the bytes to
  arrive decrypt to.
\<close>

section \<open>The inner reader\<close>

text \<open>
  \<open>ar_poll_read r n\<close> is \<open>poll_read\<close> with a \<open>ReadBuf\<close> that has room for \<open>n\<close> bytes; the result holds
  the bytes it put there.
\<close>

record 'r async_read =
  ar_poll_read :: "'r \<Rightarrow> nat \<Rightarrow> 'r \<times> (io_error, u8 list) res poll"
  ar_read_exact :: "'r \<Rightarrow> nat \<Rightarrow> 'r \<times> (io_error, u8 list) res"

section \<open>The reader\<close>

definition peek_cipher_chunk :: "'b bytes_mut \<Rightarrow> 'b helper_buf \<Rightarrow> ('e, u8 list option) res" where
  "peek_cipher_chunk B h =
     bind_res (data B h) (\<lambda>d.
       case get_range d 0 4 of
         Some len \<Rightarrow> let len = unat (u32_from_be_bytes len) in Ok (get_range d 4 (4 + len))
       | None \<Rightarrow> Ok None)"

record ('r, 'd, 'b) encrypted_reader =
  er_reader :: 'r
  er_decryptor :: 'd
  er_cleartext :: "'b helper_buf"
  er_ciphertext :: "'b helper_buf"

definition reader_new ::
  "'b bytes_mut \<Rightarrow> ('e, 'd) aead_stream \<Rightarrow> 'r async_read \<Rightarrow> 'r \<Rightarrow> u8 list
   \<Rightarrow> 'r \<times> (io_error, ('r, 'd, 'b) encrypted_reader) res" where
  "reader_new B A R reader shared_key =
     bind_st (ar_read_exact R reader 8) (\<lambda>reader nonce.
       (reader, Ok \<lparr>er_reader = reader, er_decryptor = ae_decryptor A shared_key nonce,
                    er_cleartext = hb_with_capacity B MAX_CHUNK_SIZE,
                    er_ciphertext = hb_with_capacity B (MAX_CHUNK_SIZE * 2)\<rparr>))"

definition inner_read ::
  "'b bytes_mut \<Rightarrow> 'r async_read \<Rightarrow> ('r, 'd, 'b) encrypted_reader
   \<Rightarrow> ('r, 'd, 'b) encrypted_reader \<times> (io_error, unit) res poll" where
  "inner_read B R s =
     (let h = er_ciphertext s in
      case ar_poll_read R (er_reader s) (spare_capacity_len B h) of (r, q) \<Rightarrow>
      let s = s\<lparr>er_reader := r\<rparr>
      in case q of
           Pending \<Rightarrow> (s, Pending)
         | Ready (Panic x) \<Rightarrow> (s, Ready (Panic x))
         | Ready (Err e) \<Rightarrow> (s, Ready (Err e))
         | Ready (Ok filled) \<Rightarrow>
             (s\<lparr>er_ciphertext := h\<lparr>hb_buf := bm_store B (hb_buf h) (bm_bytes B (hb_buf h) @ filled)\<rparr>\<rparr>, Ready (Ok ())))"

text \<open>The body of the loop of \<open>decrypt_all_full_chunks\<close> for a chunk there is room for.\<close>

definition decrypt_chunk ::
  "profile \<Rightarrow> 'b bytes_mut \<Rightarrow> ('e, 'd) aead_stream \<Rightarrow> ('r, 'd, 'b) encrypted_reader \<Rightarrow> u8 list
   \<Rightarrow> ('r, 'd, 'b) encrypted_reader \<times> (io_error, unit) res" where
  "decrypt_chunk p B A s msg =
     bind_st (s, split_off B (hb_buf (er_cleartext s)) (length (bm_bytes B (hb_buf (er_cleartext s))))) (\<lambda>s (buf, space).
       let s = s\<lparr>er_cleartext := (er_cleartext s)\<lparr>hb_buf := buf\<rparr>\<rparr>;
           space = bm_extend B space msg
       in bind_st (s, advance_cursor p B (er_ciphertext s) (length msg + 4)) (\<lambda>s h.
            case ae_decrypt A (er_decryptor s) (bm_bytes B space) of (d, r) \<Rightarrow>
            let s = s\<lparr>er_ciphertext := h, er_decryptor := d\<rparr>
            in case r of
                 None \<Rightarrow> (s, Err InvalidData)
               | Some pt \<Rightarrow>
                   (s\<lparr>er_cleartext := (er_cleartext s)\<lparr>hb_buf := bm_unsplit B buf (bm_store B space pt)\<rparr>\<rparr>, Ok ())))"

text \<open>
  The loop: the result says whether it ran until no complete chunk was left (\<open>True\<close>) or the
  function returned because the cleartext buffer has no room for the next one.
\<close>

partial_function (option) decrypt_loop ::
  "profile \<Rightarrow> 'b bytes_mut \<Rightarrow> ('e, 'd) aead_stream \<Rightarrow> ('r, 'd, 'b) encrypted_reader
   \<Rightarrow> (('r, 'd, 'b) encrypted_reader \<times> (io_error, bool) res poll) option" where
  "decrypt_loop p B A s =
     (case peek_cipher_chunk B (er_ciphertext s) of
        Panic q \<Rightarrow> Some (s, Ready (Panic q))
      | Err e \<Rightarrow> Some (s, Ready (Err e))
      | Ok None \<Rightarrow> Some (s, Ready (Ok True))
      | Ok (Some msg) \<Rightarrow>
          if spare_capacity_len B (er_cleartext s) < length msg then Some (s, Ready (Ok False))
          else
            (case decrypt_chunk p B A s msg of
               (s, Panic q) \<Rightarrow> Some (s, Ready (Panic q))
             | (s, Err e) \<Rightarrow> Some (s, Ready (Err e))
             | (s, Ok _) \<Rightarrow> decrypt_loop p B A s))"

definition decrypt_all_full_chunks ::
  "profile \<Rightarrow> 'b bytes_mut \<Rightarrow> ('e, 'd) aead_stream \<Rightarrow> ('r, 'd, 'b) encrypted_reader
   \<Rightarrow> (('r, 'd, 'b) encrypted_reader, unit) run" where
  "decrypt_all_full_chunks p B A s =
     bind_run (decrypt_loop p B A s) (\<lambda>s drained.
       if drained \<and> spare_capacity_len B (er_ciphertext s) = 0
       then bind_run (Some (s, Ready (wrap B (er_ciphertext s)))) (\<lambda>s h. Some (s\<lparr>er_ciphertext := h\<rparr>, Ready (Ok ())))
       else Some (s, Ready (Ok ())))"

text \<open>One round of the loop of \<open>read_if_necessary\<close>: it returns, breaks out or goes on.\<close>

datatype round = ReturnEof | Break | Continue

definition read_round ::
  "profile \<Rightarrow> 'b bytes_mut \<Rightarrow> ('e, 'd) aead_stream \<Rightarrow> 'r async_read \<Rightarrow> ('r, 'd, 'b) encrypted_reader
   \<Rightarrow> (('r, 'd, 'b) encrypted_reader, round) run" where
  "read_round p B A R s =
     (case inner_read B R s of
        (s, Pending) \<Rightarrow>
          bind_run (Some (s, Ready (data B (er_cleartext s)))) (\<lambda>s clear.
            if clear = [] then Some (s, Pending) else Some (s, Ready (Ok Break)))
      | (s, Ready q) \<Rightarrow>
          bind_run (Some (s, Ready q)) (\<lambda>s _.
          bind_run (Some (s, Ready (data B (er_ciphertext s)))) (\<lambda>s cipher.
          bind_run (if cipher = [] then Some (s, Ready (data B (er_cleartext s))) else Some (s, Ready (Ok cipher))) (\<lambda>s rest.
            if cipher = [] \<and> rest = [] then Some (s, Ready (Ok ReturnEof))
            else bind_run (decrypt_all_full_chunks p B A s) (\<lambda>s _. Some (s, Ready (Ok Continue)))))))"

partial_function (option) read_loop ::
  "profile \<Rightarrow> 'b bytes_mut \<Rightarrow> ('e, 'd) aead_stream \<Rightarrow> 'r async_read \<Rightarrow> nat \<Rightarrow> ('r, 'd, 'b) encrypted_reader
   \<Rightarrow> (('r, 'd, 'b) encrypted_reader \<times> (io_error, bool) res poll) option" where
  "read_loop p B A R bytes_amount s =
     (case data B (er_cleartext s) of
        Panic q \<Rightarrow> Some (s, Ready (Panic q))
      | Err e \<Rightarrow> Some (s, Ready (Err e))
      | Ok clear \<Rightarrow>
          if length clear < bytes_amount \<and> spare_capacity_len B (er_ciphertext s) \<noteq> 0
          then
            (case read_round p B A R s of
               None \<Rightarrow> None
             | Some (s, Pending) \<Rightarrow> Some (s, Pending)
             | Some (s, Ready (Panic q)) \<Rightarrow> Some (s, Ready (Panic q))
             | Some (s, Ready (Err e)) \<Rightarrow> Some (s, Ready (Err e))
             | Some (s, Ready (Ok ReturnEof)) \<Rightarrow> Some (s, Ready (Ok True))
             | Some (s, Ready (Ok Break)) \<Rightarrow> Some (s, Ready (Ok False))
             | Some (s, Ready (Ok Continue)) \<Rightarrow> read_loop p B A R bytes_amount s)
          else Some (s, Ready (Ok False)))"

definition read_if_necessary ::
  "profile \<Rightarrow> 'b bytes_mut \<Rightarrow> ('e, 'd) aead_stream \<Rightarrow> 'r async_read \<Rightarrow> ('r, 'd, 'b) encrypted_reader
   \<Rightarrow> nat option \<Rightarrow> (('r, 'd, 'b) encrypted_reader, bool) run" where
  "read_if_necessary p B A R s wanted_bytes =
     bind_run (Some (s, Ready (debug_assert p (bm_capacity B (hb_buf (er_cleartext s)) = MAX_CHUNK_SIZE)))) (\<lambda>s _.
     bind_run (Some (s, Ready (debug_assert p (bm_capacity B (hb_buf (er_ciphertext s)) = 2 * MAX_CHUNK_SIZE)))) (\<lambda>s _.
       let capacity = bm_capacity B (hb_buf (er_cleartext s));
           bytes_amount = (case wanted_bytes of None \<Rightarrow> capacity | Some wanted \<Rightarrow> min capacity wanted)
       in bind_run (decrypt_all_full_chunks p B A s) (\<lambda>s _.
          bind_run (read_loop p B A R bytes_amount s) (\<lambda>s is_eof.
            if is_eof then Some (s, Ready (Ok True))
            else
              bind_run (Some (s, Ready (if p = Debug then bind_res (data B (er_cleartext s)) (\<lambda>d. debug_assert p (d \<noteq> []))
                                        else Ok ()))) (\<lambda>s _.
                Some (s, Ready (Ok False)))))))"

text \<open>\<open>poll_read\<close> with room for \<open>remaining\<close> bytes; the result holds the bytes put in the buffer.\<close>

definition poll_read ::
  "profile \<Rightarrow> 'b bytes_mut \<Rightarrow> ('e, 'd) aead_stream \<Rightarrow> 'r async_read \<Rightarrow> ('r, 'd, 'b) encrypted_reader
   \<Rightarrow> nat \<Rightarrow> (('r, 'd, 'b) encrypted_reader, u8 list) run" where
  "poll_read p B A R s remaining =
     bind_run (read_if_necessary p B A R s (Some remaining)) (\<lambda>s is_eof.
       if is_eof then Some (s, Ready (Ok []))
       else
         bind_run (Some (s, Ready (data B (er_cleartext s)))) (\<lambda>s chunk.
           let num_bytes = min remaining (length chunk)
           in bind_run (Some (s, Ready (advance_cursor p B (er_cleartext s) num_bytes))) (\<lambda>s h.
                Some (s\<lparr>er_cleartext := h\<rparr>, Ready (Ok (take num_bytes chunk))))))"

definition poll_fill_buf ::
  "profile \<Rightarrow> 'b bytes_mut \<Rightarrow> ('e, 'd) aead_stream \<Rightarrow> 'r async_read \<Rightarrow> ('r, 'd, 'b) encrypted_reader
   \<Rightarrow> (('r, 'd, 'b) encrypted_reader, u8 list) run" where
  "poll_fill_buf p B A R s =
     bind_run (read_if_necessary p B A R s None) (\<lambda>s is_eof.
       if is_eof then Some (s, Ready (Ok [])) else Some (s, Ready (data B (er_cleartext s))))"

definition consume ::
  "profile \<Rightarrow> 'b bytes_mut \<Rightarrow> ('r, 'd, 'b) encrypted_reader \<Rightarrow> nat \<Rightarrow> (io_error, ('r, 'd, 'b) encrypted_reader) res" where
  "consume p B s amt = bind_res (advance_cursor p B (er_cleartext s) amt) (\<lambda>h. Ok (s\<lparr>er_cleartext := h\<rparr>))"

section \<open>The abstract view\<close>

text \<open>
  \<open>reader_at B A incoming s cts pts tail\<close>: the ciphertext in the buffer, the bytes to arrive and
  a tail that never arrives are the frames of \<open>cts\<close>, and \<open>cts\<close> decrypts to \<open>pts\<close>. The length of
  a ciphertext is bounded by what a writer puts in one frame.
\<close>

definition MAX_CIPHERTEXT :: nat where
  "MAX_CIPHERTEXT = 8188"

definition reader_at ::
  "'b bytes_mut \<Rightarrow> ('e, 'd) aead_stream \<Rightarrow> ('r \<Rightarrow> u8 list) \<Rightarrow> ('r, 'd, 'b) encrypted_reader
   \<Rightarrow> u8 list list \<Rightarrow> u8 list list \<Rightarrow> u8 list \<Rightarrow> bool" where
  "reader_at B A incoming s cts pts tail \<longleftrightarrow>
     hb_inv B (er_cleartext s) \<and> hb_inv B (er_ciphertext s) \<and>
     hb_cap B (er_cleartext s) = MAX_CHUNK_SIZE \<and> hb_cap B (er_ciphertext s) = 2 * MAX_CHUNK_SIZE \<and>
     decrypt_chunks A (er_decryptor s) cts = Some pts \<and> (\<forall>ct \<in> set cts. length ct \<le> MAX_CIPHERTEXT) \<and>
     hb_data B (er_ciphertext s) @ incoming (er_reader s) @ tail = concat (map frame cts)"

definition reader_rel ::
  "'b bytes_mut \<Rightarrow> ('e, 'd) aead_stream \<Rightarrow> ('r \<Rightarrow> u8 list) \<Rightarrow> ('r, 'd, 'b) encrypted_reader
   \<Rightarrow> u8 list list \<Rightarrow> u8 list \<Rightarrow> bool" where
  "reader_rel B A incoming s pts tail \<longleftrightarrow> (\<exists>cts. reader_at B A incoming s cts pts tail)"

text \<open>The plaintext that the reader still has to deliver.\<close>

definition undelivered :: "'b bytes_mut \<Rightarrow> ('r, 'd, 'b) encrypted_reader \<Rightarrow> u8 list list \<Rightarrow> u8 list" where
  "undelivered B s pts = hb_data B (er_cleartext s) @ concat pts"

text \<open>Nothing is buffered and nothing is to arrive.\<close>

definition at_end :: "'b bytes_mut \<Rightarrow> ('r \<Rightarrow> u8 list) \<Rightarrow> ('r, 'd, 'b) encrypted_reader \<Rightarrow> bool" where
  "at_end B incoming s \<longleftrightarrow> hb_data B (er_cleartext s) = [] \<and> hb_data B (er_ciphertext s) = [] \<and> incoming (er_reader s) = []"

text \<open>What the result of \<open>read_if_necessary\<close> says of the state it leaves.\<close>

fun read_outcome :: "'b bytes_mut \<Rightarrow> ('r \<Rightarrow> u8 list) \<Rightarrow> ('r, 'd, 'b) encrypted_reader \<Rightarrow> (io_error, bool) res poll \<Rightarrow> bool" where
  "read_outcome B incoming s Pending = (hb_data B (er_cleartext s) = [])"
| "read_outcome B incoming s (Ready (Ok True)) = at_end B incoming s"
| "read_outcome B incoming s (Ready (Ok False)) = (hb_data B (er_cleartext s) \<noteq> [])"
| "read_outcome B incoming s (Ready (Err e)) = True"
| "read_outcome B incoming s (Ready (Panic q)) = False"

text \<open>An inner reader that never reports the end of its stream.\<close>

definition never_eof :: "'r async_read \<Rightarrow> bool" where
  "never_eof R \<longleftrightarrow> (\<forall>r n r'. 0 < n \<longrightarrow> ar_poll_read R r n \<noteq> (r', Ready (Ok [])))"

text \<open>What one round of reading says of the states before and after it.\<close>

fun round_outcome ::
  "'b bytes_mut \<Rightarrow> 'r async_read \<Rightarrow> ('r \<Rightarrow> u8 list) \<Rightarrow> ('r, 'd, 'b) encrypted_reader \<Rightarrow> ('r, 'd, 'b) encrypted_reader
   \<Rightarrow> (io_error, round) res poll \<Rightarrow> bool" where
  "round_outcome B R incoming s s' Pending = (hb_data B (er_cleartext s') = [])"
| "round_outcome B R incoming s s' (Ready (Ok Break)) = (hb_data B (er_cleartext s') \<noteq> [])"
| "round_outcome B R incoming s s' (Ready (Ok ReturnEof)) = at_end B incoming s'"
| "round_outcome B R incoming s s' (Ready (Ok Continue)) =
     ((spare_capacity_len B (er_ciphertext s') = 0 \<longrightarrow> hb_data B (er_cleartext s') \<noteq> []) \<and>
      (never_eof R \<longrightarrow> length (incoming (er_reader s')) < length (incoming (er_reader s))))"
| "round_outcome B R incoming s s' (Ready (Err e)) = True"
| "round_outcome B R incoming s s' (Ready (Panic q)) = False"

text \<open>
  A session of calls on a reader: reads with room for some bytes, and fills of the buffer of
  which some bytes are then consumed. A pending call is followed by the next one; the result is
  the reader and the bytes it delivered, or \<open>None\<close> when a call fails or does not return.
\<close>

datatype reader_call = CallRead nat | CallFill nat

fun reader_session ::
  "profile \<Rightarrow> 'b bytes_mut \<Rightarrow> ('e, 'd) aead_stream \<Rightarrow> 'r async_read \<Rightarrow> ('r, 'd, 'b) encrypted_reader
   \<Rightarrow> reader_call list \<Rightarrow> (('r, 'd, 'b) encrypted_reader \<times> u8 list) option" where
  "reader_session p B A R s [] = Some (s, [])"
| "reader_session p B A R s (CallRead n # calls) =
     (case poll_read p B A R s n of
        Some (s, Pending) \<Rightarrow> reader_session p B A R s calls
      | Some (s, Ready (Ok bs)) \<Rightarrow> map_option (\<lambda>(t, cs). (t, bs @ cs)) (reader_session p B A R s calls)
      | _ \<Rightarrow> None)"
| "reader_session p B A R s (CallFill n # calls) =
     (case poll_fill_buf p B A R s of
        Some (s, Pending) \<Rightarrow> reader_session p B A R s calls
      | Some (s, Ready (Ok bs)) \<Rightarrow>
          (case consume p B s (min n (length bs)) of
             Ok s \<Rightarrow> map_option (\<lambda>(t, cs). (t, take n bs @ cs)) (reader_session p B A R s calls)
           | _ \<Rightarrow> None)
      | _ \<Rightarrow> None)"

text \<open>Reads ask for at least one byte.\<close>

fun asks_some :: "reader_call \<Rightarrow> bool" where
  "asks_some (CallRead n) = (0 < n)"
| "asks_some (CallFill n) = True"

text \<open>
  The buffers are in order, there is something in them but no complete frame, there is room
  for more ciphertext, and the inner reader is at the end of its stream.
\<close>

definition buffers_ok :: "'b bytes_mut \<Rightarrow> ('r, 'd, 'b) encrypted_reader \<Rightarrow> bool" where
  "buffers_ok B s \<longleftrightarrow> hb_inv B (er_cleartext s) \<and> hb_inv B (er_ciphertext s) \<and>
     hb_cap B (er_cleartext s) = MAX_CHUNK_SIZE \<and> hb_cap B (er_ciphertext s) = 2 * MAX_CHUNK_SIZE"

definition next_chunk :: "'b bytes_mut \<Rightarrow> ('r, 'd, 'b) encrypted_reader \<Rightarrow> (io_error, u8 list option) res" where
  "next_chunk B s = peek_cipher_chunk B (er_ciphertext s)"

definition stalled :: "'b bytes_mut \<Rightarrow> 'r async_read \<Rightarrow> ('r, 'd, 'b) encrypted_reader \<Rightarrow> bool" where
  "stalled B R s \<longleftrightarrow> buffers_ok B s \<and> (hb_data B (er_cleartext s) \<noteq> [] \<or> hb_data B (er_ciphertext s) \<noteq> []) \<and>
     next_chunk B s = Ok None \<and> spare_capacity_len B (er_ciphertext s) \<noteq> 0 \<and>
     (\<forall>k. ar_poll_read R (er_reader s) k = (er_reader s, Ready (Ok [])))"

text \<open>
  The header of the next frame is in the buffer and announces more than the buffer can hold.
\<close>

definition oversized :: "'b bytes_mut \<Rightarrow> ('r, 'd, 'b) encrypted_reader \<Rightarrow> bool" where
  "oversized B s \<longleftrightarrow> buffers_ok B s \<and> 4 \<le> length (hb_data B (er_ciphertext s)) \<and>
     2 * MAX_CHUNK_SIZE < 4 + unat (u32_from_be_bytes (take 4 (hb_data B (er_ciphertext s))))"

text \<open>An inner reader that delivers at once what is to arrive.\<close>

definition prompt :: "'r async_read \<Rightarrow> ('r \<Rightarrow> u8 list) \<Rightarrow> bool" where
  "prompt R incoming \<longleftrightarrow>
     (\<forall>r n. 0 < n \<and> incoming r \<noteq> [] \<longrightarrow> (\<exists>r' bs. ar_poll_read R r n = (r', Ready (Ok bs)) \<and> bs \<noteq> []))"

text \<open>
  Two inner readers over lists that deliver up to 100 bytes a call: when the list is used up,
  the first waits for more and the second reports the end of the stream.
\<close>

definition list_read :: "(io_error, u8 list) res poll \<Rightarrow> u8 list async_read" where
  "list_read at_eof =
     \<lparr>ar_poll_read = (\<lambda>r n. if r = [] then (r, at_eof) else (drop (min n 100) r, Ready (Ok (take (min n 100) r)))),
      ar_read_exact = (\<lambda>r n. if length r < n then (r, Err UnexpectedEof) else (drop n r, Ok (take n r)))\<rparr>"

definition open_source :: "u8 list async_read" where
  "open_source = list_read Pending"

definition closed_source :: "u8 list async_read" where
  "closed_source = list_read (Ready (Ok []))"

text \<open>A reader at the start of a stream, and one with given buffer contents.\<close>

definition reader_with :: "u8 list \<Rightarrow> u8 list \<Rightarrow> u8 list \<Rightarrow> (u8 list, u8 \<times> nat, list_buf) encrypted_reader" where
  "reader_with r clear cipher =
     \<lparr>er_reader = r, er_decryptor = ae_decryptor counter_aead [9] [1, 2, 3, 4, 5, 6, 7, 8],
      er_cleartext = \<lparr>hb_buf = \<lparr>lb_bytes = clear, lb_spare = 8192 - length clear\<rparr>, hb_cursor = 0\<rparr>,
      er_ciphertext = \<lparr>hb_buf = \<lparr>lb_bytes = cipher, lb_spare = 16384 - length cipher\<rparr>, hb_cursor = 0\<rparr>\<rparr>"

text \<open>The ciphertext of the chunk ABC as the first of its stream.\<close>

definition abc_chunk :: "u8 list" where
  "abc_chunk = counter_mask (ae_encryptor counter_aead [9] [1, 2, 3, 4, 5, 6, 7, 8]) [65, 66, 67] @ counter_tag 0"

section \<open>The laws of the inner reader\<close>

locale async_source =
  fixes R :: "'r async_read" and incoming :: "'r \<Rightarrow> u8 list"
  assumes read_ok: "ar_poll_read R r n = (r', Ready (Ok bs)) \<Longrightarrow> length bs \<le> n \<and> incoming r = bs @ incoming r'"
    and read_eof: "ar_poll_read R r n = (r', Ready (Ok [])) \<Longrightarrow> 0 < n \<Longrightarrow> incoming r = []"
    and read_pending: "ar_poll_read R r n = (r', Pending) \<Longrightarrow> incoming r' = incoming r"
    and read_err: "ar_poll_read R r n = (r', Ready (Err e)) \<Longrightarrow> incoming r' = incoming r"
    and read_no_panic: "ar_poll_read R r n \<noteq> (r', Ready (Panic q))"
    and read_exact_ok: "ar_read_exact R r n = (r', Ok bs) \<Longrightarrow> length bs = n \<and> incoming r = bs @ incoming r'"

locale reader_env = bytes_mut_laws B adj + aead_laws A sync + async_source R incoming
  for B :: "'b bytes_mut" and adj and A :: "('e, 'd) aead_stream" and sync
    and R :: "'r async_read" and incoming
begin

lemma peek_ok:
  assumes "reader_at B A incoming s cts pts tail"
  shows "peek_cipher_chunk B (er_ciphertext s) =
    Ok (case cts of [] \<Rightarrow> None
        | ct # _ \<Rightarrow> if 4 + length ct \<le> length (hb_data B (er_ciphertext s)) then Some ct else None)"
proof -
  let ?d = "hb_data B (er_ciphertext s)"
  have inv: "hb_inv B (er_ciphertext s)" and fr: "?d @ incoming (er_reader s) @ tail = concat (map frame cts)"
    using assms by (simp_all add: reader_at_def)
  show ?thesis
  proof (cases cts)
    case Nil
    then show ?thesis using fr by (simp add: peek_cipher_chunk_def data_Ok [OF inv] get_range_def)
  next
    case (Cons ct cts')
    have lt: "length ct < 2 ^ 32" using assms Cons by (simp add: reader_at_def MAX_CIPHERTEXT_def)
    have fr': "?d @ incoming (er_reader s) @ tail = frame ct @ concat (map frame cts')" using fr Cons by simp
    show ?thesis
    proof (cases "4 \<le> length ?d")
      case True
      then show ?thesis
        using frame_prefix [OF fr' lt] Cons by (simp add: peek_cipher_chunk_def data_Ok [OF inv] unat_of_nat_u32 [OF lt])
    next
      case False
      then show ?thesis using Cons by (simp add: peek_cipher_chunk_def data_Ok [OF inv] get_range_def)
    qed
  qed
qed

lemma decrypt_chunk_ok:
  assumes "reader_at B A incoming s (ct # cts) pts tail"
    and "4 + length ct \<le> length (hb_data B (er_ciphertext s))"
    and "length ct \<le> spare_capacity_len B (er_cleartext s)"
  shows "\<exists>s' pt pts'. pts = pt # pts' \<and> decrypt_chunk p B A s ct = (s', Ok ()) \<and>
    reader_at B A incoming s' cts pts' tail \<and>
    hb_data B (er_cleartext s') = hb_data B (er_cleartext s) @ pt \<and> er_reader s' = er_reader s"
proof -
  let ?b = "hb_buf (er_cleartext s)"
  have inv: "hb_inv B (er_cleartext s)" "hb_inv B (er_ciphertext s)" "hb_cap B (er_ciphertext s) = 2 * MAX_CHUNK_SIZE"
    and fr: "hb_data B (er_ciphertext s) @ incoming (er_reader s) @ tail = frame ct @ concat (map frame cts)"
    using assms(1) by (simp_all add: reader_at_def)
  obtain buf space where sp: "bm_split_off B ?b (length (bm_bytes B ?b)) = (buf, space)" by fastforce
  have room: "length (bm_bytes B ?b) + length ct \<le> bm_capacity B ?b"
    using assms(3) length_le_capacity [of ?b] by (simp add: spare_capacity_len_def)
  obtain d pt pts' where dec: "ae_decrypt A (er_decryptor s) ct = (d, Some pt)"
    and pts: "pts = pt # pts'" "decrypt_chunks A d cts = Some pts'"
    using assms(1) by (auto simp: reader_at_def split: prod.splits option.splits)
  have len: "length pt \<le> length ct" using decrypt_length [OF dec] by simp
  note joined = split_end_unsplit [OF sp room len]
  have cap: "hb_cap B (er_ciphertext s) < 2 ^ 64" using inv(3) by (simp add: MAX_CHUNK_SIZE_def)
  have n: "length ct + 4 \<le> length (hb_data B (er_ciphertext s))" using assms(2) by simp
  obtain h where h: "(advance_cursor p B (er_ciphertext s) (length ct + 4) :: (io_error, 'b helper_buf) res) = Ok h"
    "hb_inv B h" "hb_data B h = drop (length ct + 4) (hb_data B (er_ciphertext s))" "hb_cap B h = hb_cap B (er_ciphertext s)"
    using advance_cursor_ok [OF inv(2) n cap] by blast
  define s' where "s' = s\<lparr>er_ciphertext := h, er_decryptor := d,
    er_cleartext := (er_cleartext s)\<lparr>hb_buf := bm_unsplit B buf (bm_store B (bm_extend B space ct) pt)\<rparr>\<rparr>"
  have "decrypt_chunk p B A s ct = (s', Ok ())"
    using length_le_capacity [of ?b] h(1) dec joined(1) by (simp add: decrypt_chunk_def split_off_def sp s'_def Let_def)
  moreover have "hb_data B h @ incoming (er_reader s) @ tail = concat (map frame cts)"
  proof -
    have "drop (length ct + 4) (hb_data B (er_ciphertext s) @ incoming (er_reader s) @ tail) =
        drop (length (frame ct)) (frame ct @ concat (map frame cts))" using fr by simp
    then show ?thesis using n by (simp add: h(3))
  qed
  then have "reader_at B A incoming s' cts pts' tail"
    using assms(1) pts h inv joined by (auto simp: reader_at_def s'_def hb_inv_def hb_cap_def)
  moreover have "hb_data B (er_cleartext s') = hb_data B (er_cleartext s) @ pt"
    using joined(2) hb_inv_cursor [OF inv(1)] by (simp add: s'_def hb_data_def)
  ultimately show ?thesis using pts(1) by (auto simp: s'_def)
qed

text \<open>
  The decryption loop always returns. It either leaves no complete chunk behind or stops
  because the cleartext buffer, which then cannot be empty, has no room.
\<close>

lemma decrypt_loop_ok:
  assumes "reader_at B A incoming s cts pts tail"
  shows "\<exists>s' drained cts' pts1 pts2. decrypt_loop p B A s = Some (s', Ready (Ok drained)) \<and> pts = pts1 @ pts2 \<and>
    reader_at B A incoming s' cts' pts2 tail \<and> hb_data B (er_cleartext s') = hb_data B (er_cleartext s) @ concat pts1 \<and>
    er_reader s' = er_reader s \<and>
    (if drained then \<forall>ct cts''. cts' = ct # cts'' \<longrightarrow> length (hb_data B (er_ciphertext s')) < 4 + length ct
     else hb_data B (er_cleartext s') \<noteq> [])"
  using assms
proof (induction cts arbitrary: s pts)
  case Nil
  have "decrypt_loop p B A s = Some (s, Ready (Ok True))"
    by (simp add: decrypt_loop.simps peek_ok [OF Nil])
  with Nil show ?case by fastforce
next
  case (Cons ct cts)
  have inv: "hb_inv B (er_cleartext s)" "hb_cap B (er_cleartext s) = MAX_CHUNK_SIZE" "length ct \<le> MAX_CIPHERTEXT"
    using Cons.prems by (simp_all add: reader_at_def)
  show ?case
  proof (cases "4 + length ct \<le> length (hb_data B (er_ciphertext s))")
    case False
    then have "decrypt_loop p B A s = Some (s, Ready (Ok True))"
      by (simp add: decrypt_loop.simps peek_ok [OF Cons.prems])
    with Cons.prems False show ?thesis
      by (intro exI [of _ s] exI [of _ True] exI [of _ "ct # cts"] exI [of _ "[]"] exI [of _ pts]) auto
  next
    case full: True
    show ?thesis
    proof (cases "length ct \<le> spare_capacity_len B (er_cleartext s)")
      case False
      then have "decrypt_loop p B A s = Some (s, Ready (Ok False))"
        using full by (simp add: decrypt_loop.simps peek_ok [OF Cons.prems])
      moreover have "hb_data B (er_cleartext s) \<noteq> []"
        using False inv spare_empty [OF inv(1)] by (auto simp: MAX_CHUNK_SIZE_def MAX_CIPHERTEXT_def)
      ultimately show ?thesis using Cons.prems
        by (intro exI [of _ s] exI [of _ False] exI [of _ "ct # cts"] exI [of _ "[]"] exI [of _ pts]) auto
    next
      case True
      then obtain s1 pt pts' where s1: "pts = pt # pts'" "decrypt_chunk p B A s ct = (s1, Ok ())"
        "reader_at B A incoming s1 cts pts' tail" "hb_data B (er_cleartext s1) = hb_data B (er_cleartext s) @ pt"
        "er_reader s1 = er_reader s"
        using decrypt_chunk_ok [OF Cons.prems full] by blast
      have "decrypt_loop p B A s = decrypt_loop p B A s1"
        using full True s1(2) by (simp add: decrypt_loop.simps [of p B A s] peek_ok [OF Cons.prems])
      moreover obtain s' drained cts' pts1 pts2 where IH: "decrypt_loop p B A s1 = Some (s', Ready (Ok drained))"
        "pts' = pts1 @ pts2" "reader_at B A incoming s' cts' pts2 tail"
        "hb_data B (er_cleartext s') = hb_data B (er_cleartext s1) @ concat pts1" "er_reader s' = er_reader s1"
        "if drained then \<forall>ct cts''. cts' = ct # cts'' \<longrightarrow> length (hb_data B (er_ciphertext s')) < 4 + length ct
         else hb_data B (er_cleartext s') \<noteq> []"
        using Cons.IH [OF s1(3)] by blast
      ultimately show ?thesis using s1
        by (intro exI [of _ s'] exI [of _ drained] exI [of _ cts'] exI [of _ "pt # pts1"] exI [of _ pts2]) simp
    qed
  qed
qed

text \<open>An incomplete frame takes less than half of the ciphertext buffer, so it can be moved to the front.\<close>

lemma decrypt_all_ok:
  assumes "reader_rel B A incoming s pts tail"
  shows "\<exists>s' pts'. decrypt_all_full_chunks p B A s = Some (s', Ready (Ok ())) \<and>
    reader_rel B A incoming s' pts' tail \<and> undelivered B s' pts' = undelivered B s pts \<and>
    er_reader s' = er_reader s \<and> (spare_capacity_len B (er_ciphertext s') = 0 \<longrightarrow> hb_data B (er_cleartext s') \<noteq> [])"
proof -
  obtain cts where "reader_at B A incoming s cts pts tail" using assms by (auto simp: reader_rel_def)
  from decrypt_loop_ok [OF this] obtain t drained cts' pts1 pts2 where
    loop: "decrypt_loop p B A s = Some (t, Ready (Ok drained))" and pts: "pts = pts1 @ pts2"
    and at: "reader_at B A incoming t cts' pts2 tail"
    and clear: "hb_data B (er_cleartext t) = hb_data B (er_cleartext s) @ concat pts1" "er_reader t = er_reader s"
    and out: "if drained then \<forall>ct cts''. cts' = ct # cts'' \<longrightarrow> length (hb_data B (er_ciphertext t)) < 4 + length ct
       else hb_data B (er_cleartext t) \<noteq> []"
    by blast
  have inv: "hb_inv B (er_ciphertext t)" "hb_cap B (er_ciphertext t) = 2 * MAX_CHUNK_SIZE"
    using at by (simp_all add: reader_at_def)
  show ?thesis
  proof (cases "drained \<and> spare_capacity_len B (er_ciphertext t) = 0")
    case True
    have small: "length (hb_data B (er_ciphertext t)) < 8192"
    proof (cases cts')
      case Nil
      then show ?thesis using at by (simp add: reader_at_def)
    next
      case (Cons ct cts'')
      then show ?thesis using out True at by (auto simp: reader_at_def MAX_CIPHERTEXT_def)
    qed
    have "length (bm_bytes B (hb_buf (er_ciphertext t))) = 16384"
      using True inv(2) length_le_capacity [of "hb_buf (er_ciphertext t)"]
      by (simp add: spare_capacity_len_def hb_cap_def MAX_CHUNK_SIZE_def)
    then have "length (hb_data B (er_ciphertext t)) \<le> hb_cursor (er_ciphertext t)"
      using small by (simp add: length_hb_data)
    then have "\<exists>h. (wrap B (er_ciphertext t) :: (io_error, 'b helper_buf) res) = Ok h \<and> hb_inv B h \<and>
        hb_data B h = hb_data B (er_ciphertext t) \<and> hb_cap B h = hb_cap B (er_ciphertext t) \<and>
        length (bm_bytes B (hb_buf h)) = length (hb_data B (er_ciphertext t))"
      by (rule wrap_ok [OF inv(1)])
    then obtain h where h: "(wrap B (er_ciphertext t) :: (io_error, 'b helper_buf) res) = Ok h" "hb_inv B h"
      "hb_data B h = hb_data B (er_ciphertext t)" "hb_cap B h = hb_cap B (er_ciphertext t)"
      "length (bm_bytes B (hb_buf h)) < 8192"
      using small by auto
    then have "reader_rel B A incoming (t\<lparr>er_ciphertext := h\<rparr>) pts2 tail" "spare_capacity_len B h \<noteq> 0"
      using at inv(2) by (auto simp: reader_rel_def reader_at_def spare_capacity_len_def hb_cap_def MAX_CHUNK_SIZE_def)
    then show ?thesis using loop True h(1) pts clear
      by (intro exI [of _ "t\<lparr>er_ciphertext := h\<rparr>"] exI [of _ pts2])
        (simp add: decrypt_all_full_chunks_def undelivered_def)
  next
    case False
    then show ?thesis using loop at pts clear out
      by (intro exI [of _ t] exI [of _ pts2])
        (auto simp: decrypt_all_full_chunks_def reader_rel_def undelivered_def)
  qed
qed

text \<open>Reading more ciphertext moves bytes from the stream into the buffer.\<close>

lemma inner_read_ok:
  assumes "reader_rel B A incoming s pts tail" and "inner_read B R s = (s', q)"
  shows "reader_rel B A incoming s' pts tail \<and> er_cleartext s' = er_cleartext s \<and> (\<forall>x. q \<noteq> Ready (Panic x)) \<and>
    (q = Ready (Ok ()) \<longrightarrow> (\<exists>bs. incoming (er_reader s) = bs @ incoming (er_reader s') \<and>
       hb_data B (er_ciphertext s') = hb_data B (er_ciphertext s) @ bs \<and>
       (bs = [] \<longrightarrow> spare_capacity_len B (er_ciphertext s) \<noteq> 0 \<longrightarrow>
          incoming (er_reader s) = [] \<and> ar_poll_read R (er_reader s) (spare_capacity_len B (er_ciphertext s)) = (er_reader s', Ready (Ok [])))))"
proof -
  let ?h = "er_ciphertext s"
  let ?n = "spare_capacity_len B ?h"
  obtain cts where at: "reader_at B A incoming s cts pts tail" using assms(1) by (auto simp: reader_rel_def)
  obtain r q' where rd: "ar_poll_read R (er_reader s) ?n = (r, q')" by fastforce
  show ?thesis
  proof (cases "\<exists>bs. q' = Ready (Ok bs)")
    case True
    then obtain bs where q': "q' = Ready (Ok bs)" ..
    note ok = read_ok [OF rd [unfolded q']]
    have room: "length (bm_bytes B (hb_buf ?h) @ bs) \<le> bm_capacity B (hb_buf ?h)"
      using ok length_le_capacity [of "hb_buf ?h"] by (auto simp: spare_capacity_len_def)
    let ?h' = "?h\<lparr>hb_buf := bm_store B (hb_buf ?h) (bm_bytes B (hb_buf ?h) @ bs)\<rparr>"
    have s': "s' = s\<lparr>er_reader := r, er_ciphertext := ?h'\<rparr>" "q = Ready (Ok ())"
      using assms(2) rd q' by (auto simp: inner_read_def Let_def)
    have inv: "hb_inv B ?h" using at by (simp add: reader_at_def)
    have d: "hb_data B ?h' = hb_data B ?h @ bs" "hb_inv B ?h'" "hb_cap B ?h' = hb_cap B ?h"
      using store_bytes [OF room] store_capacity [OF room] hb_inv_cursor [OF inv] inv
      by (auto simp: hb_data_def hb_inv_def hb_cap_def)
    have "reader_at B A incoming s' cts pts tail" using at ok d by (simp add: reader_at_def s')
    then show ?thesis using d ok s' read_eof rd q' by (auto simp: reader_rel_def)
  next
    case False
    then have "s' = s\<lparr>er_reader := r\<rparr>" "\<forall>x. q \<noteq> Ready (Panic x)" "q \<noteq> Ready (Ok ())" "incoming r = incoming (er_reader s)"
      using assms(2) rd read_pending read_err read_no_panic
      by (auto simp: inner_read_def Let_def split: poll.splits res.splits)
    then show ?thesis using at by (auto simp: reader_rel_def reader_at_def)
  qed
qed

lemma rel_inv:
  assumes "reader_rel B A incoming s pts tail"
  shows "hb_inv B (er_cleartext s)" "hb_inv B (er_ciphertext s)"
    "hb_cap B (er_cleartext s) = MAX_CHUNK_SIZE" "hb_cap B (er_ciphertext s) = 2 * MAX_CHUNK_SIZE"
  using assms by (auto simp: reader_rel_def reader_at_def)

lemma round_continues:
  assumes "inner_read B R s = (t, Ready (Ok ()))" and "hb_inv B (er_cleartext t)" and "hb_inv B (er_ciphertext t)"
    and "\<not> (hb_data B (er_ciphertext t) = [] \<and> hb_data B (er_cleartext t) = [])"
    and "decrypt_all_full_chunks p B A t = Some (s', Ready (Ok ()))"
  shows "read_round p B A R s = Some (s', Ready (Ok Continue))"
proof (cases "hb_data B (er_ciphertext t) = []")
  case True
  then show ?thesis using assms by (simp add: read_round_def data_Ok [OF assms(2)] data_Ok [OF assms(3)])
next
  case False
  then show ?thesis using assms by (simp add: read_round_def data_Ok [OF assms(3)])
qed

text \<open>One round of reading, on every outcome. It always returns.\<close>

lemma read_round_ok:
  assumes "reader_rel B A incoming s pts tail" and "spare_capacity_len B (er_ciphertext s) \<noteq> 0"
  shows "\<exists>s' r pts'. read_round p B A R s = Some (s', r) \<and> reader_rel B A incoming s' pts' tail \<and>
    undelivered B s' pts' = undelivered B s pts \<and> round_outcome B R incoming s s' r"
proof -
  obtain t q where rd: "inner_read B R s = (t, q)" by fastforce
  note ir = inner_read_ok [OF assms(1) rd]
  then have rel: "reader_rel B A incoming t pts tail" and cl: "er_cleartext t = er_cleartext s" by auto
  then have und: "undelivered B t pts = undelivered B s pts" by (simp add: undelivered_def)
  note inv = rel_inv [OF rel]
  consider (pending) "q = Pending" | (err) e where "q = Ready (Err e)" | (ok) "q = Ready (Ok ())"
    using ir by (cases q; cases "case q of Ready x \<Rightarrow> x") auto
  then show ?thesis
  proof cases
    case pending
    then have "read_round p B A R s =
        Some (t, if hb_data B (er_cleartext s) = [] then Pending else Ready (Ok Break))"
      using rd cl inv(1) by (simp add: read_round_def data_Ok)
    then show ?thesis using rel und cl by (cases "hb_data B (er_cleartext s) = []") fastforce+
  next
    case (err e)
    then have "read_round p B A R s = Some (t, Ready (Err e))" using rd by (simp add: read_round_def)
    then show ?thesis using rel und by fastforce
  next
    case ok
    then obtain bs where bs: "incoming (er_reader s) = bs @ incoming (er_reader t)"
      "hb_data B (er_ciphertext t) = hb_data B (er_ciphertext s) @ bs"
      "bs = [] \<Longrightarrow> incoming (er_reader s) = [] \<and>
         ar_poll_read R (er_reader s) (spare_capacity_len B (er_ciphertext s)) = (er_reader t, Ready (Ok []))"
      using ir assms(2) by blast
    have nonempty: "bs \<noteq> []" if "never_eof R" using that bs(3) assms(2) by (auto simp: never_eof_def)
    show ?thesis
    proof (cases "hb_data B (er_ciphertext t) = [] \<and> hb_data B (er_cleartext t) = []")
      case True
      then have "read_round p B A R s = Some (t, Ready (Ok ReturnEof))"
        using rd ok inv by (simp add: read_round_def data_Ok)
      moreover have "at_end B incoming t" using bs True by (simp add: at_end_def)
      ultimately show ?thesis using rel und by fastforce
    next
      case False
      from decrypt_all_ok [OF rel, of p] obtain s' pts' where
        s': "decrypt_all_full_chunks p B A t = Some (s', Ready (Ok ()))" "reader_rel B A incoming s' pts' tail"
          "undelivered B s' pts' = undelivered B t pts" "er_reader s' = er_reader t"
          "spare_capacity_len B (er_ciphertext s') = 0 \<longrightarrow> hb_data B (er_cleartext s') \<noteq> []"
        by (elim exE conjE) (rule that)
      have "read_round p B A R s = Some (s', Ready (Ok Continue))"
        using round_continues rd ok inv(1,2) False s'(1) by blast
      moreover have "round_outcome B R incoming s s' (Ready (Ok Continue))"
        using s'(4,5) bs(1) nonempty by auto
      ultimately show ?thesis using s'(2,3) und by metis
    qed
  qed
qed

lemma read_loop_partial:
  assumes "read_loop p B' A' R' n s = Some y" and "B' = B" and "A' = A" and "R' = R"
    and "reader_rel B A incoming s pts tail" and "0 < n"
    and "spare_capacity_len B (er_ciphertext s) = 0 \<longrightarrow> hb_data B (er_cleartext s) \<noteq> []"
  shows "\<exists>pts'. reader_rel B A incoming (fst y) pts' tail \<and> undelivered B (fst y) pts' = undelivered B s pts \<and>
    read_outcome B incoming (fst y) (snd y)"
  using assms
proof (induction p B' A' R' n s y arbitrary: pts rule: read_loop.raw_induct [rotated, consumes 1, case_names step])
  case (step rec p B' A' R' n s y)
  note inv = rel_inv [OF step.prems(4)]
  show ?case
  proof (cases "length (hb_data B (er_cleartext s)) < n \<and> spare_capacity_len B (er_ciphertext s) \<noteq> 0")
    case False
    then have "y = (s, Ready (Ok False))"
      using step.hyps step.prems(1-3) by (auto simp: data_Ok [OF inv(1)])
    moreover have "hb_data B (er_cleartext s) \<noteq> []" using False step.prems by auto
    ultimately show ?thesis using step.prems(4) by auto
  next
    case True
    then obtain t r pts' where round: "read_round p B A R s = Some (t, r)" and rel: "reader_rel B A incoming t pts' tail"
      and und: "undelivered B t pts' = undelivered B s pts" and out: "round_outcome B R incoming s t r"
      using read_round_ok [OF step.prems(4), of p] by blast
    show ?thesis
    proof (cases "r = Ready (Ok Continue)")
      case cont: True
      then have "rec p B A R n t = Some y"
        using step.hyps step.prems(1-3) True round by (simp add: data_Ok [OF inv(1)])
      from step.IH [OF this refl refl refl rel step.prems(5)] out cont und show ?thesis by simp
    next
      case False
      then have "fst y = t \<and> read_outcome B incoming t (snd y)"
        using step.hyps step.prems(1-3) True round out
        by (auto simp: data_Ok [OF inv(1)] split: poll.splits res.splits round.splits)
      then show ?thesis using rel und by auto
    qed
  qed
qed

lemma read_loop_returns:
  assumes "never_eof R" and "reader_rel B A incoming s pts tail"
  shows "read_loop p B A R n s \<noteq> None"
  using assms(2)
proof (induction "length (incoming (er_reader s))" arbitrary: s pts rule: less_induct)
  case less
  note inv = rel_inv [OF less.prems]
  show ?case
  proof (cases "length (hb_data B (er_cleartext s)) < n \<and> spare_capacity_len B (er_ciphertext s) \<noteq> 0")
    case False
    then show ?thesis by (auto simp: read_loop.simps data_Ok [OF inv(1)])
  next
    case go: True
    then obtain t r pts' where round: "read_round p B A R s = Some (t, r)" and rel: "reader_rel B A incoming t pts' tail"
      and out: "round_outcome B R incoming s t r"
      using read_round_ok [OF less.prems, of p] by blast
    show ?thesis
    proof (cases "r = Ready (Ok Continue)")
      case True
      then have "read_loop p B A R n t \<noteq> None" using less.hyps [OF _ rel] out assms(1) by simp
      then show ?thesis using True round go by (simp add: read_loop.simps [of p B A R n s] data_Ok [OF inv(1)])
    next
      case False
      then show ?thesis using round go
        by (auto simp: read_loop.simps [of p B A R n s] data_Ok [OF inv(1)] split: poll.splits res.splits round.splits)
    qed
  qed
qed

lemma read_if_necessary_partial:
  assumes "reader_rel B A incoming s pts tail" and "wanted \<noteq> Some 0"
    and "read_if_necessary p B A R s wanted = Some (s', r)"
  shows "\<exists>pts'. reader_rel B A incoming s' pts' tail \<and> undelivered B s' pts' = undelivered B s pts \<and>
    read_outcome B incoming s' r"
proof -
  have cap: "bm_capacity B (hb_buf (er_cleartext s)) = MAX_CHUNK_SIZE"
    "bm_capacity B (hb_buf (er_ciphertext s)) = 2 * MAX_CHUNK_SIZE"
    using rel_inv [OF assms(1)] by (simp_all add: hb_cap_def)
  define amount where "amount = (case wanted of None \<Rightarrow> MAX_CHUNK_SIZE | Some w \<Rightarrow> min MAX_CHUNK_SIZE w)"
  have pos: "0 < amount" using assms(2) by (auto simp: amount_def MAX_CHUNK_SIZE_def split: option.splits)
  from decrypt_all_ok [OF assms(1), of p] obtain t pts1 where
    t: "decrypt_all_full_chunks p B A s = Some (t, Ready (Ok ()))" "reader_rel B A incoming t pts1 tail"
      "undelivered B t pts1 = undelivered B s pts" "er_reader t = er_reader s"
      "spare_capacity_len B (er_ciphertext t) = 0 \<longrightarrow> hb_data B (er_cleartext t) \<noteq> []"
    by (elim exE conjE) (rule that)
  define final where "final = (\<lambda>(s :: ('r, 'd, 'b) encrypted_reader) is_eof. if is_eof then Some (s, Ready (Ok True))
      else bind_run (Some (s, Ready (if p = Debug then bind_res (data B (er_cleartext s)) (\<lambda>d. debug_assert p (d \<noteq> []))
                                     else Ok ()))) (\<lambda>s _. Some (s, Ready (Ok False))))"
  have run: "read_if_necessary p B A R s wanted = bind_run (read_loop p B A R amount t) final"
    using t(1) by (simp add: read_if_necessary_def cap amount_def final_def)
  obtain u q where loop: "read_loop p B A R amount t = Some (u, q)"
    using assms(3) by (cases "read_loop p B A R amount t") (auto simp: run)
  obtain pts' where u: "reader_rel B A incoming u pts' tail" "undelivered B u pts' = undelivered B s pts"
    "read_outcome B incoming u q"
    using read_loop_partial [OF loop refl refl refl t(2) pos t(5)] t(3) by auto
  have "final u False = Some (u, Ready (Ok False))" if "hb_data B (er_cleartext u) \<noteq> []"
    using that by (simp add: final_def data_Ok [OF rel_inv(1) [OF u(1)]])
  moreover have "final u True = Some (u, Ready (Ok True))" by (simp add: final_def)
  ultimately have "s' = u" "r = q"
    using run loop assms(3) u(3)
    by (cases "(B, incoming, u, q)" rule: read_outcome.cases; auto)+
  then show ?thesis using u by blast
qed

lemma read_if_necessary_returns:
  assumes "reader_rel B A incoming s pts tail" and "never_eof R"
  shows "read_if_necessary p B A R s wanted \<noteq> None"
proof -
  obtain t pts1 where "decrypt_all_full_chunks p B A s = Some (t, Ready (Ok ()))" "reader_rel B A incoming t pts1 tail"
    using decrypt_all_ok [OF assms(1), of p] by (elim exE conjE) (rule that)
  then have "\<not> (read_if_necessary p B A R s wanted = None)"
    using read_loop_returns [OF assms(2), of t pts1 tail p]
    unfolding read_if_necessary_def bind_run_None Let_def by (auto simp: bind_run_None split: if_splits)
  then show ?thesis .
qed

lemma poll_read_partial:
  assumes "reader_rel B A incoming s pts tail" and "0 < n" and "poll_read p B A R s n = Some (s', r)"
  shows "\<exists>pts' bs. reader_rel B A incoming s' pts' tail \<and> undelivered B s pts = bs @ undelivered B s' pts' \<and>
    (case r of
       Pending \<Rightarrow> bs = [] \<and> hb_data B (er_cleartext s') = []
     | Ready (Ok cs) \<Rightarrow> cs = bs \<and> length bs \<le> n \<and> (bs = [] \<longrightarrow> at_end B incoming s')
     | Ready (Err e) \<Rightarrow> bs = []
     | Ready (Panic q) \<Rightarrow> False)"
proof -
  obtain t q where rin: "read_if_necessary p B A R s (Some n) = Some (t, q)"
    using assms(3) by (auto simp: poll_read_def bind_run_Some)
  obtain pts1 where t: "reader_rel B A incoming t pts1 tail" "undelivered B t pts1 = undelivered B s pts"
    "read_outcome B incoming t q"
    using read_if_necessary_partial [OF assms(1) _ rin] assms(2) by auto
  note inv = rel_inv [OF t(1)]
  show ?thesis
  proof (cases "q = Ready (Ok False)")
    case True
    let ?d = "hb_data B (er_cleartext t)"
    let ?k = "min n (length ?d)"
    have "hb_cap B (er_cleartext t) < 2 ^ 64" using inv(3) by (simp add: MAX_CHUNK_SIZE_def)
    then obtain h where h: "(advance_cursor p B (er_cleartext t) ?k :: (io_error, 'b helper_buf) res) = Ok h" "hb_inv B h"
      "hb_data B h = drop ?k ?d" "hb_cap B h = hb_cap B (er_cleartext t)"
      using advance_cursor_ok [OF inv(1)] by (meson min.cobounded2)
    have "s' = t\<lparr>er_cleartext := h\<rparr>" "r = Ready (Ok (take ?k ?d))"
      using assms(3) rin True h(1) by (auto simp: poll_read_def data_Ok [OF inv(1)] Let_def)
    moreover have "reader_rel B A incoming (t\<lparr>er_cleartext := h\<rparr>) pts1 tail"
      using t(1) h by (auto simp: reader_rel_def reader_at_def)
    moreover have "undelivered B s pts = take ?k ?d @ undelivered B (t\<lparr>er_cleartext := h\<rparr>) pts1"
      using h(3) t(2) by (simp add: undelivered_def append_assoc [symmetric] del: append_assoc)
    moreover have "take ?k ?d \<noteq> []" using t(3) True assms(2) by simp
    ultimately show ?thesis by (intro exI [of _ pts1] exI [of _ "take ?k ?d"]) (auto simp: min_def)
  next
    case False
    then have "s' = t \<and> (case r of Pending \<Rightarrow> hb_data B (er_cleartext t) = [] | Ready (Ok cs) \<Rightarrow> cs = [] \<and> at_end B incoming t
        | Ready (Err e) \<Rightarrow> True | Ready (Panic q) \<Rightarrow> False)"
      using assms(3) rin t(3) by (cases "(B, incoming, t, q)" rule: read_outcome.cases) (auto simp: poll_read_def)
    then show ?thesis using t(1,2)
      by (intro exI [of _ pts1] exI [of _ "[]"]) (auto split: poll.splits res.splits)
  qed
qed

lemma poll_fill_buf_partial:
  assumes "reader_rel B A incoming s pts tail" and "poll_fill_buf p B A R s = Some (s', r)"
  shows "\<exists>pts'. reader_rel B A incoming s' pts' tail \<and> undelivered B s pts = undelivered B s' pts' \<and>
    (case r of
       Pending \<Rightarrow> hb_data B (er_cleartext s') = []
     | Ready (Ok cs) \<Rightarrow> cs = hb_data B (er_cleartext s') \<and> (cs = [] \<longrightarrow> at_end B incoming s')
     | Ready (Err e) \<Rightarrow> True
     | Ready (Panic q) \<Rightarrow> False)"
proof -
  obtain t q where rin: "read_if_necessary p B A R s None = Some (t, q)"
    using assms(2) by (auto simp: poll_fill_buf_def bind_run_Some)
  obtain pts1 where t: "reader_rel B A incoming t pts1 tail" "undelivered B t pts1 = undelivered B s pts"
    "read_outcome B incoming t q"
    using read_if_necessary_partial [OF assms(1) _ rin] by auto
  have d: "(data B (er_cleartext t) :: (io_error, u8 list) res) = Ok (hb_data B (er_cleartext t))"
    by (rule data_Ok [OF rel_inv(1) [OF t(1)]])
  have "s' = t \<and> (case r of Pending \<Rightarrow> hb_data B (er_cleartext t) = []
      | Ready (Ok cs) \<Rightarrow> cs = hb_data B (er_cleartext t) \<and> (cs = [] \<longrightarrow> at_end B incoming t)
      | Ready (Err e) \<Rightarrow> True | Ready (Panic q) \<Rightarrow> False)"
    using assms(2) rin t(3) d
    by (cases "(B, incoming, t, q)" rule: read_outcome.cases) (auto simp: poll_fill_buf_def at_end_def)
  then show ?thesis using t(1,2) by (intro exI [of _ pts1]) (auto split: poll.splits res.splits)
qed

lemma consume_ok:
  assumes "reader_rel B A incoming s pts tail" and "n \<le> length (hb_data B (er_cleartext s))"
  shows "\<exists>s'. consume p B s n = Ok s' \<and> reader_rel B A incoming s' pts tail \<and>
    undelivered B s pts = take n (hb_data B (er_cleartext s)) @ undelivered B s' pts"
proof -
  note inv = rel_inv [OF assms(1)]
  have "hb_cap B (er_cleartext s) < 2 ^ 64" using inv(3) by (simp add: MAX_CHUNK_SIZE_def)
  then obtain h where h: "(advance_cursor p B (er_cleartext s) n :: (io_error, 'b helper_buf) res) = Ok h" "hb_inv B h"
    "hb_data B h = drop n (hb_data B (er_cleartext s))" "hb_cap B h = hb_cap B (er_cleartext s)"
    using advance_cursor_ok [OF inv(1) assms(2)] by blast
  have "reader_rel B A incoming (s\<lparr>er_cleartext := h\<rparr>) pts tail"
    using assms(1) h by (auto simp: reader_rel_def reader_at_def)
  then show ?thesis using h
    by (intro exI [of _ "s\<lparr>er_cleartext := h\<rparr>"])
      (simp add: consume_def undelivered_def append_assoc [symmetric] del: append_assoc)
qed

lemma reader_session_rel:
  assumes "reader_rel B A incoming s pts tail" and "\<forall>c \<in> set calls. asks_some c"
    and "reader_session p B A R s calls = Some (t, bs)"
  shows "\<exists>pts'. reader_rel B A incoming t pts' tail \<and> undelivered B s pts = bs @ undelivered B t pts'"
  using assms
proof (induction calls arbitrary: s pts bs)
  case Nil
  then show ?case by auto
next
  case (Cons call calls)
  show ?case
  proof (cases call)
    case (CallRead n)
    have n: "0 < n" using Cons.prems(2) CallRead by simp
    obtain u r where c: "poll_read p B A R s n = Some (u, r)"
      using Cons.prems(3) CallRead by (auto split: option.splits)
    obtain pts1 cs where u: "reader_rel B A incoming u pts1 tail" "undelivered B s pts = cs @ undelivered B u pts1"
      and out: "case r of
         Pending \<Rightarrow> cs = [] \<and> hb_data B (er_cleartext u) = []
       | Ready (Ok ds) \<Rightarrow> ds = cs \<and> length cs \<le> n \<and> (cs = [] \<longrightarrow> at_end B incoming u)
       | Ready (Err e) \<Rightarrow> cs = []
       | Ready (Panic q) \<Rightarrow> False"
      using poll_read_partial [OF Cons.prems(1) n c] by (elim exE conjE) (rule that)
    obtain bs2 where "reader_session p B A R u calls = Some (t, bs2)" "bs = cs @ bs2"
      using Cons.prems(3) CallRead c out by (auto split: poll.splits res.splits)
    then show ?thesis using Cons.IH [OF u(1)] Cons.prems(2) u(2) by auto
  next
    case (CallFill n)
    obtain u r where c: "poll_fill_buf p B A R s = Some (u, r)"
      using Cons.prems(3) CallFill by (auto split: option.splits)
    obtain pts1 where u: "reader_rel B A incoming u pts1 tail" "undelivered B s pts = undelivered B u pts1"
      and out: "case r of
         Pending \<Rightarrow> hb_data B (er_cleartext u) = []
       | Ready (Ok cs) \<Rightarrow> cs = hb_data B (er_cleartext u) \<and> (cs = [] \<longrightarrow> at_end B incoming u)
       | Ready (Err e) \<Rightarrow> True
       | Ready (Panic q) \<Rightarrow> False"
      using poll_fill_buf_partial [OF Cons.prems(1) c] by (elim exE conjE) (rule that)
    consider (pending) "r = Pending" | (ok) "r = Ready (Ok (hb_data B (er_cleartext u)))"
      using Cons.prems(3) CallFill c out by (auto split: poll.splits res.splits)
    then show ?thesis
    proof cases
      case pending
      then show ?thesis using Cons.IH [OF u(1)] Cons.prems CallFill c u(2) by auto
    next
      case ok
      let ?d = "hb_data B (er_cleartext u)"
      obtain v where v: "consume p B u (min n (length ?d)) = Ok v" "reader_rel B A incoming v pts1 tail"
        "undelivered B u pts1 = take (min n (length ?d)) ?d @ undelivered B v pts1"
        using consume_ok [OF u(1), of "min n (length ?d)"] by auto
      obtain bs2 where "reader_session p B A R v calls = Some (t, bs2)" "bs = take n ?d @ bs2"
        using Cons.prems(3) CallFill c ok v(1) by auto
      moreover have "take (min n (length ?d)) ?d = take n ?d" by (simp add: min_def)
      ultimately show ?thesis using Cons.IH [OF v(2)] Cons.prems(2) u(2) v(3) by auto
    qed
  qed
qed

text \<open>A reader that starts on what a writer with the same key put on the wire.\<close>

lemma reader_new_rel:
  assumes "incoming r @ tail = nonce @ concat (map frame cts)" and "length nonce = 8"
    and "encrypt_chunks A (ae_encryptor A key nonce) chunks = (e, Some cts)"
    and "\<forall>c \<in> set chunks. length c \<le> 8172"
    and "reader_new B A R r key = (r', Ok s)"
  shows "reader_rel B A incoming s chunks tail" "undelivered B s chunks = concat chunks"
proof -
  obtain bs where rd: "ar_read_exact R r 8 = (r', Ok bs)"
    using assms(5) unfolding reader_new_def by (cases "ar_read_exact R r 8"; cases "snd (ar_read_exact R r 8)") auto
  have bs: "length bs = 8" "incoming r = bs @ incoming r'" using read_exact_ok [OF rd] by auto
  then have nonce: "bs = nonce" and rest: "incoming r' @ tail = concat (map frame cts)"
    using assms(1,2) by (auto simp: append_eq_append_conv)
  have "decrypt_chunks A (ae_decryptor A key nonce) cts = Some chunks"
    using decrypt_encrypt_chunks [OF start_sync assms(3)] .
  moreover have "\<forall>ct \<in> set cts. length ct \<le> MAX_CIPHERTEXT"
    using encrypt_chunks_bounded [OF assms(3,4)] by (simp add: MAX_CIPHERTEXT_def)
  moreover have s: "s = \<lparr>er_reader = r', er_decryptor = ae_decryptor A key nonce,
      er_cleartext = hb_with_capacity B MAX_CHUNK_SIZE, er_ciphertext = hb_with_capacity B (MAX_CHUNK_SIZE * 2)\<rparr>"
    using assms(5) rd nonce by (simp add: reader_new_def)
  ultimately have "reader_at B A incoming s cts chunks tail"
    using rest hb_with_capacity_empty by (simp add: reader_at_def)
  then show "reader_rel B A incoming s chunks tail" by (auto simp: reader_rel_def)
  show "undelivered B s chunks = concat chunks"
    using hb_with_capacity_empty by (simp add: undelivered_def s)
qed

text \<open>At the end of a stream that was cut nowhere, nothing is left to deliver.\<close>

lemma at_end_delivered:
  assumes "reader_rel B A incoming s pts []" and "at_end B incoming s"
  shows "undelivered B s pts = []"
proof -
  obtain cts where at: "reader_at B A incoming s cts pts []" using assms(1) by (auto simp: reader_rel_def)
  then have "concat (map frame cts) = []" using assms(2) by (simp add: reader_at_def at_end_def)
  then have "cts = []" by (cases cts) (auto simp: frame_def u32_to_be_bytes_def)
  then show ?thesis using at assms(2) by (simp add: reader_at_def undelivered_def at_end_def)
qed

lemma decrypt_all_idle:
  assumes "next_chunk B s = Ok None" and "spare_capacity_len B (er_ciphertext s) \<noteq> 0"
  shows "decrypt_all_full_chunks p B A s = Some (s, Ready (Ok ()))"
  using assms by (simp add: decrypt_all_full_chunks_def decrypt_loop.simps next_chunk_def)

lemma stalled_round:
  assumes "stalled B R s"
  shows "\<exists>t. read_round p B A R s = Some (t, Ready (Ok Continue)) \<and> stalled B R t \<and> er_cleartext t = er_cleartext s"
proof -
  let ?h = "er_ciphertext s"
  let ?h' = "?h\<lparr>hb_buf := bm_store B (hb_buf ?h) (bm_bytes B (hb_buf ?h))\<rparr>"
  let ?t = "s\<lparr>er_ciphertext := ?h'\<rparr>"
  have same: "bm_bytes B (hb_buf ?h') = bm_bytes B (hb_buf ?h)" "bm_capacity B (hb_buf ?h') = bm_capacity B (hb_buf ?h)"
    "hb_cursor ?h' = hb_cursor ?h"
    using length_le_capacity [of "hb_buf ?h"] by (simp_all add: buffer_simps)
  have rd: "inner_read B R s = (?t, Ready (Ok ()))" using assms by (simp add: stalled_def inner_read_def Let_def)
  have st: "stalled B R ?t"
    using assms same
    by (auto simp: stalled_def buffers_ok_def next_chunk_def peek_cipher_chunk_def data_def hb_inv_def hb_data_def
        hb_cap_def spare_capacity_len_def)
  then have inv: "hb_inv B (er_cleartext ?t)" "hb_inv B (er_ciphertext ?t)" "next_chunk B ?t = Ok None"
      "spare_capacity_len B (er_ciphertext ?t) \<noteq> 0"
      "\<not> (hb_data B (er_ciphertext ?t) = [] \<and> hb_data B (er_cleartext ?t) = [])"
    unfolding stalled_def buffers_ok_def by blast+
  have "read_round p B A R s = Some (?t, Ready (Ok Continue))"
    by (rule round_continues [OF rd inv(1,2,5) decrypt_all_idle [OF inv(3,4)]])
  with st show ?thesis by auto
qed

lemma read_loop_hangs:
  assumes "read_loop p B' A' R' n s = Some y" and "B' = B" and "A' = A" and "R' = R"
    and "stalled B R s" and "length (hb_data B (er_cleartext s)) < n"
  shows False
  using assms
proof (induction p B' A' R' n s y rule: read_loop.raw_induct [rotated, consumes 1, case_names step])
  case (step rec p B' A' R' n s y)
  have inv: "hb_inv B (er_cleartext s)" "spare_capacity_len B (er_ciphertext s) \<noteq> 0"
    using step.prems(4) by (simp_all add: stalled_def buffers_ok_def)
  obtain t where t: "read_round p B A R s = Some (t, Ready (Ok Continue))" "stalled B R t" "er_cleartext t = er_cleartext s"
    using stalled_round [OF step.prems(4)] by blast
  have "rec p B A R n t = Some y"
    using step.hyps step.prems t(1) inv(2) by (simp add: data_Ok [OF inv(1)])
  from step.IH [OF this refl refl refl t(2)] show ?case using step.prems(5) t(3) by simp
qed

lemma stalled_never_returns:
  assumes "stalled B R s" and "length (hb_data B (er_cleartext s)) < MAX_CHUNK_SIZE"
    and "\<And>n. wanted = Some n \<Longrightarrow> length (hb_data B (er_cleartext s)) < n"
  shows "read_if_necessary p B A R s wanted = None"
proof -
  define amount where "amount = (case wanted of None \<Rightarrow> MAX_CHUNK_SIZE | Some w \<Rightarrow> min MAX_CHUNK_SIZE w)"
  have ok: "buffers_ok B s" "next_chunk B s = Ok None" "spare_capacity_len B (er_ciphertext s) \<noteq> 0"
    using assms(1) by (simp_all add: stalled_def)
  then have cap: "bm_capacity B (hb_buf (er_cleartext s)) = MAX_CHUNK_SIZE"
    "bm_capacity B (hb_buf (er_ciphertext s)) = 2 * MAX_CHUNK_SIZE"
    by (simp_all add: buffers_ok_def hb_cap_def)
  have "read_loop p B A R amount s = None" if "length (hb_data B (er_cleartext s)) < amount"
    using read_loop_hangs [OF _ refl refl refl assms(1) that, of p] by (cases "read_loop p B A R amount s") auto
  then show ?thesis
    using assms(2,3) decrypt_all_idle [OF ok(2,3), of p]
    by (cases wanted) (auto simp: read_if_necessary_def cap amount_def Let_def)
qed

text \<open>
  A frame that is too long for the buffer: no chunk is ever complete, so the buffer fills up,
  the frame is moved to the front once at most, and then there is no place left to move it.
\<close>

lemma oversized_no_chunk:
  assumes "oversized B s"
  shows "next_chunk B s = Ok None"
proof -
  let ?d = "hb_data B (er_ciphertext s)"
  have inv: "hb_inv B (er_ciphertext s)" and cap: "hb_cap B (er_ciphertext s) = 2 * MAX_CHUNK_SIZE"
    using assms by (auto simp: oversized_def buffers_ok_def)
  have "length ?d \<le> 2 * MAX_CHUNK_SIZE"
    using length_le_capacity [of "hb_buf (er_ciphertext s)"] cap by (simp add: length_hb_data hb_cap_def)
  then have "length ?d < 4 + unat (u32_from_be_bytes (take 4 ?d))" "4 \<le> length ?d"
    using assms by (auto simp: oversized_def)
  then show ?thesis by (simp add: next_chunk_def peek_cipher_chunk_def data_Ok [OF inv] get_range_def Let_def)
qed

text \<open>When the buffer is full, the frame is moved to the front if it fits there, and otherwise this panics.\<close>

lemma oversized_decrypt_all:
  assumes "oversized B s"
  shows "decrypt_all_full_chunks p B A s = Some (s, Ready (Panic OutOfBounds)) \<or>
    (\<exists>t. decrypt_all_full_chunks p B A s = Some (t, Ready (Ok ())) \<and> oversized B t \<and> er_cleartext t = er_cleartext s \<and>
       er_reader t = er_reader s \<and> hb_data B (er_ciphertext t) = hb_data B (er_ciphertext s) \<and>
       spare_capacity_len B (er_ciphertext t) \<noteq> 0)"
proof (cases "spare_capacity_len B (er_ciphertext s) = 0")
  case False
  then show ?thesis using assms decrypt_all_idle [OF oversized_no_chunk [OF assms]] by blast
next
  case True
  let ?h = "er_ciphertext s"
  have inv: "hb_inv B ?h" using assms by (simp add: oversized_def buffers_ok_def)
  have run: "decrypt_all_full_chunks p B A s =
      bind_run (Some (s, Ready (wrap B ?h))) (\<lambda>s h. Some (s\<lparr>er_ciphertext := h\<rparr>, Ready (Ok ())))"
    using True oversized_no_chunk [OF assms] by (simp add: decrypt_all_full_chunks_def decrypt_loop.simps next_chunk_def)
  show ?thesis
  proof (cases "length (hb_data B ?h) \<le> hb_cursor ?h")
    case True
    from wrap_ok [OF inv this] obtain h' where h': "(wrap B ?h :: (io_error, 'b helper_buf) res) = Ok h'"
      "hb_inv B h'" "hb_data B h' = hb_data B ?h" "hb_cap B h' = hb_cap B ?h" "length (bm_bytes B (hb_buf h')) = length (hb_data B ?h)"
      by blast
    have "length (hb_data B ?h) < hb_cap B ?h"
      using True assms length_le_capacity [of "hb_buf ?h"] by (auto simp: oversized_def length_hb_data hb_cap_def)
    then have "spare_capacity_len B h' \<noteq> 0" using h'(4,5) by (simp add: spare_capacity_len_def hb_cap_def)
    with h' run assms show ?thesis by (auto simp: oversized_def buffers_ok_def)
  next
    case False
    then have "(wrap B ?h :: (io_error, 'b helper_buf) res) = Panic OutOfBounds"
      using hb_inv_cursor [OF inv] by (simp add: wrap_def hb_data_def Let_def)
    then show ?thesis using run by simp
  qed
qed

lemma oversized_read:
  assumes "oversized B s" and "prompt R incoming" and "spare_capacity_len B (er_ciphertext s) \<noteq> 0"
    and "incoming (er_reader s) \<noteq> []"
  shows "\<exists>t bs. inner_read B R s = (t, Ready (Ok ())) \<and> bs \<noteq> [] \<and> oversized B t \<and> er_cleartext t = er_cleartext s \<and>
    incoming (er_reader s) = bs @ incoming (er_reader t) \<and> hb_data B (er_ciphertext t) = hb_data B (er_ciphertext s) @ bs"
proof -
  let ?h = "er_ciphertext s"
  from assms(2-4) obtain r' bs where rd: "ar_poll_read R (er_reader s) (spare_capacity_len B ?h) = (r', Ready (Ok bs))" "bs \<noteq> []"
    unfolding prompt_def by (metis gr0I)
  note ok = read_ok [OF rd(1)]
  have room: "length (bm_bytes B (hb_buf ?h) @ bs) \<le> bm_capacity B (hb_buf ?h)"
    using ok length_le_capacity [of "hb_buf ?h"] by (auto simp: spare_capacity_len_def)
  let ?h' = "?h\<lparr>hb_buf := bm_store B (hb_buf ?h) (bm_bytes B (hb_buf ?h) @ bs)\<rparr>"
  have inv: "hb_inv B ?h" using assms(1) by (simp add: oversized_def buffers_ok_def)
  have d: "hb_data B ?h' = hb_data B ?h @ bs" "hb_inv B ?h'" "hb_cap B ?h' = hb_cap B ?h"
    using store_bytes [OF room] store_capacity [OF room] hb_inv_cursor [OF inv] inv
    by (auto simp: hb_data_def hb_inv_def hb_cap_def)
  have "inner_read B R s = (s\<lparr>er_reader := r', er_ciphertext := ?h'\<rparr>, Ready (Ok ()))" using rd(1) by (simp add: inner_read_def Let_def)
  moreover have "oversized B (s\<lparr>er_reader := r', er_ciphertext := ?h'\<rparr>)" using assms(1) d by (simp add: oversized_def buffers_ok_def)
  ultimately show ?thesis using d(1) ok rd(2) by auto
qed

lemma oversized_loop_panics:
  assumes "oversized B s" and "prompt R incoming" and "length (hb_data B (er_cleartext s)) < n"
    and "spare_capacity_len B (er_ciphertext s) \<noteq> 0"
    and "2 * MAX_CHUNK_SIZE \<le> length (hb_data B (er_ciphertext s)) + length (incoming (er_reader s))"
  shows "\<exists>t. read_loop p B A R n s = Some (t, Ready (Panic OutOfBounds))"
  using assms
proof (induction "length (incoming (er_reader s))" arbitrary: s rule: less_induct)
  case less
  have inv: "hb_inv B (er_cleartext s)" "hb_inv B (er_ciphertext s)" "hb_cap B (er_ciphertext s) = 2 * MAX_CHUNK_SIZE"
    using less.prems(1) by (simp_all add: oversized_def buffers_ok_def)
  have "length (hb_data B (er_ciphertext s)) < 2 * MAX_CHUNK_SIZE"
    using less.prems(4) inv(3) by (simp add: length_hb_data spare_capacity_len_def hb_cap_def)
  then have "incoming (er_reader s) \<noteq> []" using less.prems(5) by auto
  from oversized_read [OF less.prems(1,2,4) this] obtain t bs where t: "inner_read B R s = (t, Ready (Ok ()))" "bs \<noteq> []"
    "oversized B t" "er_cleartext t = er_cleartext s" "incoming (er_reader s) = bs @ incoming (er_reader t)"
    "hb_data B (er_ciphertext t) = hb_data B (er_ciphertext s) @ bs" by blast
  have t_inv: "hb_inv B (er_cleartext t)" "hb_inv B (er_ciphertext t)" "hb_data B (er_ciphertext t) \<noteq> []"
    using t(3) by (auto simp: oversized_def buffers_ok_def)
  consider "decrypt_all_full_chunks p B A t = Some (t, Ready (Panic OutOfBounds))"
    | u where "decrypt_all_full_chunks p B A t = Some (u, Ready (Ok ()))" "oversized B u" "er_cleartext u = er_cleartext t"
      "er_reader u = er_reader t" "hb_data B (er_ciphertext u) = hb_data B (er_ciphertext t)" "spare_capacity_len B (er_ciphertext u) \<noteq> 0"
    using oversized_decrypt_all [OF t(3), of p] by blast
  then show ?case
  proof cases
    case 1
    then have "read_round p B A R s = Some (t, Ready (Panic OutOfBounds))"
      using t(1) t_inv by (simp add: read_round_def data_Ok [OF t_inv(2)])
    then show ?thesis using less.prems(3,4) by (simp add: read_loop.simps [of p B A R n s] data_Ok [OF inv(1)])
  next
    case 2
    have "read_round p B A R s = Some (u, Ready (Ok Continue))"
      by (rule round_continues [OF t(1) t_inv(1,2) _ 2(1)]) (use t_inv(3) in simp)
    moreover have "\<exists>v. read_loop p B A R n u = Some (v, Ready (Panic OutOfBounds))"
      by (rule less.hyps [OF _ 2(2) less.prems(2) _ 2(6)]) (use 2 t less.prems in auto)
    ultimately show ?thesis using less.prems(3,4) by (simp add: read_loop.simps [of p B A R n s] data_Ok [OF inv(1)])
  qed
qed

end

lemma peek_Some:
  assumes "hb_inv B h" and "peek_cipher_chunk B h = Ok (Some ct)"
  shows "4 + length ct \<le> length (hb_data B h)"
  using assms(2) by (auto simp: peek_cipher_chunk_def data_Ok [OF assms(1)] get_range_def Let_def split: option.splits if_splits)

interpretation open_reader: reader_env list_bytes_mut "\<lambda>_ _. True" counter_aead "(=)" open_source "\<lambda>r. r"
  by unfold_locales (auto simp: open_source_def list_read_def split: if_splits)

interpretation closed_reader: reader_env list_bytes_mut "\<lambda>_ _. True" counter_aead "(=)" closed_source "\<lambda>r. r"
  by unfold_locales (auto simp: closed_source_def list_read_def split: if_splits)

section \<open>Properties\<close>

text \<open>
  C3: \<open>poll_read\<close> with room for at least one byte, on every branch, over any stream a writer
  produced and however it arrives cut up: the bytes returned are the next of the plaintext, an empty result means that
  nothing is buffered and nothing is to arrive, a pending or failed read loses nothing, and
  it never panics, in debug builds either. (Without room and with nothing buffered a debug build
  does: \<open>empty_read_panics\<close>.)
\<close>

theorem poll_read_delivers_in_order:
  assumes "reader_env B adj A sync R incoming" and "reader_rel B A incoming s pts tail" and "0 < n"
    and "poll_read p B A R s n = Some (s', r)"
  shows "\<exists>pts' bs. reader_rel B A incoming s' pts' tail \<and> undelivered B s pts = bs @ undelivered B s' pts' \<and>
    (case r of
       Pending \<Rightarrow> bs = [] \<and> hb_data B (er_cleartext s') = []
     | Ready (Ok cs) \<Rightarrow> cs = bs \<and> length bs \<le> n \<and> (bs = [] \<longrightarrow> at_end B incoming s')
     | Ready (Err e) \<Rightarrow> bs = []
     | Ready (Panic q) \<Rightarrow> False)"
  using reader_env.poll_read_partial [OF assms] .

text \<open>
  C10: over an inner reader that does not report the end of its stream, every read returns,
  whatever the cut of the stream and the size of the caller's buffer.
\<close>

theorem reader_calls_return:
  assumes "reader_env B adj A sync R incoming" and "reader_rel B A incoming s pts tail" and "never_eof R"
  shows "poll_read p B A R s n \<noteq> None \<and> poll_fill_buf p B A R s \<noteq> None"
proof -
  have "read_if_necessary p B A R s w \<noteq> None" for w
    using reader_env.read_if_necessary_returns [OF assms] .
  then have "\<not> (poll_read p B A R s n = None)" "\<not> (poll_fill_buf p B A R s = None)"
    by (auto simp: poll_read_def poll_fill_buf_def bind_run_None Let_def simp del: not_None_eq)
  then show ?thesis by blast
qed

text \<open>
  C12: at the end of its stream a reader that still holds cleartext, but less than the caller
  has room for, or an incomplete frame, never returns: the loop polls the ended stream again
  and again. So the last bytes of a stream are lost to a caller with a larger buffer.
\<close>

theorem reader_hangs_at_eof:
  assumes "reader_env B adj A sync R incoming" and "stalled B R s"
    and "length (hb_data B (er_cleartext s)) < 8192"
  shows "poll_fill_buf p B A R s = None \<and>
    (length (hb_data B (er_cleartext s)) < n \<longrightarrow> poll_read p B A R s n = None)"
proof -
  have "read_if_necessary p B A R s None = None"
    by (rule reader_env.stalled_never_returns [OF assms(1,2)]) (use assms(3) in \<open>simp_all add: MAX_CHUNK_SIZE_def\<close>)
  moreover have "read_if_necessary p B A R s (Some n) = None" if "length (hb_data B (er_cleartext s)) < n"
    by (rule reader_env.stalled_never_returns [OF assms(1,2)]) (use assms(3) that in \<open>simp_all add: MAX_CHUNK_SIZE_def\<close>)
  ultimately show ?thesis by (simp add: poll_read_def poll_fill_buf_def)
qed

text \<open>
  A read with an empty buffer while no cleartext is at hand, legal for any asynchronous
  reader, trips the assertion at the end of \<open>read_if_necessary\<close> in debug builds; release
  builds return nothing.
\<close>

lemma empty_read_panics:
  assumes "reader_env B adj A sync R incoming" and "buffers_ok B s" and "hb_data B (er_cleartext s) = []"
    and "next_chunk B s = Ok None" and "spare_capacity_len B (er_ciphertext s) \<noteq> 0"
  shows "poll_read Debug B A R s 0 = Some (s, Ready (Panic AssertionFailed)) \<and>
    (\<exists>s'. poll_read Release B A R s 0 = Some (s', Ready (Ok [])))"
proof -
  have inv: "hb_inv B (er_cleartext s)" using assms(2) by (simp add: buffers_ok_def)
  then have empty: "hb_cursor (er_cleartext s) = 0" "bm_bytes B (hb_buf (er_cleartext s)) = []"
    using assms(3) by (auto simp: hb_inv_def hb_data_def)
  have cap: "bm_capacity B (hb_buf (er_cleartext s)) = MAX_CHUNK_SIZE"
    "bm_capacity B (hb_buf (er_ciphertext s)) = 2 * MAX_CHUNK_SIZE"
    using assms(2) by (simp_all add: buffers_ok_def hb_cap_def)
  have "read_loop p B A R 0 s = Some (s, Ready (Ok False))" for p
    by (simp add: read_loop.simps data_Ok [OF inv])
  then have "read_if_necessary p B A R s (Some 0) =
      Some (s, Ready (if p = Debug then Panic AssertionFailed else Ok False))" for p
    using reader_env.decrypt_all_idle [OF assms(1,4,5), of p] assms(3)
    by (cases p) (simp_all add: read_if_necessary_def cap data_Ok [OF inv] debug_assert_def)
  then show ?thesis by (simp add: poll_read_def data_Ok [OF inv] advance_cursor_def usize_add_def empty assms(3))
qed

text \<open>
  C20: a frame that does not authenticate is reported as \<open>InvalidData\<close> and delivers nothing;
  the spare capacity of the cleartext buffer is lost on that path, so in a debug build the
  next read panics.
\<close>

theorem tampered_chunk_rejected:
  assumes "reader_env B adj A sync R incoming" and "buffers_ok B s" and "next_chunk B s = Ok (Some ct)"
    and "length ct \<le> spare_capacity_len B (er_cleartext s)" and "ct \<noteq> []"
    and "snd (ae_decrypt A (er_decryptor s) ct) = None"
  shows "\<exists>s'. poll_read p B A R s n = Some (s', Ready (Err InvalidData)) \<and>
    hb_data B (er_cleartext s') = hb_data B (er_cleartext s) \<and>
    poll_read Debug B A R s' m = Some (s', Ready (Panic AssertionFailed))"
proof -
  have laws: "bytes_mut_laws B adj" using assms(1) by (simp add: reader_env_def)
  let ?b = "hb_buf (er_cleartext s)"
  have inv: "hb_inv B (er_cleartext s)" "hb_inv B (er_ciphertext s)"
    and cap: "bm_capacity B ?b = MAX_CHUNK_SIZE" "bm_capacity B (hb_buf (er_ciphertext s)) = 2 * MAX_CHUNK_SIZE"
    using assms(2) by (simp_all add: buffers_ok_def hb_cap_def)
  obtain buf space where sp: "bm_split_off B ?b (length (bm_bytes B ?b)) = (buf, space)" by fastforce
  note split = bytes_mut_laws.split_bytes [OF laws order_refl sp] bytes_mut_laws.split_capacity [OF laws order_refl sp]
  have len: "length ct + 4 \<le> length (hb_data B (er_ciphertext s))"
    using peek_Some [OF inv(2) assms(3) [unfolded next_chunk_def]] by simp
  have lt: "hb_cap B (er_ciphertext s) < 2 ^ 64" using cap(2) by (simp add: hb_cap_def MAX_CHUNK_SIZE_def)
  obtain h where h: "(advance_cursor p B (er_ciphertext s) (length ct + 4) :: (io_error, 'a helper_buf) res) = Ok h"
    using bytes_mut_laws.advance_cursor_ok [OF laws inv(2) len lt] by blast
  define s' where "s' = s\<lparr>er_cleartext := (er_cleartext s)\<lparr>hb_buf := buf\<rparr>, er_ciphertext := h,
    er_decryptor := fst (ae_decrypt A (er_decryptor s) ct)\<rparr>"
  have "bm_bytes B (bm_extend B space ct) = ct"
    using split bytes_mut_laws.extend_bytes [OF laws] by simp
  then have "decrypt_chunk p B A s ct = (s', Err InvalidData)"
    using h assms(6) bytes_mut_laws.length_le_capacity [OF laws, of ?b]
    by (cases "ae_decrypt A (er_decryptor s) ct") (simp add: decrypt_chunk_def split_off_def sp Let_def s'_def)
  then have "decrypt_all_full_chunks p B A s = Some (s', Ready (Err InvalidData))"
    using assms(3,4) by (simp add: decrypt_all_full_chunks_def decrypt_loop.simps next_chunk_def)
  then have "poll_read p B A R s n = Some (s', Ready (Err InvalidData))"
    by (simp add: poll_read_def read_if_necessary_def cap Let_def)
  moreover have "length (bm_bytes B ?b) \<noteq> MAX_CHUNK_SIZE"
    using assms(4,5) cap(1) by (auto simp: spare_capacity_len_def)
  then have "poll_read Debug B A R s' m = Some (s', Ready (Panic AssertionFailed))"
    using split by (simp add: poll_read_def read_if_necessary_def s'_def debug_assert_def)
  moreover have "hb_data B (er_cleartext s') = hb_data B (er_cleartext s)"
    using split by (simp add: s'_def hb_data_def)
  ultimately show ?thesis by blast
qed

text \<open>
  C21: the length in front of a frame is not authenticated and not checked. When it announces
  more than the 16384 bytes of the ciphertext buffer can hold and that many bytes of the frame
  arrive, the buffer fills up with the incomplete frame and moving it to the front panics, in
  every build. This is a read that asks for more than the cleartext at hand, over an inner reader
  that delivers what is to arrive.
\<close>

theorem oversized_frame_panics:
  assumes "reader_env B adj A sync R incoming" and "oversized B s" and "prompt R incoming"
    and "2 * MAX_CHUNK_SIZE \<le> length (hb_data B (er_ciphertext s)) + length (incoming (er_reader s))"
    and "length (hb_data B (er_cleartext s)) < min n MAX_CHUNK_SIZE"
  shows "\<exists>t. poll_read p B A R s n = Some (t, Ready (Panic OutOfBounds))"
proof -
  have cap: "bm_capacity B (hb_buf (er_cleartext s)) = MAX_CHUNK_SIZE"
    "bm_capacity B (hb_buf (er_ciphertext s)) = 2 * MAX_CHUNK_SIZE"
    using assms(2) by (simp_all add: oversized_def buffers_ok_def hb_cap_def)
  have "\<exists>t. read_if_necessary p B A R s (Some n) = Some (t, Ready (Panic OutOfBounds))"
    using reader_env.oversized_decrypt_all [OF assms(1,2), of p]
  proof (elim disjE exE conjE)
    fix t
    assume "decrypt_all_full_chunks p B A s = Some (t, Ready (Ok ()))" "oversized B t" "er_cleartext t = er_cleartext s"
      "er_reader t = er_reader s" "hb_data B (er_ciphertext t) = hb_data B (er_ciphertext s)" "spare_capacity_len B (er_ciphertext t) \<noteq> 0"
    moreover from reader_env.oversized_loop_panics [OF assms(1) this(2) assms(3) _ this(6), of "min MAX_CHUNK_SIZE n" p] this(3-5) assms(4,5)
    obtain u where "read_loop p B A R (min MAX_CHUNK_SIZE n) t = Some (u, Ready (Panic OutOfBounds))" by auto
    ultimately show ?thesis by (simp add: read_if_necessary_def cap Let_def)
  qed (simp add: read_if_necessary_def cap Let_def)
  then show ?thesis by (auto simp: poll_read_def)
qed

section \<open>Concrete instances\<close>

lemmas reader_concrete_defs = reader_with_def list_bytes_mut_def open_source_def closed_source_def list_read_def
  data_def index_range_def hb_inv_def hb_data_def hb_cap_def spare_capacity_len_def MAX_CHUNK_SIZE_def
  next_chunk_def peek_cipher_chunk_def get_range_def buffers_ok_def

lemma abc_encrypt:
  "encrypt_chunks counter_aead (ae_encryptor counter_aead [9] [1, 2, 3, 4, 5, 6, 7, 8]) [[65, 66, 67]] =
    ((sum_list [9 :: u8] + sum_list [1, 2, 3, 4, 5, 6, 7, 8], 1), Some [abc_chunk])"
  by (simp add: abc_chunk_def counter_aead_def counter_limit_def)

lemma abc_new:
  "reader_new list_bytes_mut counter_aead open_source ([1, 2, 3, 4, 5, 6, 7, 8] @ frame abc_chunk) [9] =
    (frame abc_chunk, Ok (reader_with (frame abc_chunk) [] []))"
  by (simp add: reader_new_def reader_with_def open_source_def list_read_def hb_with_capacity_def list_bytes_mut_def MAX_CHUNK_SIZE_def)

lemma abc_rel:
  "reader_rel list_bytes_mut counter_aead (\<lambda>r. r) (reader_with (frame abc_chunk) [] []) [[65, 66, 67]] []"
  by (rule open_reader.reader_new_rel(1) [OF _ _ abc_encrypt _ abc_new]) simp_all

lemma open_source_never_eof: "never_eof open_source"
  by (auto simp: never_eof_def open_source_def list_read_def)

theorem poll_read_delivers_in_order_witness:
  "\<exists>s' r pts' bs. poll_read Debug list_bytes_mut counter_aead open_source (reader_with (frame abc_chunk) [] []) 2 = Some (s', r) \<and>
    undelivered list_bytes_mut (reader_with (frame abc_chunk) [] []) [[65, 66, 67]] = bs @ undelivered list_bytes_mut s' pts'"
proof -
  have "poll_read Debug list_bytes_mut counter_aead open_source (reader_with (frame abc_chunk) [] []) 2 \<noteq> None"
    using open_reader.read_if_necessary_returns [OF abc_rel open_source_never_eof]
    by (auto simp: poll_read_def bind_run_None Let_def simp del: not_None_eq)
  then obtain s' r where run: "poll_read Debug list_bytes_mut counter_aead open_source (reader_with (frame abc_chunk) [] []) 2 = Some (s', r)"
    by auto
  have "(0 :: nat) < 2" by simp
  from poll_read_delivers_in_order [OF open_reader.reader_env_axioms abc_rel this run] run show ?thesis by blast
qed

theorem reader_calls_return_witness:
  "poll_read Debug list_bytes_mut counter_aead open_source (reader_with (frame abc_chunk) [] []) 2 \<noteq> None \<and>
   poll_fill_buf Debug list_bytes_mut counter_aead open_source (reader_with (frame abc_chunk) [] []) \<noteq> None"
  by (rule reader_calls_return [OF open_reader.reader_env_axioms abc_rel open_source_never_eof])

theorem reader_hangs_at_eof_witness:
  "poll_fill_buf Debug list_bytes_mut counter_aead closed_source (reader_with [] [65, 66, 67] []) = None \<and>
   poll_read Debug list_bytes_mut counter_aead closed_source (reader_with [] [65, 66, 67] []) 10 = None"
proof -
  have "stalled list_bytes_mut closed_source (reader_with [] [65, 66, 67] [])"
    by (simp add: stalled_def reader_concrete_defs)
  moreover have "length (hb_data list_bytes_mut (er_cleartext (reader_with [] [65, 66, 67] []))) = 3"
    by (simp add: reader_concrete_defs)
  ultimately show ?thesis
    using reader_hangs_at_eof [OF closed_reader.reader_env_axioms, of "reader_with [] [65, 66, 67] []" Debug 10] by simp
qed

theorem tampered_chunk_rejected_witness:
  "\<exists>s'. poll_read Release list_bytes_mut counter_aead open_source (reader_with [] [] [0, 0, 0, 1, 77]) 5 =
      Some (s', Ready (Err InvalidData)) \<and>
    hb_data list_bytes_mut (er_cleartext s') = hb_data list_bytes_mut (er_cleartext (reader_with [] [] [0, 0, 0, 1, 77])) \<and>
    poll_read Debug list_bytes_mut counter_aead open_source s' 5 = Some (s', Ready (Panic AssertionFailed))"
  by (rule tampered_chunk_rejected [OF open_reader.reader_env_axioms, of _ "[77]"])
    (simp_all add: reader_concrete_defs counter_aead_def)

theorem oversized_frame_panics_witness:
  "\<exists>t. poll_read Release list_bytes_mut counter_aead open_source (reader_with (replicate 17000 7) [] [255, 255, 255, 255]) 5 =
    Some (t, Ready (Panic OutOfBounds))"
proof (rule oversized_frame_panics [OF open_reader.reader_env_axioms])
  show "oversized list_bytes_mut (reader_with (replicate 17000 7) [] [255, 255, 255, 255])"
    by (simp add: oversized_def buffers_ok_def hb_inv_def hb_cap_def hb_data_def reader_concrete_defs)
  show "prompt open_source (\<lambda>r. r)" by (auto simp: prompt_def open_source_def list_read_def)
qed (simp_all add: hb_data_def reader_concrete_defs)

end
