(* ===== verification/Encrypted_Channel.thy ===== *)
theory Encrypted_Channel
  imports Encrypted_Writer Encrypted_Reader
begin

text \<open>
  Writer and reader of \<^verbatim>\<open>gday_encryption\<close> together: both ends hold the same key, and what arrives
  at the reader is what the writer sent, or the beginning of it. The channel is a byte queue:
  the contract is on the plaintext the calls of the writer accepted and the plaintext the
  calls of the reader delivered.
\<close>

section \<open>The wire between the two ends\<close>

text \<open>
  A writer that was opened with a key over an unused sink and has gone through a session.
\<close>

definition writer_ran ::
  "profile \<Rightarrow> 'b bytes_mut \<Rightarrow> ('e, 'd) aead_stream \<Rightarrow> 'w async_write \<Rightarrow> ('w \<Rightarrow> u8 list) \<Rightarrow> u8 list
   \<Rightarrow> ('w, 'e, 'b) encrypted_writer \<Rightarrow> u8 list \<Rightarrow> bool" where
  "writer_ran p B A W sent key t accepted \<longleftrightarrow>
     (\<exists>w w' nonce s calls. sent w = [] \<and> length nonce = 8 \<and> writer_new B A W w key nonce = (w', Ok s) \<and>
        writer_session p B A W s calls = Some (t, accepted))"

text \<open>A reader that was opened with a key over a stream and has gone through a session.\<close>

definition reader_ran ::
  "profile \<Rightarrow> 'b bytes_mut \<Rightarrow> ('e, 'd) aead_stream \<Rightarrow> 'r async_read \<Rightarrow> u8 list \<Rightarrow> 'r
   \<Rightarrow> ('r, 'd, 'b) encrypted_reader \<Rightarrow> u8 list \<Rightarrow> bool" where
  "reader_ran p B A R key r v delivered \<longleftrightarrow>
     (\<exists>r' u reads. reader_new B A R r key = (r', Ok u) \<and> (\<forall>c \<in> set reads. asks_some c) \<and>
        reader_session p B A R u reads = Some (v, delivered))"

text \<open>The decryptor of the concrete stream after its first chunk.\<close>

definition abc_decryptor :: "u8 \<times> nat" where
  "abc_decryptor = (45, 1)"

section \<open>Shared facts\<close>

lemma writer_ran_wire:
  assumes "writer_env B adj A sync W sent" and "writer_ran p B A W sent key t accepted"
  obtains nonce chunks pending where "length nonce = 8"
    and "writer_rel B A sent (ae_encryptor A key nonce) nonce t chunks pending"
    and "accepted = concat chunks @ pending"
proof -
  obtain w w' nonce s calls where w: "sent w = []" "length nonce = 8" "writer_new B A W w key nonce = (w', Ok s)"
    "writer_session p B A W s calls = Some (t, accepted)"
    using assms(2) by (auto simp: writer_ran_def)
  obtain chunks pending where "writer_rel B A sent (ae_encryptor A key nonce) (sent w @ nonce) t chunks pending"
    "concat chunks @ pending = accepted"
    using writer_env.writer_session_rel [OF assms(1) writer_env.writer_new_rel [OF assms(1) w(3)] w(4)] by auto
  then show thesis using that [of nonce chunks pending] w by simp
qed

text \<open>A reader that is fed a beginning of the frames of some chunks.\<close>

lemma reader_ran_rel:
  assumes "reader_env C adj A sync R incoming" and "reader_ran q C A R key r v delivered"
    and "writer_rel B A sent (ae_encryptor A key nonce) nonce t chunks pending" and "length nonce = 8"
    and "incoming r @ tail = sent (ew_writer t) @ unsent B t"
  obtains pts where "reader_rel C A incoming v pts tail" and "concat chunks = delivered @ undelivered C v pts"
proof -
  obtain r' u reads where u: "reader_new C A R r key = (r', Ok u)" "\<forall>c \<in> set reads. asks_some c"
    "reader_session q C A R u reads = Some (v, delivered)"
    using assms(2) by (auto simp: reader_ran_def)
  obtain cts where enc: "encrypt_chunks A (ae_encryptor A key nonce) chunks = (ew_encryptor t, Some cts)"
    and wire: "incoming r @ tail = nonce @ concat (map frame cts)"
    using writer_rel_views(2) [OF assms(3)] assms(5) by auto
  have short: "\<forall>c \<in> set chunks. length c \<le> 8172"
    using assms(3) by (simp add: writer_rel_def MAX_PLAINTEXT_def)
  note new = reader_env.reader_new_rel [OF assms(1) wire assms(4) enc short u(1)]
  obtain pts where "reader_rel C A incoming v pts tail" "undelivered C u chunks = delivered @ undelivered C v pts"
    using reader_env.reader_session_rel [OF assms(1) new(1) u(2,3)] by blast
  then show thesis using that new(2) by simp
qed

section \<open>Properties\<close>

text \<open>
  C1: no matter how both ends are used, how the wire cuts the bytes up and where it ends, the
  plaintext the reader has delivered is a beginning of the plaintext the writer has accepted:
  nothing is lost in between, duplicated, reordered or made up.
\<close>

theorem channel_delivers_prefix:
  assumes "writer_env B adj A sync W sent" and "reader_env C adj' A sync R incoming"
    and "writer_ran p B A W sent key t accepted" and "incoming r @ tail = sent (ew_writer t)"
    and "reader_ran q C A R key r v delivered"
  shows "\<exists>rest. accepted = delivered @ rest"
proof -
  obtain nonce chunks pending where w: "length nonce = 8"
    "writer_rel B A sent (ae_encryptor A key nonce) nonce t chunks pending" "accepted = concat chunks @ pending"
    by (rule writer_ran_wire [OF assms(1,3)])
  have "incoming r @ tail @ unsent B t = sent (ew_writer t) @ unsent B t" 
    by (simp add: assms(4) append_assoc [symmetric] del: append_assoc)
  then obtain pts where "concat chunks = delivered @ undelivered C v pts"
    by (rule reader_ran_rel [OF assms(2,5) w(2,1)])
  then show ?thesis using w(3) by simp
qed

text \<open>
  C2: once a flush has returned \<open>Ok\<close> and all that was sent can arrive, a reader that reports
  the end of the stream has delivered exactly what the writer accepted.
\<close>

theorem channel_complete_at_eof:
  assumes "writer_env B adj A sync W sent" and "reader_env C adj' A sync R incoming"
    and "writer_ran p B A W sent key t accepted" and "poll_flush p B A W t = Some (t', Ready (Ok ()))"
    and "incoming r = sent (ew_writer t')" and "reader_ran q C A R key r v delivered"
    and "0 < n" and "poll_read q C A R v n = Some (v', Ready (Ok []))"
  shows "delivered = accepted"
proof -
  obtain nonce chunks pending where w: "length nonce = 8"
    "writer_rel B A sent (ae_encryptor A key nonce) nonce t chunks pending" "accepted = concat chunks @ pending"
    by (rule writer_ran_wire [OF assms(1,3)])
  obtain chs where chs: "writer_rel B A sent (ae_encryptor A key nonce) nonce t' chs []" "concat chs = accepted"
    and "\<not> ew_is_flushing t'"
    using writer_env.poll_flush_partial [OF assms(1) w(2) assms(4)] w(3) by auto
  then have "incoming r @ [] = sent (ew_writer t') @ unsent B t'" using assms(5) by (simp add: unsent_def)
  then obtain pts where v: "reader_rel C A incoming v pts []" "concat chs = delivered @ undelivered C v pts"
    by (rule reader_ran_rel [OF assms(2,6) chs(1) w(1)])
  obtain pts' where v': "reader_rel C A incoming v' pts' []" "undelivered C v pts = undelivered C v' pts'" "at_end C incoming v'"
    using reader_env.poll_read_partial [OF assms(2) v(1) assms(7,8)] by auto
  then have "undelivered C v' pts' = []" using reader_env.at_end_delivered [OF assms(2)] by blast
  then show ?thesis using v(2) v'(2) chs(2) by simp
qed

section \<open>Concrete instances\<close>

lemma abc_written:
  "\<exists>t t'. writer_ran Debug list_bytes_mut counter_aead vec_sink (\<lambda>w. w) [9] t [65, 66, 67] \<and>
    poll_flush Debug list_bytes_mut counter_aead vec_sink t = Some (t', Ready (Ok ())) \<and>
    ew_writer t' = [1, 2, 3, 4, 5, 6, 7, 8] @ frame abc_chunk"
proof -
  have "\<exists>t t'. writer_session Debug list_bytes_mut counter_aead vec_sink fresh_writer [CallWrite [65, 66, 67]] = Some (t, [65, 66, 67]) \<and>
    poll_flush Debug list_bytes_mut counter_aead vec_sink t = Some (t', Ready (Ok ())) \<and>
    ew_writer t' = [1, 2, 3, 4, 5, 6, 7, 8] @ frame abc_chunk"
    by (simp add: writer_run_defs concrete_defs abc_chunk_def frame_def)
  moreover have "length [1, 2, 3, 4, 5, 6, 7, 8 :: u8] = 8" by simp
  ultimately show ?thesis using fresh_writer_new unfolding writer_ran_def by blast
qed


text \<open>The reader's run over the same bytes, in the steps of its loop.\<close>

lemma abc_concrete: "frame abc_chunk = [0, 0, 0, 19] @ abc_chunk" "length abc_chunk = 19"
  by (simp_all add: frame_def abc_chunk_def u32_to_be_bytes_def)

lemma abc_fills:
  "inner_read list_bytes_mut closed_source (reader_with (frame abc_chunk) [] []) = (reader_with [] [] (frame abc_chunk), Ready (Ok ()))"
  by (simp add: inner_read_def reader_with_def closed_source_def list_read_def spare_capacity_len_def list_bytes_mut_def abc_concrete)

lemma abc_decrypts:
  "decrypt_chunk Debug list_bytes_mut counter_aead (reader_with [] [] (frame abc_chunk)) abc_chunk =
    ((reader_with [] [65, 66, 67] [])\<lparr>er_decryptor := abc_decryptor\<rparr>, Ok ())"
  by (simp add: decrypt_chunk_def reader_with_def concrete_defs abc_chunk_def frame_def abc_decryptor_def)

lemmas reader_step_defs = reader_with_def list_bytes_mut_def spare_capacity_len_def data_def index_range_def
  peek_cipher_chunk_def get_range_def next_chunk_def

lemma abc_all_decrypted:
  "decrypt_all_full_chunks Debug list_bytes_mut counter_aead (reader_with [] [] (frame abc_chunk)) =
    Some ((reader_with [] [65, 66, 67] [])\<lparr>er_decryptor := abc_decryptor\<rparr>, Ready (Ok ()))"
proof -
  let ?s = "reader_with [] [] (frame abc_chunk)" and ?t = "(reader_with [] [65, 66, 67] [])\<lparr>er_decryptor := abc_decryptor\<rparr>"
  have "peek_cipher_chunk list_bytes_mut (er_ciphertext ?s) = (Ok (Some abc_chunk) :: (io_error, u8 list option) res)"
    by (simp add: reader_step_defs abc_concrete)
  moreover have "spare_capacity_len list_bytes_mut (er_cleartext ?s) = 8192" by (simp add: reader_step_defs)
  ultimately have "decrypt_loop Debug list_bytes_mut counter_aead ?s = decrypt_loop Debug list_bytes_mut counter_aead ?t"
    by (simp add: decrypt_loop.simps [of Debug list_bytes_mut counter_aead ?s] abc_decrypts abc_concrete(2))
  also have "\<dots> = Some (?t, Ready (Ok True))"
    by (simp add: decrypt_loop.simps reader_step_defs)
  finally show ?thesis by (simp add: decrypt_all_full_chunks_def) (simp add: reader_step_defs)
qed

lemma abc_round:
  "read_round Debug list_bytes_mut counter_aead closed_source (reader_with (frame abc_chunk) [] []) =
    Some ((reader_with [] [65, 66, 67] [])\<lparr>er_decryptor := abc_decryptor\<rparr>, Ready (Ok Continue))"
  by (rule closed_reader.round_continues [OF abc_fills _ _ _ abc_all_decrypted])
    (simp_all add: hb_inv_def hb_data_def reader_with_def list_bytes_mut_def abc_concrete)

lemma abc_poll_read:
  "poll_read Debug list_bytes_mut counter_aead closed_source (reader_with (frame abc_chunk) [] []) 3 =
    Some ((reader_with [] [] [])\<lparr>er_decryptor := abc_decryptor\<rparr>, Ready (Ok [65, 66, 67]))"
proof -
  let ?s = "reader_with (frame abc_chunk) [] []" and ?t = "(reader_with [] [65, 66, 67] [])\<lparr>er_decryptor := abc_decryptor\<rparr>"
  have "next_chunk list_bytes_mut ?s = Ok None" "spare_capacity_len list_bytes_mut (er_ciphertext ?s) \<noteq> 0"
    by (simp_all add: reader_step_defs)
  from closed_reader.decrypt_all_idle [OF this, of Debug]
  have idle: "decrypt_all_full_chunks Debug list_bytes_mut counter_aead ?s = Some (?s, Ready (Ok ()))" .
  have "data list_bytes_mut (er_cleartext ?s) = (Ok [] :: (io_error, u8 list) res)"
    "spare_capacity_len list_bytes_mut (er_ciphertext ?s) \<noteq> 0" by (simp_all add: reader_step_defs)
  then have "read_loop Debug list_bytes_mut counter_aead closed_source 3 ?s = read_loop Debug list_bytes_mut counter_aead closed_source 3 ?t"
    by (simp add: read_loop.simps [of _ _ _ _ _ ?s] abc_round)
  also have "\<dots> = Some (?t, Ready (Ok False))"
    by (simp add: read_loop.simps reader_step_defs)
  finally have "read_if_necessary Debug list_bytes_mut counter_aead closed_source ?s (Some 3) = Some (?t, Ready (Ok False))"
    using idle by (simp add: read_if_necessary_def) (simp add: reader_step_defs MAX_CHUNK_SIZE_def)
  then show ?thesis by (simp add: poll_read_def) (simp add: reader_step_defs advance_cursor_def usize_add_def)
qed

lemma abc_eof:
  "poll_read Debug list_bytes_mut counter_aead closed_source ((reader_with [] [] [])\<lparr>er_decryptor := abc_decryptor\<rparr>) 3 =
    Some ((reader_with [] [] [])\<lparr>er_decryptor := abc_decryptor\<rparr>, Ready (Ok []))"
proof -
  let ?s = "(reader_with [] [] [])\<lparr>er_decryptor := abc_decryptor\<rparr>"
  have "next_chunk list_bytes_mut ?s = Ok None" "spare_capacity_len list_bytes_mut (er_ciphertext ?s) \<noteq> 0"
    by (simp_all add: reader_step_defs)
  from closed_reader.decrypt_all_idle [OF this, of Debug]
  have idle: "decrypt_all_full_chunks Debug list_bytes_mut counter_aead ?s = Some (?s, Ready (Ok ()))" .
  have "read_round Debug list_bytes_mut counter_aead closed_source ?s = Some (?s, Ready (Ok ReturnEof))"
    by (simp add: read_round_def inner_read_def closed_source_def list_read_def reader_step_defs)
  then have "read_loop Debug list_bytes_mut counter_aead closed_source 3 ?s = Some (?s, Ready (Ok True))"
    by (simp add: read_loop.simps) (simp add: reader_step_defs)
  then show ?thesis using idle by (simp add: poll_read_def read_if_necessary_def) (simp add: reader_step_defs MAX_CHUNK_SIZE_def)
qed

lemma abc_reader_ran:
  "reader_ran Debug list_bytes_mut counter_aead closed_source [9] ([1, 2, 3, 4, 5, 6, 7, 8] @ frame abc_chunk)
    ((reader_with [] [] [])\<lparr>er_decryptor := abc_decryptor\<rparr>) [65, 66, 67]"
proof -
  have "reader_new list_bytes_mut counter_aead closed_source ([1, 2, 3, 4, 5, 6, 7, 8] @ frame abc_chunk) [9] =
    (frame abc_chunk, Ok (reader_with (frame abc_chunk) [] []))"
    by (simp add: reader_new_def reader_with_def closed_source_def list_read_def hb_with_capacity_def list_bytes_mut_def MAX_CHUNK_SIZE_def)
  moreover have "reader_session Debug list_bytes_mut counter_aead closed_source (reader_with (frame abc_chunk) [] []) [CallRead 3] =
    Some ((reader_with [] [] [])\<lparr>er_decryptor := abc_decryptor\<rparr>, [65, 66, 67])"
    by (simp add: abc_poll_read)
  moreover have "\<forall>c \<in> set [CallRead 3]. asks_some c" by simp
  ultimately show ?thesis unfolding reader_ran_def by blast
qed

theorem channel_complete_at_eof_witness:
  "\<exists>t :: (u8 list, u8 \<times> nat, list_buf) encrypted_writer.
    writer_ran Debug list_bytes_mut counter_aead vec_sink (\<lambda>w. w) [9] t [65, 66, 67] \<and> [65, 66, 67 :: u8] = [65, 66, 67]"
proof -
  obtain t t' where t: "writer_ran Debug list_bytes_mut counter_aead vec_sink (\<lambda>w. w) [9] t [65, 66, 67]"
    "poll_flush Debug list_bytes_mut counter_aead vec_sink t = Some (t', Ready (Ok ()))"
    "[1, 2, 3, 4, 5, 6, 7, 8] @ frame abc_chunk = ew_writer t'"
    using abc_written by metis
  have "(0 :: nat) < 3" by simp
  from channel_complete_at_eof [OF vec_writer.writer_env_axioms closed_reader.reader_env_axioms t abc_reader_ran this abc_eof] t(1)
  show ?thesis by blast
qed

lemma abc_flushed:
  "\<exists>t. writer_ran Debug list_bytes_mut counter_aead vec_sink (\<lambda>w. w) [9] t [65, 66, 67] \<and>
    ([1, 2, 3, 4, 5, 6, 7, 8] @ frame abc_chunk) @ [] = ew_writer t"
proof -
  have "\<exists>t. writer_session Debug list_bytes_mut counter_aead vec_sink fresh_writer [CallWrite [65, 66, 67], CallFlush] =
      Some (t, [65, 66, 67]) \<and> ew_writer t = ([1, 2, 3, 4, 5, 6, 7, 8] @ frame abc_chunk) @ []"
    by (simp add: writer_run_defs concrete_defs abc_chunk_def frame_def)
  moreover have "length [1, 2, 3, 4, 5, 6, 7, 8 :: u8] = 8" by simp
  ultimately show ?thesis using fresh_writer_new unfolding writer_ran_def by metis
qed

theorem channel_delivers_prefix_witness:
  "\<exists>t rest. writer_ran Debug list_bytes_mut counter_aead vec_sink (\<lambda>w. w) [9] t [65, 66, 67] \<and>
    [65, 66, 67 :: u8] = [65, 66, 67] @ rest"
proof -
  obtain t where t: "writer_ran Debug list_bytes_mut counter_aead vec_sink (\<lambda>w. w) [9] t [65, 66, 67]"
    "([1, 2, 3, 4, 5, 6, 7, 8] @ frame abc_chunk) @ [] = ew_writer t"
    using abc_flushed by blast
  from channel_delivers_prefix [OF vec_writer.writer_env_axioms closed_reader.reader_env_axioms t abc_reader_ran] t(1)
  show ?thesis by blast
qed

end
