(* ===== verification/Base32.thy ===== *)
theory Base32
  imports Gday_Prelude
begin

text \<open>
  The room code codec of \<^verbatim>\<open>gday/src/base32.rs\<close>: numbers as Crockford-style base-32 digits,
  joined by dots. A Rust \<open>&str\<close> is a list of Unicode scalar values, so that trimming,
  upper-casing and replacing work on characters and \<open>as_bytes\<close> on the UTF-8 encoding.
  The Unicode upper-case table of the standard library is the parameter \<open>uc\<close>; what the code
  relies on is that it is the usual one on ASCII (\<open>ascii_upper\<close>).
\<close>

section \<open>Strings of the standard library\<close>

type_synonym scalar = nat
type_synonym rstr = "scalar list"

text \<open>A string literal.\<close>

definition lit :: "string \<Rightarrow> rstr" where
  "lit s = map of_char s"

text \<open>The characters with the Unicode property White\_Space, which \<open>str::trim\<close> removes.\<close>

definition is_whitespace :: "scalar \<Rightarrow> bool" where
  "is_whitespace c \<longleftrightarrow>
     9 \<le> c \<and> c \<le> 13 \<or> c = 32 \<or> c = 133 \<or> c = 160 \<or> c = 5760 \<or> 8192 \<le> c \<and> c \<le> 8202 \<or>
     c = 8232 \<or> c = 8233 \<or> c = 8239 \<or> c = 8287 \<or> c = 12288"

definition trim :: "rstr \<Rightarrow> rstr" where
  "trim s = rev (dropWhile is_whitespace (rev (dropWhile is_whitespace s)))"

text \<open>\<open>str::to_uppercase\<close> maps every character to one or more characters.\<close>

definition to_uppercase :: "(scalar \<Rightarrow> rstr) \<Rightarrow> rstr \<Rightarrow> rstr" where
  "to_uppercase uc s = concat (map uc s)"

definition ascii_upper :: "(scalar \<Rightarrow> rstr) \<Rightarrow> bool" where
  "ascii_upper uc \<longleftrightarrow> (\<forall>c < 128. uc c = [if 97 \<le> c \<and> c \<le> 122 then c - 32 else c])"

text \<open>The UTF-8 encoding of a scalar value and of a string (\<open>str::as_bytes\<close>).\<close>

definition utf8 :: "scalar \<Rightarrow> u8 list" where
  "utf8 c =
     (if c < 128 then [of_nat c]
      else if c < 2048 then [of_nat (192 + c div 64), of_nat (128 + c mod 64)]
      else if c < 65536 then
        [of_nat (224 + c div 4096), of_nat (128 + c div 64 mod 64), of_nat (128 + c mod 64)]
      else [of_nat (240 + c div 262144), of_nat (128 + c div 4096 mod 64),
            of_nat (128 + c div 64 mod 64), of_nat (128 + c mod 64)])"

definition as_bytes :: "rstr \<Rightarrow> u8 list" where
  "as_bytes s = concat (map utf8 s)"

text \<open>
  \<open>String::from_utf8\<close>, which accepts exactly the encodings: each character is decoded and
  has to encode to the bytes it was read from; surrogates are no scalar values.
\<close>

definition decode_scalar :: "u8 list \<Rightarrow> scalar \<times> nat" where
  "decode_scalar bs =
     (let b = (\<lambda>i. if i < length bs then unat (bs ! i) else 0)
      in if b 0 < 128 then (b 0, 1)
         else if b 0 < 224 then ((b 0 - 192) * 64 + (b 1 - 128), 2)
         else if b 0 < 240 then ((b 0 - 224) * 4096 + (b 1 - 128) * 64 + (b 2 - 128), 3)
         else ((b 0 - 240) * 262144 + (b 1 - 128) * 4096 + (b 2 - 128) * 64 + (b 3 - 128), 4))"

definition is_scalar :: "scalar \<Rightarrow> bool" where
  "is_scalar c \<longleftrightarrow> c < 55296 \<or> 57344 \<le> c \<and> c < 1114112"

function from_utf8 :: "u8 list \<Rightarrow> rstr option" where
  "from_utf8 bs =
     (if bs = [] then Some []
      else let (c, n) = decode_scalar bs
           in if is_scalar c \<and> utf8 c = take n bs \<and> 0 < n
              then map_option ((#) c) (from_utf8 (drop n bs)) else None)"
  by pat_completeness auto
termination
  by (relation "measure length") (auto split: prod.splits)

declare from_utf8.simps [simp del]

fun split_on :: "scalar \<Rightarrow> rstr \<Rightarrow> rstr list" where
  "split_on d [] = [[]]"
| "split_on d (c # cs) =
     (if c = d then [] # split_on d cs
      else case split_on d cs of [] \<Rightarrow> [[c]] | w # ws \<Rightarrow> (c # w) # ws)"

section \<open>The codec\<close>

text \<open>\<open>std::process::exit\<close> with its status.\<close>

datatype exit = Exit nat

definition ALPHABET :: "u8 list" where
  "ALPHABET = map of_char ''0123456789ABCDEFGHJKMNPQRSTVWXYZ''"

text \<open>The loop of \<open>str_to_u32\<close> over the reversed bytes, \<open>i\<close> the position from the right.\<close>

fun str_to_u32_loop :: "profile \<Rightarrow> nat \<Rightarrow> u8 list \<Rightarrow> u32 \<Rightarrow> (exit, u32 option) res" where
  "str_to_u32_loop p i [] num = Ok (Some num)"
| "str_to_u32_loop p i (c # cs) num =
     (case position ALPHABET c of
        None \<Rightarrow> Ok None
      | Some digit \<Rightarrow>
          (case u32_try_from digit of
             None \<Rightarrow> Ok None
           | Some digit \<Rightarrow>
               (case u32_try_from i of
                  None \<Rightarrow> Ok None
                | Some i32 \<Rightarrow>
                    bind_res (u32_pow p 32 i32) (\<lambda>place_value.
                      case checked_mul_u32 digit place_value of
                        None \<Rightarrow> Ok None
                      | Some addend \<Rightarrow>
                          (case checked_add_u32 num addend of
                             None \<Rightarrow> Ok None
                           | Some new_num \<Rightarrow> str_to_u32_loop p (Suc i) cs new_num)))))"

text \<open>Trimming, upper-casing and reading \<open>I\<close> and \<open>L\<close> as the digit 1.\<close>

definition normalize_code :: "(scalar \<Rightarrow> rstr) \<Rightarrow> rstr \<Rightarrow> rstr" where
  "normalize_code uc s =
     map (\<lambda>c. if c = of_char CHR ''I'' \<or> c = of_char CHR ''L'' then of_char CHR ''1'' else c)
       (to_uppercase uc (trim s))"

definition str_to_u32 :: "profile \<Rightarrow> (scalar \<Rightarrow> rstr) \<Rightarrow> rstr \<Rightarrow> (exit, u32 option) res" where
  "str_to_u32 p uc s = str_to_u32_loop p 0 (rev (as_bytes (normalize_code uc s))) 0"

text \<open>The digits \<open>u32_to_str\<close> pushes, least significant first.\<close>

fun digits_loop :: "nat \<Rightarrow> u8 list" where
  "digits_loop num = (if num \<noteq> 0 then ALPHABET ! (num mod 32) # digits_loop (num div 32) else [])"

declare digits_loop.simps [simp del]

definition u32_to_str :: "u32 \<Rightarrow> (exit, rstr) res" where
  "u32_to_str num =
     (let s = rev (digits_loop (unat num));
          s = (if s = [] then [of_char CHR ''0''] else s)
      in case from_utf8 s of None \<Rightarrow> Panic UnwrapFailed | Some t \<Rightarrow> Ok t)"

fun to_string_loop :: "rstr \<Rightarrow> u32 list \<Rightarrow> (exit, rstr) res" where
  "to_string_loop s [] = Ok s"
| "to_string_loop s (v # vs) =
     (let s = (if s \<noteq> [] then s @ lit ''.'' else s)
      in bind_res (u32_to_str v) (\<lambda>t. to_string_loop (s @ t) vs))"

definition to_string :: "u32 list \<Rightarrow> (exit, rstr) res" where
  "to_string vals = to_string_loop [] vals"

text \<open>\<open>from_string\<close> ends the process with status 1 at the first part that is no number.\<close>

definition parse_part :: "profile \<Rightarrow> (scalar \<Rightarrow> rstr) \<Rightarrow> rstr \<Rightarrow> (exit, u32) res" where
  "parse_part p uc x =
     bind_res (str_to_u32 p uc x) (\<lambda>r. case r of None \<Rightarrow> Err (Exit 1) | Some n \<Rightarrow> Ok n)"

definition from_string :: "profile \<Rightarrow> (scalar \<Rightarrow> rstr) \<Rightarrow> rstr \<Rightarrow> (exit, u32 list) res" where
  "from_string p uc s = traverse_res (parse_part p uc) (split_on (of_char CHR ''.'') (trim s))"

section \<open>Reference definitions\<close>

text \<open>The number a little-endian digit string stands for, over the naturals.\<close>

fun le_value :: "u8 list \<Rightarrow> nat option" where
  "le_value [] = Some 0"
| "le_value (c # cs) =
     (case position ALPHABET c of None \<Rightarrow> None | Some d \<Rightarrow> map_option (\<lambda>v. d + 32 * v) (le_value cs))"

text \<open>
  What the digits of a part lead to. The last seven digits are the number, which must fit 32
  bits; digits in front of them make a debug build panic and are dropped by a release build, up
  to the position that \<open>u32::try_from\<close> refuses.
\<close>

definition reference_u32 :: "profile \<Rightarrow> u8 list \<Rightarrow> (exit, u32 option) res" where
  "reference_u32 p ds =
     (let n = length ds - 7; pre = take n ds
      in case le_value (rev (drop n ds)) of
           None \<Rightarrow> Ok None
         | Some v \<Rightarrow>
             if 2 ^ 32 \<le> v then Ok None
             else if pre = [] then Ok (Some (of_nat v))
             else
               (case p of
                  Debug \<Rightarrow> if last pre \<in> set ALPHABET then Panic ArithmeticOverflow else Ok None
                | Release \<Rightarrow> if set pre \<subseteq> set ALPHABET \<and> length ds \<le> 2 ^ 32 then Ok (Some (of_nat v)) else Ok None))"

text \<open>The digits of a number as bytes of the alphabet, most significant first.\<close>

definition digit_string :: "u32 \<Rightarrow> u8 list" where
  "digit_string n = (if n = 0 then [of_char CHR ''0''] else rev (digits_loop (unat n)))"

text \<open>A letter typed in lower case.\<close>

definition to_ascii_lowercase :: "scalar \<Rightarrow> scalar" where
  "to_ascii_lowercase c = (if 65 \<le> c \<and> c \<le> 90 then c + 32 else c)"

text \<open>An upper-case table that is the usual one on ASCII and the identity elsewhere.\<close>

definition ascii_table :: "scalar \<Rightarrow> rstr" where
  "ascii_table c = [if 97 \<le> c \<and> c \<le> 122 then c - 32 else c]"

section \<open>The alphabet and the digit loop\<close>

lemma length_ALPHABET [simp]: "length ALPHABET = 32"
  by (simp add: ALPHABET_def)

lemma distinct_ALPHABET [simp]: "distinct ALPHABET"
  by (simp add: ALPHABET_def)

lemma ALPHABET_codes: "c \<in> set ALPHABET \<Longrightarrow>
  48 \<le> unat c \<and> unat c \<le> 90 \<and> \<not> is_whitespace (unat c) \<and> unat c \<noteq> 73 \<and> unat c \<noteq> 76"
  by (auto simp: ALPHABET_def is_whitespace_def)

lemma place_value_bound: "i < 7 \<Longrightarrow> (32::nat) ^ i \<le> 2 ^ 30"
  using power_increasing [of i 6 "32::nat"] by simp

lemma u32_pow_place_value:
  assumes "i < 7" shows "u32_pow p 32 (of_nat i) = Ok (of_nat (32 ^ i))"
proof -
  have "unat (of_nat i :: u32) = i" using assms by (intro unat_of_nat_u32) simp
  then show ?thesis using place_value_bound [OF assms] by (simp add: u32_pow_def)
qed

lemma unat_add_of_nat: "unat (num :: u32) + k < 2 ^ 32 \<Longrightarrow> unat (num + of_nat k) = unat num + k"
  by (subst unat_add_lem [THEN iffD1]) (auto simp: unat_of_nat_u32)

lemma loop_spec:
  assumes "i + length cs \<le> 7"
  shows "str_to_u32_loop p i cs num =
    Ok (case le_value cs of None \<Rightarrow> None
        | Some v \<Rightarrow> if unat num + 32 ^ i * v < 2 ^ 32 then Some (num + of_nat (32 ^ i * v)) else None)"
  using assms
proof (induction cs arbitrary: i num)
  case Nil
  have "unat num < 2 ^ 32" by (rule unat_less_u32)
  then show ?case by simp
next
  case (Cons c cs)
  show ?case
  proof (cases "position ALPHABET c")
    case None
    then show ?thesis by simp
  next
    case (Some d)
    from position_Some [OF Some] have d: "d < 32" by simp
    have i: "i < 7" using Cons.prems by simp
    have conv: "u32_try_from d = Some (of_nat d)" "u32_try_from i = Some (of_nat i)"
      using d i by (simp_all add: u32_try_from_def)
    have ud: "unat (of_nat d :: u32) = d"
      using d by (intro unat_of_nat_u32) simp
    have ui: "unat (of_nat (32 ^ i) :: u32) = 32 ^ i"
      using place_value_bound [OF i] by (intro unat_of_nat_u32) simp
    let ?k = "d * 32 ^ i"
    show ?thesis
    proof (cases "unat num + ?k < 2 ^ 32")
      case True
      have "checked_mul_u32 (of_nat d) (of_nat (32 ^ i)) = Some (of_nat ?k)"
        using True ud ui by (simp add: checked_mul_u32_def)
      moreover have "checked_add_u32 num (of_nat ?k) = Some (num + of_nat ?k)"
        using True by (simp add: checked_add_u32_def unat_of_nat_u32 del: of_nat_mult of_nat_power)
      moreover have "unat (num + of_nat ?k) = unat num + ?k"
        by (rule unat_add_of_nat [OF True])
      moreover have "Suc i + length cs \<le> 7" using Cons.prems by simp
      ultimately show ?thesis
        using Some conv Cons.IH [of "Suc i" "num + of_nat ?k"]
        by (auto simp: u32_pow_place_value [OF i] algebra_simps split: option.splits)
    next
      case False
      then have "\<forall>v. \<not> unat num + 32 ^ i * (d + 32 * v) < 2 ^ 32"
        by (simp add: algebra_simps)
      moreover have "checked_mul_u32 (of_nat d) (of_nat (32 ^ i)) = Some (of_nat ?k) \<and>
          checked_add_u32 num (of_nat ?k) = None \<or> checked_mul_u32 (of_nat d) (of_nat (32 ^ i)) = None"
        using False ud ui
        by (auto simp: checked_mul_u32_def checked_add_u32_def unat_of_nat_u32 of_nat_mult [symmetric]
            simp del: of_nat_mult of_nat_power)
      ultimately show ?thesis
        using Some conv by (auto simp: u32_pow_place_value [OF i] split: option.splits)
    qed
  qed
qed

lemma ALPHABET_nth: "i < 32 \<Longrightarrow> ALPHABET ! i \<in> set ALPHABET"
  by (metis length_ALPHABET nth_mem)

lemma position_ALPHABET_nth: "i < 32 \<Longrightarrow> position ALPHABET (ALPHABET ! i) = Some i"
  by (simp add: position_nth)

lemma le_value_digits: "le_value (digits_loop n) = Some n"
proof (induction n rule: digits_loop.induct)
  case (1 n)
  show ?case
    by (subst digits_loop.simps) (use "1" in \<open>auto simp: position_ALPHABET_nth\<close>)
qed

lemma set_digits: "set (digits_loop n) \<subseteq> set ALPHABET"
proof (induction n rule: digits_loop.induct)
  case (1 n)
  show ?case
    by (subst digits_loop.simps) (use "1" in \<open>auto simp: ALPHABET_nth\<close>)
qed

lemma length_digits: "n < 32 ^ k \<Longrightarrow> length (digits_loop n) \<le> k"
proof (induction k arbitrary: n)
  case 0
  then show ?case by (simp add: digits_loop.simps)
next
  case (Suc k)
  then have "n div 32 < 32 ^ k" by (simp add: less_mult_imp_div_less mult.commute)
  from Suc.IH [OF this] show ?case by (subst digits_loop.simps) simp
qed

lemma zero_ALPHABET: "ALPHABET ! 0 = 48"
  by (simp add: ALPHABET_def)

lemma digits_empty: "digits_loop n = [] \<longleftrightarrow> n = 0"
  by (subst digits_loop.simps) simp

lemma set_digit_string: "set (digit_string n) \<subseteq> set ALPHABET"
  using set_digits [of "unat n"] ALPHABET_nth [of 0] by (auto simp: digit_string_def zero_ALPHABET)

lemma digit_string_nonempty: "digit_string n \<noteq> []"
  by (auto simp: digit_string_def digits_empty unat_eq_0)

lemma length_digit_string: "length (digit_string n) \<le> 7"
  using length_digits [of "unat n" 7] unat_less_u32 [of n] by (auto simp: digit_string_def)

lemma le_value_digit_string: "le_value (rev (digit_string n)) = Some (unat n)"
  using position_ALPHABET_nth [of 0] by (simp add: digit_string_def le_value_digits zero_ALPHABET)

lemma from_utf8_ascii: "\<forall>b \<in> set bs. unat b < 128 \<Longrightarrow> from_utf8 bs = Some (map unat bs)"
proof (induction bs)
  case Nil
  then show ?case by (simp add: from_utf8.simps)
next
  case (Cons b bs)
  then show ?case
    by (subst from_utf8.simps) (simp add: decode_scalar_def is_scalar_def utf8_def)
qed

lemma u32_to_str_eq: "u32_to_str n = Ok (map unat (digit_string n))"
proof -
  have "from_utf8 (digit_string n) = Some (map unat (digit_string n))"
    using set_digit_string [of n] by (intro from_utf8_ascii) (fastforce dest: ALPHABET_codes)
  then show ?thesis
    by (simp add: u32_to_str_def Let_def digit_string_def digits_empty unat_eq_0)
qed

lemma dropWhile_none: "\<forall>c \<in> set s. \<not> P c \<Longrightarrow> dropWhile P s = s"
  by (cases s) auto

lemma trim_padded:
  assumes "\<forall>c \<in> set u \<union> set v. is_whitespace c" and "\<forall>c \<in> set s. \<not> is_whitespace c"
  shows "trim (u @ s @ v) = s"
proof (cases "s = []")
  case True
  then show ?thesis using assms by (auto simp: trim_def dropWhile_append2 dest: set_dropWhileD)
next
  case False
  then show ?thesis
    using assms by (simp add: trim_def dropWhile_append dropWhile_none)
qed

lemma trim_id: "\<forall>c \<in> set s. \<not> is_whitespace c \<Longrightarrow> trim s = s"
  using trim_padded [of "[]" "[]" s] by simp

lemma as_bytes_unat: "\<forall>b \<in> set bs. unat b < 128 \<Longrightarrow> as_bytes (map unat bs) = bs"
  by (induction bs) (auto simp: as_bytes_def utf8_def)

lemma of_char_dot: "(of_char CHR ''.'' :: nat) = 46"
  by simp

lemma is_whitespace_lower [simp]: "is_whitespace (to_ascii_lowercase c) = is_whitespace c"
  by (auto simp: to_ascii_lowercase_def is_whitespace_def)

lemma trim_map: "(\<And>c. is_whitespace (f c) = is_whitespace c) \<Longrightarrow> trim (map f s) = map f (trim s)"
  by (simp add: trim_def dropWhile_map rev_map comp_def)

lemma set_trim: "c \<in> set (trim s) \<Longrightarrow> c \<in> set s"
  by (auto simp: trim_def dest!: set_dropWhileD)

lemma uppercase_lower:
  "ascii_upper uc \<Longrightarrow> \<forall>c \<in> set s. c < 128 \<Longrightarrow>
   to_uppercase uc (map to_ascii_lowercase s) = to_uppercase uc s"
  by (induction s) (auto simp: to_uppercase_def ascii_upper_def to_ascii_lowercase_def)

lemma normalize_code_lower:
  assumes "ascii_upper uc" and "\<forall>c \<in> set s. c < 128"
  shows "normalize_code uc (map to_ascii_lowercase s) = normalize_code uc s"
proof -
  have "\<forall>c \<in> set (trim s). c < 128" using assms(2) set_trim by blast
  then show ?thesis using assms(1) by (simp add: normalize_code_def trim_map uppercase_lower)
qed

lemma uppercase_ALPHABET:
  assumes "ascii_upper uc" and "set bs \<subseteq> set ALPHABET"
  shows "to_uppercase uc (map unat bs) = map unat bs"
  using assms(2)
proof (induction bs)
  case Nil
  then show ?case by (simp add: to_uppercase_def)
next
  case (Cons b bs)
  then have "unat b \<le> 90" by (auto dest: ALPHABET_codes)
  then have "uc (unat b) = [unat b]" using assms(1) by (simp add: ascii_upper_def)
  with Cons show ?case by (simp add: to_uppercase_def)
qed

lemma normalize_code_ALPHABET:
  assumes "ascii_upper uc" and "set bs \<subseteq> set ALPHABET"
  shows "normalize_code uc (map unat bs) = map unat bs"
proof -
  have "trim (map unat bs) = map unat bs"
    using assms(2) by (intro trim_id) (auto dest!: ALPHABET_codes)
  moreover have "unat c \<noteq> 73 \<and> unat c \<noteq> 76" if "c \<in> set bs" for c
    using assms(2) that by (blast dest: ALPHABET_codes)
  ultimately show ?thesis
    using assms by (simp add: normalize_code_def uppercase_ALPHABET map_idI)
qed

lemma as_bytes_ALPHABET: "set bs \<subseteq> set ALPHABET \<Longrightarrow> as_bytes (map unat bs) = bs"
  by (intro as_bytes_unat) (fastforce dest: ALPHABET_codes)

lemma str_to_u32_digit_string:
  assumes "ascii_upper uc"
  shows "str_to_u32 p uc (map unat (digit_string n)) = Ok (Some n)"
  using loop_spec [of 0 "rev (digit_string n)" p 0] length_digit_string [of n] unat_less_u32 [of n]
  by (simp add: str_to_u32_def normalize_code_ALPHABET [OF assms set_digit_string]
      as_bytes_ALPHABET [OF set_digit_string] le_value_digit_string)

lemma split_on_no_sep: "d \<notin> set w \<Longrightarrow> split_on d w = [w]"
  by (induction w) auto

lemma split_on_sep: "d \<notin> set w \<Longrightarrow> split_on d (w @ d # s) = w # split_on d s"
  by (induction w) auto

lemma split_on_map:
  assumes "\<And>c. f c = d \<longleftrightarrow> c = d"
  shows "split_on d (map f s) = map (map f) (split_on d s)"
  by (induction s) (auto simp: assms split: list.splits)

lemma to_string_loop_eq:
  "s \<noteq> [] \<Longrightarrow> to_string_loop s vs = Ok (s @ concat (map (\<lambda>v. 46 # map unat (digit_string v)) vs))"
  by (induction vs arbitrary: s) (auto simp: u32_to_str_eq lit_def Let_def)

lemma to_string_Cons:
  "to_string (v # vs) =
     Ok (map unat (digit_string v) @ concat (map (\<lambda>v. 46 # map unat (digit_string v)) vs))"
  by (simp add: to_string_def u32_to_str_eq to_string_loop_eq digit_string_nonempty)

lemma dot_not_digit: "46 \<notin> unat ` set (digit_string v)"
  using set_digit_string [of v] by (fastforce dest: ALPHABET_codes)

lemma split_on_to_string:
  "split_on 46 (map unat (digit_string v) @ concat (map (\<lambda>v. 46 # map unat (digit_string v)) vs)) =
   map (\<lambda>v. map unat (digit_string v)) (v # vs)"
  by (induction vs arbitrary: v) (simp_all add: split_on_no_sep split_on_sep dot_not_digit)

lemma to_string_chars:
  "to_string vs = Ok t \<Longrightarrow> c \<in> set t \<Longrightarrow> \<not> is_whitespace c \<and> c < 128"
proof (cases vs)
  case Nil
  moreover assume "to_string vs = Ok t" "c \<in> set t"
  ultimately show ?thesis by (simp add: to_string_def)
next
  case (Cons v ws)
  assume "to_string vs = Ok t" "c \<in> set t"
  with Cons have "c = 46 \<or> (\<exists>v. c \<in> unat ` set (digit_string v))"
    by (auto simp: to_string_Cons split: if_splits)
  then show ?thesis
    using set_digit_string by (fastforce simp: is_whitespace_def dest: ALPHABET_codes)
qed

lemma split_parts_chars: "w \<in> set (split_on d s) \<Longrightarrow> c \<in> set w \<Longrightarrow> c \<in> set s"
  by (induction s arbitrary: w) (fastforce split: if_splits list.splits)+

lemma from_string_lower:
  assumes "ascii_upper uc" and "\<forall>c \<in> set s. c < 128"
  shows "from_string p uc (map to_ascii_lowercase s) = from_string p uc s"
proof -
  have "split_on 46 (map to_ascii_lowercase (trim s)) = map (map to_ascii_lowercase) (split_on 46 (trim s))"
    by (rule split_on_map) (auto simp: to_ascii_lowercase_def)
  moreover have "parse_part p uc (map to_ascii_lowercase w) = parse_part p uc w"
    if "w \<in> set (split_on 46 (trim s))" for w
  proof -
    from that have "\<forall>c \<in> set w. c < 128" using assms(2) split_parts_chars set_trim by blast
    with assms(1) show ?thesis by (simp add: parse_part_def str_to_u32_def normalize_code_lower)
  qed
  ultimately show ?thesis
    by (simp add: from_string_def trim_map traverse_res_map cong: traverse_res_cong)
qed

lemma from_string_padded:
  assumes "\<forall>c \<in> set u \<union> set v. is_whitespace c" and "\<forall>c \<in> set s. \<not> is_whitespace c"
  shows "from_string p uc (u @ s @ v) = from_string p uc s"
  using trim_padded [OF assms] trim_id [OF assms(2)] by (simp add: from_string_def)

lemma from_to_string:
  assumes "ascii_upper uc" and "vals \<noteq> []" and "to_string vals = Ok t"
  shows "from_string p uc t = Ok vals"
proof -
  obtain v vs where vals: "vals = v # vs" using assms(2) by (cases vals) auto
  have "trim t = t" using to_string_chars [OF assms(3)] by (intro trim_id) blast
  moreover have "parse_part p uc (map unat (digit_string v)) = Ok v" for v
    by (simp add: parse_part_def str_to_u32_digit_string [OF assms(1)])
  ultimately show ?thesis
    using assms(3) vals
    by (auto simp: from_string_def to_string_Cons split_on_to_string traverse_res_map
        simp del: list.map)
qed

lemma printed_code_read:
  assumes "ascii_upper uc" and "vals \<noteq> []" and "to_string vals = Ok t" and "\<forall>c \<in> set u \<union> set v. is_whitespace c"
  shows "from_string p uc (u @ t @ v) = Ok vals" "from_string p uc (u @ map to_ascii_lowercase t @ v) = Ok vals"
proof -
  have chars: "\<forall>c \<in> set t. \<not> is_whitespace c \<and> c < 128" using to_string_chars [OF assms(3)] by blast
  then have "from_string p uc (u @ s @ v) = from_string p uc s"
    if "s = t \<or> s = map to_ascii_lowercase t" for s
    using that assms(4) by (intro from_string_padded) auto
  then show "from_string p uc (u @ t @ v) = Ok vals" "from_string p uc (u @ map to_ascii_lowercase t @ v) = Ok vals"
    using chars from_to_string [OF assms(1-3)] from_string_lower [OF assms(1)] by simp_all
qed

lemma loop_append:
  "str_to_u32_loop p i (xs @ ys) num =
     bind_res (str_to_u32_loop p i xs num)
       (\<lambda>r. case r of None \<Rightarrow> Ok None | Some n \<Rightarrow> str_to_u32_loop p (i + length xs) ys n)"
  by (induction xs arbitrary: i num) (auto simp: bind_res_assoc split: option.split intro!: bind_res_cong)

lemma place_value_overflow: "7 \<le> i \<Longrightarrow> (2 ^ 32 :: nat) \<le> 32 ^ i"
  using power_increasing [of 7 i "32::nat"] by simp

lemma place_value_wraps: "7 \<le> i \<Longrightarrow> (32 :: u32) ^ i = 0"
proof -
  assume "7 \<le> i"
  then have "(32 :: u32) ^ i = 32 ^ 7 * 32 ^ (i - 7)" using power_add [of "32 :: u32" 7 "i - 7"] by simp
  also have "(32 :: u32) ^ 7 = 0" by code_simp
  finally show ?thesis by simp
qed

lemma loop_long_debug:
  assumes "7 \<le> i" "i < 2 ^ 32"
  shows "str_to_u32_loop Debug i (c # cs) num = (if c \<in> set ALPHABET then Panic ArithmeticOverflow else Ok None)"
proof (cases "position ALPHABET c")
  case None
  then show ?thesis using position_None by fastforce
next
  case (Some d)
  from position_Some [OF Some] have "d < 32" "c \<in> set ALPHABET" by auto
  with Some assms place_value_overflow [OF assms(1)] show ?thesis
    by (simp add: u32_try_from_def u32_pow_def unat_of_nat_u32)
qed

lemma loop_long_release:
  assumes "7 \<le> i" "i \<le> 2 ^ 32"
  shows "str_to_u32_loop Release i cs num = Ok (if set cs \<subseteq> set ALPHABET \<and> i + length cs \<le> 2 ^ 32 then Some num else None)"
  using assms
proof (induction cs arbitrary: i)
  case Nil
  then show ?case by simp
next
  case (Cons c cs)
  show ?case
  proof (cases "position ALPHABET c")
    case None
    then show ?thesis using position_None by fastforce
  next
    case (Some d)
    from position_Some [OF Some] have d: "d < 32" "c \<in> set ALPHABET" by auto
    show ?thesis
    proof (cases "i < 2 ^ 32")
      case True
      then show ?thesis
        using Some d Cons.prems Cons.IH [of "Suc i"] place_value_overflow [of i] unat_less_u32 [of num]
        by (simp add: u32_try_from_def u32_pow_def unat_of_nat_u32 place_value_wraps
            checked_mul_u32_def checked_add_u32_def)
    next
      case False
      then show ?thesis using Some d by (simp add: u32_try_from_def)
    qed
  qed
qed

section \<open>Properties\<close>

text \<open>
  C8: a code printed by \<open>to_string\<close> is read back by \<open>from_string\<close> as the same numbers, in
  both build profiles, also when it is typed in lower case or with white space around it.
\<close>

theorem room_code_roundtrip:
  assumes "ascii_upper uc" and "vals \<noteq> []" and "\<forall>c \<in> set u \<union> set v. is_whitespace c"
  shows "\<exists>t. to_string vals = Ok t \<and>
           from_string p uc (u @ t @ v) = Ok vals \<and>
           from_string p uc (u @ map to_ascii_lowercase t @ v) = Ok vals"
proof -
  obtain t where "to_string vals = Ok t"
    using assms(2) by (cases vals) (auto simp: to_string_Cons)
  with printed_code_read [OF assms(1,2) this assms(3)] show ?thesis by blast
qed

lemma ascii_upper_table: "ascii_upper ascii_table"
  by (simp add: ascii_upper_def ascii_table_def)

theorem room_code_roundtrip_witness:
  "\<exists>t. to_string [0, 70000, 1234] = Ok t \<and>
     from_string Debug ascii_table ([32] @ t @ [10]) = Ok [0, 70000, 1234] \<and>
     from_string Debug ascii_table ([32] @ map to_ascii_lowercase t @ [10]) = Ok [0, 70000, 1234]"
  by (rule room_code_roundtrip [OF ascii_upper_table]) (simp_all add: is_whitespace_def)

text \<open>
  C16: what a part of a code is read as, on every input and in both build profiles. The last
  seven digits give a number below \<open>2 ^ 32\<close>, or \<open>None\<close> if there is a foreign character among them or
  the number is too large. The checked arithmetic guards the product and the sum but not the
  place value \<open>32_u32.pow(i)\<close>: at an eighth digit a debug build panics, and a release build drops
  the digits in front of the last seven. The number of digits is not bounded: from position
  \<open>2 ^ 32\<close> on, \<open>u32::try_from(i)\<close> gives \<open>None\<close>.
\<close>

theorem str_to_u32_reference:
  "str_to_u32 p uc s = reference_u32 p (as_bytes (normalize_code uc s))"
proof -
  define ds where "ds = as_bytes (normalize_code uc s)"
  define pre suf where "pre = take (length ds - 7) ds" and "suf = drop (length ds - 7) ds"
  have ds: "ds = pre @ suf" by (simp add: pre_def suf_def)
  have "length suf \<le> 7" by (simp add: suf_def)
  then have suf: "str_to_u32_loop p 0 (rev suf) 0 =
      Ok (case le_value (rev suf) of None \<Rightarrow> None | Some v \<Rightarrow> if v < 2 ^ 32 then Some (of_nat v) else None)"
    using loop_spec [of 0 "rev suf" p 0] by (simp split: option.split)
  have loop: "str_to_u32 p uc s = bind_res (str_to_u32_loop p 0 (rev suf) 0)
      (\<lambda>r. case r of None \<Rightarrow> Ok None | Some n \<Rightarrow> str_to_u32_loop p (length suf) (rev pre) n)"
    unfolding str_to_u32_def ds_def [symmetric] ds rev_append loop_append length_rev add_0 ..
  have ref: "reference_u32 p ds = (case le_value (rev suf) of None \<Rightarrow> Ok None
      | Some v \<Rightarrow> if 2 ^ 32 \<le> v then Ok None else if pre = [] then Ok (Some (of_nat v)) else
        (case p of Debug \<Rightarrow> if last pre \<in> set ALPHABET then Panic ArithmeticOverflow else Ok None
         | Release \<Rightarrow> if set pre \<subseteq> set ALPHABET \<and> length ds \<le> 2 ^ 32 then Ok (Some (of_nat v)) else Ok None))"
    unfolding reference_u32_def Let_def pre_def suf_def ..
  have "str_to_u32_loop p (length suf) (rev pre) k = (if pre = [] then Ok (Some k) else
      (case p of Debug \<Rightarrow> if last pre \<in> set ALPHABET then Panic ArithmeticOverflow else Ok None
       | Release \<Rightarrow> if set pre \<subseteq> set ALPHABET \<and> length ds \<le> 2 ^ 32 then Ok (Some k) else Ok None))" for k
  proof (cases "pre = []")
    case False
    then have len: "length suf = 7" "length ds = 7 + length pre" by (auto simp: pre_def suf_def)
    moreover obtain c cs where "rev pre = c # cs" "last pre = c"
      using False by (cases "rev pre") (auto simp: hd_rev [symmetric])
    ultimately show ?thesis
      using False loop_long_debug [of 7 c cs k] loop_long_release [of 7 "rev pre" k]
      by (cases p) (simp_all del: str_to_u32_loop.simps(2))
  qed simp
  then show ?thesis
    unfolding loop suf ds_def [symmetric] ref by (auto split: option.split)
qed

end
