(* ===== verification/Gday_Main.thy ===== *)
theory Gday_Main
  imports Peer_Connector Encrypted_Channel Base32
begin

text \<open>
  The rooms of the command line program: \<^verbatim>\<open>gday/src/main.rs\<close> from the connections to the server up
  to the encrypted connection of the two peers, and \<open>connect\<close> of \<^verbatim>\<open>gday/src/server_connector.rs\<close>. An
  \<open>unwrap_or_else\<close> that prints and calls \<open>exit(1)\<close> is the error \<open>Exit 1\<close>; what is printed to the user,
  the password, is part of the result.
\<close>

section \<open>The server\<close>

definition SERVER_V6 :: socket_addr_v6 where
  "SERVER_V6 = \<lparr>v6_ip = 0x2603c024c00cb17efce5f16d4207b22d, v6_port = 49870, v6_flowinfo = 0, v6_scope_id = 0\<rparr>"

definition SERVER_V4 :: socket_addr_v4 where
  "SERVER_V4 = \<lparr>v4_ip = 0x92EBCE14, v4_port = 49870\<rparr>"

definition SERVER_NAME :: rstr where
  "SERVER_NAME = lit ''psend''"

text \<open>The calls on sockets and on the TLS library; a name that is no server name makes \<open>try_into\<close> fail.\<close>

record ('k, 't, 's) dialer =
  di_sockets :: "'k sockets"
  di_connect :: "'k \<Rightarrow> socket_addr \<Rightarrow> (io_error, 't) res"
  di_server_name :: "rstr \<Rightarrow> bool"
  di_tls :: "rstr \<Rightarrow> 't \<Rightarrow> (io_error, 's) res"
  di_config :: "(unit, unit) res"

definition connect :: "('k, 't, 's) dialer \<Rightarrow> socket_addr \<Rightarrow> rstr \<Rightarrow> (io_error, 's) res" where
  "connect D server_addr server_name =
     bind_res (case server_addr of V6 _ \<Rightarrow> so_new_v6 (di_sockets D) | V4 _ \<Rightarrow> so_new_v4 (di_sockets D)) (\<lambda>socket.
     bind_res (di_connect D socket server_addr) (\<lambda>tcp_stream.
       if di_server_name D server_name then di_tls D server_name tcp_stream else Panic UnwrapFailed))"

text \<open>\<open>Result::ok\<close>, and \<open>unwrap_or_else\<close> with an exit.\<close>

fun ok_of :: "('e, 'a) res \<Rightarrow> ('f, 'a option) res" where
  "ok_of (Ok x) = Ok (Some x)"
| "ok_of (Err e) = Ok None"
| "ok_of (Panic p) = Panic p"

definition or_exit :: "('e, 'a) res \<Rightarrow> (exit, 'a) res" where
  "or_exit r = map_err (\<lambda>_. Exit 1) r"

definition connect_to_server :: "('k, 't, 's) dialer \<Rightarrow> (exit, 's option \<times> 's option) res" where
  "connect_to_server D =
     bind_res (or_exit (di_config D)) (\<lambda>_.
     bind_res (ok_of (connect D (V6 SERVER_V6) SERVER_NAME)) (\<lambda>v6.
     bind_res (ok_of (connect D (V4 SERVER_V4) SERVER_NAME)) (\<lambda>v4. Ok (v6, v4))))"

section \<open>From a room to an encrypted connection\<close>

text \<open>
  The libraries of a peer: the streams to the server with the two codecs, the streams to the other
  peer, and those of the encryption. \<open>pl_split\<close> is \<open>into_split\<close>, \<open>pl_nonce\<close> the random nonce.
\<close>

record ('s, 'p, 'q, 'k, 'n, 'r, 'w, 'b, 'e, 'd) peer_libs =
  pl_server :: "'s byte_stream"
  pl_requests :: "client_message codec"
  pl_replies :: "server_message codec"
  pl_peer :: "'p byte_stream"
  pl_spake :: "('q, 'k) spake"
  pl_sha256 :: "u8 list \<Rightarrow> u8 list"
  pl_sockets :: "attempt \<Rightarrow> nat \<Rightarrow> 'n sockets"
  pl_select :: "('p \<times> u8 list) select_ok"
  pl_rand :: "attempt \<Rightarrow> 'p \<Rightarrow> 'q"
  pl_events :: "attempt \<Rightarrow> (io_error, 'p) res list"
  pl_split :: "'p \<Rightarrow> 'r \<times> 'w"
  pl_buf :: "'b bytes_mut"
  pl_aead :: "('e, 'd) aead_stream"
  pl_read :: "'r async_read"
  pl_write :: "'w async_write"
  pl_nonce :: "u8 list"

definition establish_peer_connection ::
  "('s, 'p, 'q, 'k, 'n, 'r, 'w, 'b, 'e, 'd) peer_libs \<Rightarrow> 's contact_sharer \<Rightarrow> u32
   \<Rightarrow> (exit, ('w, 'e, 'b) encrypted_writer \<times> ('r, 'd, 'b) encrypted_reader) res option" where
  "establish_peer_connection G sharer peer_secret =
     bind_fuel (Some (or_exit (snd (get_peer_connector (pl_server G) (pl_requests G) (pl_replies G) sharer)))) (\<lambda>connector.
     bind_fuel (map_option or_exit (connect_to_peer (pl_peer G) (pl_spake G) (pl_sha256 G) (pl_sockets G) (pl_select G)
         (pl_rand G) (pl_events G) connector peer_secret)) (\<lambda>(tcp_stream, shared_secret).
       case pl_split G tcp_stream of (read, write) \<Rightarrow>
       bind_fuel (Some (or_exit (snd (writer_new (pl_buf G) (pl_aead G) (pl_write G) write shared_secret (pl_nonce G))))) (\<lambda>writer.
       bind_fuel (Some (or_exit (snd (reader_new (pl_buf G) (pl_aead G) (pl_read G) read shared_secret)))) (\<lambda>reader.
         Some (Ok (writer, reader))))))"

text \<open>\<open>start_room\<close>: what it printed, and its result. The generator of the secret is a parameter.\<close>

definition start_room ::
  "('s, 'p, 'q, 'k, 'n, 'r, 'w, 'b, 'e, 'd) peer_libs \<Rightarrow> ('l, 't, 's) dialer \<Rightarrow> ('g \<Rightarrow> nat \<Rightarrow> u32 \<times> 'g) \<Rightarrow> 'g
   \<Rightarrow> rstr list \<times> (exit, ('w, 'e, 'b) encrypted_writer \<times> ('r, 'd, 'b) encrypted_reader) res option" where
  "start_room G D gen_range rng =
     (case bind_res (connect_to_server D) (\<lambda>server_conn.
           bind_res (or_exit (sharer_create_room (pl_server G) (pl_requests G) (pl_replies G) (fst server_conn) (snd server_conn))) (\<lambda>(sharer, room_id).
             let peer_secret = fst (random_peer_secret gen_range rng)
             in bind_res (to_string [0, room_id, peer_secret]) (\<lambda>password. Ok (password, sharer, peer_secret)))) of
        Ok (password, sharer, peer_secret) \<Rightarrow> ([password], establish_peer_connection G sharer peer_secret)
      | Err e \<Rightarrow> ([], Some (Err e))
      | Panic q \<Rightarrow> ([], Some (Panic q)))"

text \<open>The rest of \<open>join_room\<close> once the password is read.\<close>

definition join_with ::
  "('s, 'p, 'q, 'k, 'n, 'r, 'w, 'b, 'e, 'd) peer_libs \<Rightarrow> ('l, 't, 's) dialer \<Rightarrow> u32 \<Rightarrow> u32
   \<Rightarrow> (exit, ('w, 'e, 'b) encrypted_writer \<times> ('r, 'd, 'b) encrypted_reader) res option" where
  "join_with G D room_id peer_secret =
     bind_fuel (Some (connect_to_server D)) (\<lambda>server_conn.
     bind_fuel (Some (or_exit (sharer_join_room (pl_server G) (pl_requests G) (pl_replies G) (fst server_conn) (snd server_conn) room_id))) (\<lambda>sharer.
       establish_peer_connection G sharer peer_secret))"

definition join_room ::
  "profile \<Rightarrow> (scalar \<Rightarrow> rstr) \<Rightarrow> ('s, 'p, 'q, 'k, 'n, 'r, 'w, 'b, 'e, 'd) peer_libs \<Rightarrow> ('l, 't, 's) dialer \<Rightarrow> rstr
   \<Rightarrow> (exit, ('w, 'e, 'b) encrypted_writer \<times> ('r, 'd, 'b) encrypted_reader) res option" where
  "join_room p uc G D password =
     bind_fuel (Some (from_string p uc password)) (\<lambda>vals.
       case vals of
         [_, room_id, peer_secret] \<Rightarrow> join_with G D room_id peer_secret
       | _ \<Rightarrow> Some (Err (Exit 1)))"

section \<open>Concrete libraries\<close>

text \<open>The libraries over lists of bytes, and a server reached over IPv4 that replies with the given bytes.\<close>

definition list_peer_libs where
  "list_peer_libs =
     \<lparr>pl_server = pipe_stream, pl_requests = client_codec, pl_replies = server_codec, pl_peer = pipe_stream,
      pl_spake = plain_spake, pl_sha256 = plain_hash, pl_sockets = (\<lambda>_ _. free_sockets), pl_select = first_ok,
      pl_rand = (\<lambda>_ _. 1), pl_events = joiner_arrives, pl_split = (\<lambda>t. (pi_in t, pi_out t)), pl_buf = list_bytes_mut,
      pl_aead = counter_aead, pl_read = closed_source, pl_write = vec_sink, pl_nonce = replicate 8 5\<rparr>"

definition list_dialer :: "u8 list \<Rightarrow> (unit, unit, pipe) dialer" where
  "list_dialer replies =
     \<lparr>di_sockets = free_sockets, di_connect = (\<lambda>_ a. case a of V6 _ \<Rightarrow> Err UnexpectedEof | V4 _ \<Rightarrow> Ok ()),
      di_server_name = (\<lambda>_. True), di_tls = (\<lambda>_ _. Ok (idle_pipe replies)), di_config = Ok ()\<rparr>"

text \<open>A creator in its room, to whom the server is about to send contacts.\<close>

definition waiting_creator :: "pipe contact_sharer" where
  "waiting_creator =
     \<lparr>sh_is_creator = True,
      sh_connection = \<lparr>sc_v6 = None, sc_v4 = Some (configure_stream (idle_pipe
        (frame (enc_server_message (SharePeerContacts (pn_local loopback) (pn_peer loopback))))))\<rparr>\<rparr>"

section \<open>Properties\<close>

lemma or_exit_Ok [rust_simps]: "or_exit r = Ok x \<longleftrightarrow> r = Ok x" "Ok x = or_exit r \<longleftrightarrow> r = Ok x"
  by (cases r; auto simp: or_exit_def)+

lemma writer_new_key: "snd (writer_new B A W w key nonce) = Ok s \<Longrightarrow> ew_encryptor s = ae_encryptor A key nonce"
  by (auto simp: writer_new_def snd_bind_st_Ok)

lemma reader_new_key: "snd (reader_new B A R r key) = Ok s \<Longrightarrow> \<exists>nonce. er_decryptor s = ae_decryptor A key nonce"
  by (auto simp: reader_new_def snd_bind_st_Ok)

text \<open>What \<open>start_room\<close> prints leads \<open>join_room\<close> to the room and the secret of the creator.\<close>

lemma password_leads_to_room:
  assumes "ascii_upper uc" and "\<forall>c \<in> set u \<union> set v. is_whitespace c"
    and "start_room G D gen_range rng = ([password], r)"
  shows "\<exists>server_conn sharer room_id secret.
    connect_to_server D = Ok server_conn \<and>
    sharer_create_room (pl_server G) (pl_requests G) (pl_replies G) (fst server_conn) (snd server_conn) = Ok (sharer, room_id) \<and>
    r = establish_peer_connection G sharer secret \<and>
    join_room p uc G' D' (u @ password @ v) = join_with G' D' room_id secret \<and>
    join_room p uc G' D' (u @ map to_ascii_lowercase password @ v) = join_with G' D' room_id secret"
proof -
  obtain server_conn sharer room_id secret where steps:
    "connect_to_server D = Ok server_conn"
    "sharer_create_room (pl_server G) (pl_requests G) (pl_replies G) (fst server_conn) (snd server_conn) = Ok (sharer, room_id)"
    "to_string [0, room_id, secret] = Ok password" "r = establish_peer_connection G sharer secret"
    using assms(3) by (auto simp: start_room_def Let_def rust_simps split: res.splits prod.splits)
  have "join_room p uc G' D' s = join_with G' D' room_id secret" if "from_string p uc s = Ok [0, room_id, secret]" for s
    using that by (simp add: join_room_def)
  with steps printed_code_read [OF assms(1) _ steps(3) assms(2)] show ?thesis by blast
qed

text \<open>
  C31: the connection that a session runs over is that of a peer that proved to know the secret:
  the stream comes from one of the attempts, \<open>verify_peer\<close> accepted it with the secret and role of
  this side, and the writer and the reader encrypt and decrypt with the key derived there.
\<close>

theorem session_key_verified:
  assumes "select_laws (pl_select G)" and "establish_peer_connection G sharer secret = Some (Ok (writer, reader))"
  shows "\<exists>connector a s t key nonce.
    snd (get_peer_connector (pl_server G) (pl_requests G) (pl_replies G) sharer) = Ok connector \<and>
    a \<in> set (attempts (pn_local connector) (pn_peer connector)) \<and> Ok s \<in> set (pl_events G a) \<and>
    verify_peer (pl_peer G) (pl_spake G) (pl_sha256 G) secret s (pl_rand G a s) (pn_is_creator connector) = (t, Ok key) \<and>
    ew_encryptor writer = ae_encryptor (pl_aead G) key (pl_nonce G) \<and> er_decryptor reader = ae_decryptor (pl_aead G) key nonce"
proof -
  from assms(2) obtain connector t key where
    c: "snd (get_peer_connector (pl_server G) (pl_requests G) (pl_replies G) sharer) = Ok connector"
    and t: "connect_to_peer (pl_peer G) (pl_spake G) (pl_sha256 G) (pl_sockets G) (pl_select G) (pl_rand G) (pl_events G)
      connector secret = Some (Ok (t, key))"
    and w: "snd (writer_new (pl_buf G) (pl_aead G) (pl_write G) (snd (pl_split G t)) key (pl_nonce G)) = Ok writer"
    and r: "snd (reader_new (pl_buf G) (pl_aead G) (pl_read G) (fst (pl_split G t)) key) = Ok reader"
    by (auto simp: establish_peer_connection_def rust_simps case_prod_beta)
  from c connect_to_peer_verified [OF assms(1) t] writer_new_key [OF w] reader_new_key [OF r] show ?thesis by blast
qed

section \<open>Concrete instances\<close>

lemma list_dialer_connects: "connect_to_server (list_dialer replies) = Ok (None, Some (idle_pipe replies))"
  by (simp add: connect_to_server_def list_dialer_def connect_def free_sockets_def or_exit_def)

lemma list_room_started:
  obtains password r where
    "start_room list_peer_libs (list_dialer (frame (enc_server_message (RoomCreated 9)))) (\<lambda>g n. (7, g)) () = ([password], r)"
proof -
  let ?s = "idle_pipe (frame (enc_server_message (RoomCreated 9)))"
  have "streams_ok pipe_stream None (Some ?s)" by (simp add: streams_ok_def pipe_stream_def idle_pipe_def)
  moreover have "pi_in (first_stream None (Some ?s)) = frame (enc_server_message (RoomCreated 9)) @ []"
    by (simp add: first_stream_def idle_pipe_def)
  moreover have "valid_server_message (RoomCreated 9)" "length (enc_server_message (RoomCreated 9)) \<le> 64"
    using server_replies_fit unfolding replies_fit_def by (simp, blast)
  ultimately obtain sharer where "sharer_create_room pipe_stream client_codec server_codec None (Some ?s) = Ok (sharer, 9)"
    using pipe_client.create_room_reply client_requests_writable by metis
  then show thesis
    by (intro that) (simp add: start_room_def list_dialer_connects list_peer_libs_def or_exit_def to_string_Cons random_peer_secret_def)
qed

lemma waiting_creator_connector:
  "\<exists>conns. get_peer_connector pipe_stream client_codec server_codec waiting_creator = (conns, Ok loopback)"
proof -
  let ?msg = "SharePeerContacts (pn_local loopback) (pn_peer loopback)"
  have "list_all2 (\<lambda>m a. length (ms_buf m) = 68 \<and> local_addr pipe_stream m = Ok a)
      (get_all_messengers (sh_connection waiting_creator)) [V4 \<lparr>v4_ip = 1, v4_port = 1\<rparr>]"
    and "pi_in (ms_stream (hd (get_all_messengers (sh_connection waiting_creator)))) = frame (enc_server_message ?msg) @ []"
    by (simp_all add: waiting_creator_def get_all_messengers_def configure_stream_def with_capacity_def local_addr_def
        pipe_stream_def idle_pipe_def)
  moreover have "valid_server_message ?msg" "length (enc_server_message ?msg) \<le> 68"
    by (simp_all add: loopback_def Let_def default_contact_def plain_full_def plain_v6_def enc_full_def enc_contact_def enc_v4_def varint.simps [of 9])
  ultimately show ?thesis
    using pipe_client.peer_connector_ok [OF _ client_requests_writable]
    by (fastforce simp: waiting_creator_def loopback_def Let_def)
qed

theorem session_key_verified_witness:
  "\<exists>writer reader connector a s t key nonce.
    establish_peer_connection list_peer_libs waiting_creator 7 = Some (Ok (writer, reader)) \<and>
    snd (get_peer_connector pipe_stream client_codec server_codec waiting_creator) = Ok connector \<and>
    a \<in> set (attempts (pn_local connector) (pn_peer connector)) \<and> Ok s \<in> set (joiner_arrives a) \<and>
    verify_peer pipe_stream plain_spake plain_hash 7 s 1 (pn_is_creator connector) = (t, Ok key) \<and>
    ew_encryptor writer = ae_encryptor counter_aead key (replicate 8 5) \<and> er_decryptor reader = ae_decryptor counter_aead key nonce"
proof -
  obtain t where t: "connect_to_peer pipe_stream plain_spake plain_hash (\<lambda>_ _. free_sockets) first_ok (\<lambda>_ _. 1) joiner_arrives loopback 7 =
      Some (Ok (t, joiner_key))" "pi_in t = replicate 8 3" using loopback_connected by blast
  obtain conns where "get_peer_connector pipe_stream client_codec server_codec waiting_creator = (conns, Ok loopback)"
    using waiting_creator_connector by blast
  with t obtain writer reader where e: "establish_peer_connection list_peer_libs waiting_creator 7 = Some (Ok (writer, reader))"
    by (simp add: establish_peer_connection_def list_peer_libs_def or_exit_def writer_new_def reader_new_def vec_sink_def
        closed_source_def list_read_def)
  have "select_laws (pl_select list_peer_libs)" by (simp add: list_peer_libs_def first_ok.select_laws_axioms)
  from session_key_verified [OF this e] e show ?thesis unfolding list_peer_libs_def by simp
qed

end
