(* ===== verification/Paths.thy ===== *)
theory Paths
  imports Base32 "HOL-Library.Sublist"
begin

text \<open>
  Paths on a Unix system, as the standard library's \<open>std::path\<close> treats them: a path is its
  characters, most operations look at its components, among them the root. Empty components and
  \<open>.\<close> after the first one do not count.
\<close>

section \<open>Paths and their components\<close>

type_synonym path = rstr

definition is_absolute :: "path \<Rightarrow> bool" where
  "is_absolute p \<longleftrightarrow> (case p of [] \<Rightarrow> False | c # _ \<Rightarrow> c = 47)"

text \<open>\<open>Path::join\<close>: an absolute path replaces what it is joined to.\<close>

definition join :: "path \<Rightarrow> path \<Rightarrow> path" where
  "join a b = (if is_absolute b then b else if a = [] \<or> last a = 47 then a @ b else a @ [47] @ b)"

definition names :: "path \<Rightarrow> path list" where
  "names p =
     (case split_on 47 p of
        [] \<Rightarrow> []
      | c # cs \<Rightarrow> (if c = [] then [] else [c]) @ filter (\<lambda>c. c \<noteq> [] \<and> c \<noteq> lit ''.'') cs)"

definition components :: "path \<Rightarrow> path list" where
  "components p = (if is_absolute p then [[47]] else []) @ names p"

fun intercalate :: "path list \<Rightarrow> path" where
  "intercalate [] = []"
| "intercalate [c] = c"
| "intercalate (c # cs) = c @ [47] @ intercalate cs"

text \<open>The path with given components.\<close>

fun from_components :: "path list \<Rightarrow> path" where
  "from_components (c # cs) = (if c = [47] then 47 # intercalate cs else intercalate (c # cs))"
| "from_components [] = []"

text \<open>\<open>Path::parent\<close>, \<open>Path::starts_with\<close> and \<open>Path::strip_prefix\<close>.\<close>

definition parent :: "path \<Rightarrow> path option" where
  "parent p = (if names p = [] then None else Some (from_components (butlast (components p))))"

definition starts_with :: "path \<Rightarrow> path \<Rightarrow> bool" where
  "starts_with p base \<longleftrightarrow> prefix (components base) (components p)"

definition strip_prefix :: "path \<Rightarrow> path \<Rightarrow> path option" where
  "strip_prefix p base =
     (if starts_with p base then Some (from_components (drop (length (components base)) (components p))) else None)"

text \<open>A name that a directory can hold.\<close>

definition good_name :: "path \<Rightarrow> bool" where
  "good_name n \<longleftrightarrow> n \<noteq> [] \<and> 47 \<notin> set n \<and> n \<noteq> lit ''.''"

section \<open>Splitting and joining\<close>

lemma split_on_not_Nil [simp]: "split_on d s \<noteq> []"
  by (induction s) (auto split: list.split)

lemma split_on_append: "split_on d (a @ d # b) = split_on d a @ split_on d b"
  by (induction a) (auto split: list.split)

lemma split_on_sep_free: "w \<in> set (split_on d s) \<Longrightarrow> d \<notin> set w"
  by (induction s arbitrary: w) (auto split: list.splits if_splits)

lemma names_absolute:
  "is_absolute p \<Longrightarrow> names p = filter (\<lambda>c. c \<noteq> [] \<and> c \<noteq> lit ''.'') (split_on 47 p)"
  by (cases p) (auto simp: is_absolute_def names_def)

lemma names_good: "is_absolute p \<Longrightarrow> n \<in> set (names p) \<Longrightarrow> good_name n"
  using split_on_sep_free by (auto simp: names_absolute good_name_def)

lemma split_on_intercalate:
  "cs \<noteq> [] \<Longrightarrow> list_all (\<lambda>c. 47 \<notin> set c) cs \<Longrightarrow> split_on 47 (intercalate cs) = cs"
  by (induction cs rule: intercalate.induct) (auto simp: split_on_no_sep split_on_sep)

lemma is_absolute_append: "a \<noteq> [] \<Longrightarrow> is_absolute (a @ b) \<longleftrightarrow> is_absolute a"
  by (cases a) (auto simp: is_absolute_def)

lemma good_name_relative: "good_name n \<Longrightarrow> \<not> is_absolute n"
  by (cases n) (auto simp: is_absolute_def good_name_def)

lemma filter_good: "list_all good_name cs \<Longrightarrow> filter (\<lambda>c. c \<noteq> [] \<and> c \<noteq> lit ''.'') cs = cs"
  by (induction cs) (auto simp: good_name_def)

lemma split_on_good:
  "list_all good_name cs \<Longrightarrow> split_on 47 (intercalate cs) = (if cs = [] then [[]] else cs)"
  by (auto simp: good_name_def list_all_iff intro: split_on_intercalate)

lemma intercalate_names:
  assumes "list_all good_name cs"
  shows "names (intercalate cs) = cs" "\<not> is_absolute (intercalate cs)"
proof -
  have "list_all good_name (tl cs)" using assms by (cases cs) auto
  from filter_good [OF this] show "names (intercalate cs) = cs"
    unfolding names_def split_on_good [OF assms] using assms by (cases cs) (auto simp: good_name_def)
  show "\<not> is_absolute (intercalate cs)"
  proof (cases cs rule: intercalate.cases)
    case 1
    then show ?thesis by (simp add: is_absolute_def)
  next
    case (2 c)
    then show ?thesis using assms good_name_relative by simp
  next
    case (3 c d ds)
    then have "good_name c" using assms by simp
    then show ?thesis using 3 is_absolute_append [of c] good_name_relative by (auto simp: good_name_def)
  qed
qed

lemma components_from:
  assumes "list_all good_name cs"
  shows "components (from_components cs) = cs" "components (from_components ([47] # cs)) = [47] # cs"
proof -
  have "cs = [] \<or> hd cs \<noteq> [47]" using assms by (cases cs) (auto simp: good_name_def)
  then have "from_components cs = intercalate cs" by (cases cs) auto
  then show "components (from_components cs) = cs" using intercalate_names [OF assms] by (simp add: components_def)
  have "names (47 # intercalate cs) = filter (\<lambda>c. c \<noteq> [] \<and> c \<noteq> lit ''.'') (split_on 47 (intercalate cs))"
    by (simp add: names_absolute is_absolute_def)
  also have "\<dots> = cs" using filter_good [OF assms] by (simp add: split_on_good [OF assms])
  finally show "components (from_components ([47] # cs)) = [47] # cs"
    by (simp add: components_def is_absolute_def)
qed

lemma split_on_trailing:
  assumes "q \<noteq> []" and "last q = 47"
  shows "q = butlast q @ 47 # []" "split_on 47 q = split_on 47 (butlast q) @ [[]]"
proof -
  show q: "q = butlast q @ 47 # []" using assms append_butlast_last_id [of q] by simp
  show "split_on 47 q = split_on 47 (butlast q) @ [[]]" by (subst q, subst split_on_append) simp
qed

lemma components_join:
  assumes "is_absolute q" and "good_name n"
  shows "components (join q n) = components q @ [n]" "is_absolute (join q n)"
proof -
  have ne: "q \<noteq> []" using assms(1) by (auto simp: is_absolute_def)
  have j: "join q n = (if last q = 47 then q @ n else q @ 47 # n)"
    using good_name_relative [OF assms(2)] ne by (simp add: join_def)
  then show abs: "is_absolute (join q n)" using assms(1) is_absolute_append [OF ne] by simp
  have n: "split_on 47 n = [n]" using assms(2) by (simp add: split_on_no_sep good_name_def)
  let ?ok = "\<lambda>c. c \<noteq> [] \<and> c \<noteq> lit ''.''"
  have "filter ?ok (split_on 47 (join q n)) = filter ?ok (split_on 47 q) @ [n]"
  proof (cases "last q = 47")
    case True
    then have "join q n = butlast q @ 47 # n" using split_on_trailing(1) [OF ne True] j by (metis append.assoc append_Cons append_Nil)
    then show ?thesis
      using split_on_trailing(2) [OF ne True] n assms(2) by (simp add: split_on_append good_name_def)
  next
    case False
    then show ?thesis using n assms(2) by (simp add: j split_on_append good_name_def)
  qed
  then show "components (join q n) = components q @ [n]"
    using assms(1) abs by (simp add: components_def names_absolute)
qed

text \<open>What is left of a path below a prefix has the remaining components.\<close>

lemma components_good: "is_absolute p \<Longrightarrow> components p = [47] # names p \<and> list_all good_name (names p)"
  using names_good by (auto simp: components_def list_all_iff)

lemma strip_prefix_components:
  assumes "strip_prefix p base = Some q" and "is_absolute p"
  shows "components base @ components q = components p"
proof -
  obtain cs where cs: "components p = components base @ cs"
    using assms(1) by (auto simp: strip_prefix_def starts_with_def prefix_def split: if_splits)
  then have q: "q = from_components cs" using assms(1) by (auto simp: strip_prefix_def split: if_splits)
  have "components (from_components cs) = cs"
  proof (cases "components base")
    case Nil
    then show ?thesis using cs components_good [OF assms(2)] components_from(2) [of "names p"] by simp
  next
    case (Cons b bs)
    then have "list_all good_name cs" using cs components_good [OF assms(2)] by auto
    then show ?thesis by (rule components_from(1))
  qed
  then show ?thesis by (simp add: q cs)
qed

lemma components_parent:
  assumes "is_absolute p" and "parent p = Some q"
  shows "components q = butlast (components p)"
proof -
  have "names p \<noteq> []" "q = from_components (butlast (components p))" using assms(2) by (auto simp: parent_def split: if_splits)
  moreover have "butlast (components p) = [47] # butlast (names p)" "list_all good_name (butlast (names p))"
    using calculation(1) components_good [OF assms(1)] by (auto simp: list_all_iff dest: in_set_butlastD)
  ultimately show ?thesis using components_from(2) by simp
qed

end
