(* ===== verification/Chat_Protocol.thy ===== *)
theory Chat_Protocol
  imports Messenger Paths
begin

text \<open>
  The messages two peers exchange before they chat, and the dialog that answers a file offer:
  \<^verbatim>\<open>gday_chat/src/protocol.rs\<close>, \<open>confirm_receive\<close> of \<^verbatim>\<open>gday_chat/src/file_dialog.rs\<close> and the choice
  of files in \<^verbatim>\<open>gday_chat/src/lib.rs\<close>. A message is its postcard encoding behind a big-endian
  32-bit length, on the encrypted stream; stream and codec are the parameters of \<open>Messenger\<close>.
\<close>

section \<open>Paths, messages, errors\<close>

definition RECEIVED_FILE_FOLDER :: path where
  "RECEIVED_FILE_FOLDER = lit ''gday_received/''"

record file_meta =
  fm_path :: path
  fm_size :: u64

record local_file_meta =
  lm_local_path :: path
  lm_public_path :: path
  lm_size :: u64

datatype message = FileOffer "file_meta list option" | FileAccept "bool list"

datatype chat_error =
  ChPostcard postcard_error | ChIO io_error | ChMessageTooLong | ChReadline | ChNonUtf8 | ChUnexpectedMessage message

section \<open>The protocol\<close>

definition serialize_into ::
  "'s byte_stream \<Rightarrow> 'm codec \<Rightarrow> 's \<Rightarrow> 'm \<Rightarrow> 's \<times> (chat_error, unit) res" where
  "serialize_into S C stream msg =
     bind_st (stream, map_err ChPostcard (pc_to_stdvec C msg)) (\<lambda>stream msg.
       case u32_try_from (length msg) of
         None \<Rightarrow> (stream, Err ChMessageTooLong)
       | Some len \<Rightarrow>
           (case st_write_all S stream (u32_to_be_bytes len @ msg) of (stream, r) \<Rightarrow>
            bind_st (stream, map_err ChIO r) (\<lambda>stream _.
              case st_flush S stream of (stream, r) \<Rightarrow> (stream, map_err ChIO r))))"

text \<open>
  \<open>deserialize_from\<close> works in a buffer of its caller, which is grown when it is too short; the
  decoder is given the whole buffer.
\<close>

definition deserialize_from ::
  "'s byte_stream \<Rightarrow> 'm codec \<Rightarrow> 's \<Rightarrow> u8 list \<Rightarrow> 's \<times> (chat_error, 'm) res" where
  "deserialize_from S C stream tmp_buf =
     (case st_read_u32 S stream of (stream, r) \<Rightarrow>
      bind_st (stream, map_err ChIO r) (\<lambda>stream len.
        let len = unat len;
            tmp_buf = (if length tmp_buf < len then tmp_buf @ replicate (len - length tmp_buf) 0 else tmp_buf)
        in case st_read_exact S stream (take len tmp_buf) of (stream, dst, r) \<Rightarrow>
           bind_st (stream, map_err ChIO r) (\<lambda>stream _.
             (stream, map_err ChPostcard (pc_from_bytes C (dst @ drop len tmp_buf))))))"

section \<open>Answering an offer\<close>

text \<open>Addition of \<open>u64\<close> values.\<close>

definition u64_add :: "profile \<Rightarrow> u64 \<Rightarrow> u64 \<Rightarrow> ('e, u64) res" where
  "u64_add p a b =
     (if unat a + unat b < 2 ^ 64 then Ok (a + b)
      else case p of Debug \<Rightarrow> Panic ArithmeticOverflow | Release \<Rightarrow> Ok (a + b))"

text \<open>
  The file system as the code asks it: the length of a file that can be opened. The terminal:
  the results of flushing the output and of reading a line.
\<close>

type_synonym file_lengths = "path \<Rightarrow> u64 option"

record terminal =
  tm_flush :: "(io_error, unit) res"
  tm_read_line :: "(io_error, rstr) res"

definition file_exists :: "file_lengths \<Rightarrow> file_meta \<Rightarrow> bool" where
  "file_exists fs meta \<longleftrightarrow> fs (join RECEIVED_FILE_FOLDER (fm_path meta)) = Some (fm_size meta)"

fun scan_files :: "profile \<Rightarrow> file_lengths \<Rightarrow> file_meta list \<Rightarrow> bool list \<Rightarrow> u64 \<Rightarrow> u64
    \<Rightarrow> (io_error, bool list \<times> u64 \<times> u64) res" where
  "scan_files p fs [] new_files new_size total_size = Ok (new_files, new_size, total_size)"
| "scan_files p fs (meta # files) new_files new_size total_size =
     bind_res (u64_add p total_size (fm_size meta)) (\<lambda>total_size.
       if file_exists fs meta then scan_files p fs files new_files new_size total_size
       else
         let new_files = new_files @ [\<not> file_exists fs meta]
         in bind_res (u64_add p new_size (fm_size meta)) (\<lambda>new_size.
              scan_files p fs files new_files new_size total_size))"

definition confirm_receive ::
  "profile \<Rightarrow> file_lengths \<Rightarrow> terminal \<Rightarrow> file_meta list \<Rightarrow> (io_error, bool list) res" where
  "confirm_receive p fs tty files =
     bind_res (scan_files p fs files [] 0 0) (\<lambda>(new_files, new_size, total_size).
     bind_res (tm_flush tty) (\<lambda>_.
     bind_res (tm_read_line tty) (\<lambda>response.
       if trim response = lit ''2'' then Ok new_files
       else if trim response = lit ''3'' then Ok (replicate (length files) True)
       else Ok (replicate (length files) False))))"

text \<open>\<open>zip\<close>, \<open>filter\<close> and \<open>map\<close> over the offered files, as both sides do it.\<close>

definition chosen_files :: "'f list \<Rightarrow> bool list \<Rightarrow> 'f list" where
  "chosen_files files chosen = map fst (filter snd (zip files chosen))"

definition public_meta :: "local_file_meta \<Rightarrow> file_meta" where
  "public_meta f = \<lparr>fm_path = lm_public_path f, fm_size = lm_size f\<rparr>"

text \<open>
  A codec for these messages, for concrete instances: lists as their length and elements,
  numbers as variable-length integers.
\<close>

definition enc_list :: "('a \<Rightarrow> u8 list) \<Rightarrow> 'a list \<Rightarrow> u8 list" where
  "enc_list f xs = varint (length xs) @ concat (map f xs)"

fun dec_items :: "'a decoder \<Rightarrow> nat \<Rightarrow> 'a list decoder" where
  "dec_items f 0 bs = Some ([], bs)"
| "dec_items f (Suc n) bs =
     (case f bs of None \<Rightarrow> None | Some (x, bs) \<Rightarrow> map_option (\<lambda>(xs, bs). (x # xs, bs)) (dec_items f n bs))"

definition dec_list :: "'a decoder \<Rightarrow> 'a list decoder" where
  "dec_list f bs = (case unvarint bs of None \<Rightarrow> None | Some (n, bs) \<Rightarrow> dec_items f n bs)"

definition enc_meta :: "file_meta \<Rightarrow> u8 list" where
  "enc_meta m = enc_list varint (fm_path m) @ varint (unat (fm_size m))"

definition dec_meta :: "file_meta decoder" where
  "dec_meta bs =
     (case dec_list unvarint bs of None \<Rightarrow> None
      | Some (path, bs) \<Rightarrow> map_option (\<lambda>(n, bs). (\<lparr>fm_path = path, fm_size = of_nat n\<rparr>, bs)) (unvarint bs))"

definition dec_bool :: "bool decoder" where
  "dec_bool bs = map_option (\<lambda>(n, bs). (n = 1, bs)) (unvarint bs)"

fun enc_message :: "message \<Rightarrow> u8 list" where
  "enc_message (FileOffer metas) = 0 # enc_option (enc_list enc_meta) metas"
| "enc_message (FileAccept chosen) = 1 # enc_list (\<lambda>b. varint (if b then 1 else 0)) chosen"

fun dec_message :: "message decoder" where
  "dec_message [] = None"
| "dec_message (b # bs) =
     (if b = 0 then map_option (\<lambda>(metas, bs). (FileOffer metas, bs)) (dec_option (dec_list dec_meta) bs)
      else map_option (\<lambda>(chosen, bs). (FileAccept chosen, bs)) (dec_list dec_bool bs))"

definition message_codec :: "message codec" where
  "message_codec = make_codec enc_message dec_message"

section \<open>The reader's side of the frames\<close>

context message_channel
begin

lemma serialize_into_sends:
  assumes "length (encode msg) < 2 ^ 32"
  shows "\<exists>t. serialize_into S C s msg = (t, Ok ()) \<and> sent t = sent s @ frame (encode msg) \<and> incoming t = incoming s"
proof -
  obtain t where t: "st_write_all S s (frame (encode msg)) = (t, Ok ())" "sent t = sent s @ frame (encode msg)" "incoming t = incoming s"
    using write_all by blast
  obtain u where u: "st_flush S t = (u, Ok ())" "sent u = sent t" "incoming u = incoming t" using flush by blast
  show ?thesis
    using t u by (simp add: serialize_into_def to_stdvec_encode u32_try_from_Some [OF assms] frame_def)
qed

lemma deserialize_from_receives:
  assumes "incoming s = frame (encode msg) @ rest" and "valid msg" and "length (encode msg) < 2 ^ 32"
  shows "\<exists>t. deserialize_from S C s buf = (t, Ok msg) \<and> incoming t = rest \<and> sent t = sent s"
proof -
  let ?len = "length (encode msg)"
  have "4 \<le> length (incoming s)" "take 4 (incoming s) = u32_to_be_bytes (of_nat ?len)" "drop 4 (incoming s) = encode msg @ rest"
    using assms(1) by (simp_all add: frame_def)
  with read_u32 [of s] obtain t where t: "st_read_u32 S s = (t, Ok (of_nat ?len))" "incoming t = encode msg @ rest" "sent t = sent s"
    by auto
  define b where "b = (if length buf < ?len then buf @ replicate (?len - length buf) 0 else buf)"
  have b: "length (take ?len b) = ?len" by (simp add: b_def)
  then have "length (take ?len b) \<le> length (incoming t)" using t(2) by simp
  from read_exact [OF this] b t(2,3) obtain u where
    u: "st_read_exact S t (take ?len b) = (u, encode msg, Ok ())" "incoming u = rest" "sent u = sent s" by auto
  have "pc_from_bytes C (encode msg @ drop ?len b) = Ok msg" by (rule from_bytes_encode [OF assms(2)])
  then have "deserialize_from S C s buf = (u, Ok msg)"
    using t(1) u(1)
    by (cases "length buf < ?len") (simp_all add: deserialize_from_def unat_of_nat_u32 [OF assms(3)] b_def Let_def)
  then show ?thesis using u by blast
qed

end

lemma dec_list_enc:
  assumes "\<And>x r. f (e x @ r) = Some (x, r)"
  shows "dec_list f (enc_list e xs @ r) = Some (xs, r)"
proof -
  have "dec_items f (length xs) (concat (map e xs) @ r) = Some (xs, r)"
    by (induction xs) (simp_all add: assms)
  then show ?thesis by (simp add: dec_list_def enc_list_def unvarint_varint)
qed

lemma dec_meta_enc: "dec_meta (enc_meta m @ r) = Some (m, r)"
  by (simp add: dec_meta_def enc_meta_def dec_list_enc [OF unvarint_varint] unvarint_varint)

lemma dec_bool_enc: "dec_bool (varint (if b then 1 else 0) @ r) = Some (b, r)"
  by (simp add: dec_bool_def unvarint_varint)

lemma dec_message_enc: "dec_message (enc_message m @ r) = Some (m, r)"
proof (cases m)
  case (FileOffer metas)
  then show ?thesis by (cases metas) (simp_all add: dec_list_enc [OF dec_meta_enc])
next
  case (FileAccept chosen)
  then show ?thesis
    using dec_list_enc [of dec_bool "\<lambda>b. varint (if b then 1 else 0)" chosen r] by (simp add: dec_bool_enc)
qed

interpretation peer_wire: postcard_codec message_codec enc_message "\<lambda>_. True"
  unfolding message_codec_def by (rule make_codec_laws) (rule dec_message_enc)

interpretation peer_pipe: message_channel pipe_stream pi_in pi_out message_codec enc_message "\<lambda>_. True"
  by unfold_locales

section \<open>Properties\<close>

text \<open>
  What one peer serializes the other reads back, whatever the buffer of an earlier
  message still holds, and the bytes behind it stay unread.
\<close>

lemma peer_message_roundtrip:
  assumes "message_channel S incoming sent C encode valid" and "valid msg" and "length (encode msg) < 2 ^ 32"
  shows "\<exists>t bytes. serialize_into S C s msg = (t, Ok ()) \<and> sent t = sent s @ bytes \<and>
    (\<forall>u rest buf. incoming u = bytes @ rest \<longrightarrow>
       (\<exists>v. deserialize_from S C u buf = (v, Ok msg) \<and> incoming v = rest))"
proof -
  obtain t where "serialize_into S C s msg = (t, Ok ())" "sent t = sent s @ frame (encode msg)"
    using message_channel.serialize_into_sends [OF assms(1,3)] by blast
  moreover have "\<exists>v. deserialize_from S C u buf = (v, Ok msg) \<and> incoming v = rest"
    if "incoming u = frame (encode msg) @ rest" for u rest buf
    using message_channel.deserialize_from_receives [OF assms(1) that assms(2,3), of buf] by blast
  ultimately show ?thesis by (intro exI [of _ t] exI [of _ "frame (encode msg)"]) simp
qed

lemma scan_files_Ok:
  "scan_files p fs files new ns ts = Ok (new', ns', ts') \<Longrightarrow>
   new' = new @ replicate (length (filter (\<lambda>m. \<not> file_exists fs m) files)) True"
proof (induction files arbitrary: new ns ts)
  case Nil
  then show ?case by simp
next
  case (Cons f files)
  then show ?case
    by (cases "file_exists fs f") (fastforce simp: rust_simps Let_def replicate_append_same)+
qed

lemma chosen_replicate: "k \<le> length files \<Longrightarrow> chosen_files files (replicate k True) = take k files"
proof (induction files arbitrary: k)
  case Nil
  then show ?case by (simp add: chosen_files_def)
next
  case (Cons f files)
  then show ?case by (cases k) (auto simp: chosen_files_def)
qed

lemma chosen_none: "chosen_files files (replicate k False) = []"
proof (induction files arbitrary: k)
  case Nil
  then show ?case by (simp add: chosen_files_def)
next
  case (Cons f files)
  then show ?case by (cases k) (auto simp: chosen_files_def)
qed

text \<open>
  C39: what each answer of the dialog selects. Option 3 selects every file and any other
  answer than 2 or 3 none. Option 2, which the dialog describes as the files with a new path
  or size, selects the first \<open>n\<close> files of the offer, where \<open>n\<close> is the number of such files:
  the list it returns has no entry for a file that exists.
\<close>

theorem confirm_receive_selects:
  assumes "confirm_receive p fs tty files = Ok chosen" and "tm_read_line tty = Ok response"
  shows "chosen_files files chosen =
    (if trim response = lit ''3'' then files
     else if trim response = lit ''2'' then take (length (filter (\<lambda>m. \<not> file_exists fs m) files)) files
     else [])"
proof -
  obtain new ns ts where scan: "scan_files p fs files [] 0 0 = Ok (new, ns, ts)"
    using assms(1) by (auto simp: confirm_receive_def rust_simps)
  have new: "new = replicate (length (filter (\<lambda>m. \<not> file_exists fs m) files)) True"
    using scan_files_Ok [OF scan] by simp
  have "lit ''2'' \<noteq> lit ''3''" by (simp add: lit_def)
  then show ?thesis
    using assms scan new
    by (auto simp: confirm_receive_def rust_simps chosen_replicate chosen_none length_filter_le split: if_splits)
qed

lemma scan_files_overflow:
  "2 ^ 64 \<le> unat ts + sum_list (map (\<lambda>m. unat (fm_size m)) files) \<Longrightarrow> unat ns \<le> unat ts \<Longrightarrow>
   scan_files Debug fs files new ns ts = Panic ArithmeticOverflow"
proof (induction files arbitrary: new ns ts)
  case Nil
  then show ?case using unsigned_less [of ts, where 'a = nat] by simp
next
  case (Cons f files)
  show ?case
  proof (cases "unat ts + unat (fm_size f) < 2 ^ 64")
    case True
    then have ts: "unat (ts + fm_size f) = unat ts + unat (fm_size f)"
      by (simp add: unat_word_ariths)
    have "unat ns + unat (fm_size f) < 2 ^ 64" using True Cons.prems(2) by simp
    moreover from this have "unat (ns + fm_size f) = unat ns + unat (fm_size f)" by (simp add: unat_word_ariths)
    ultimately show ?thesis using True ts Cons by (simp add: u64_add_def Let_def)
  next
    case False
    then show ?thesis by (simp add: u64_add_def)
  qed
qed

text \<open>
  Sizes are claims of the peer: an offer whose sizes add up to \<open>2 ^ 64\<close> or more makes a
  debug build panic before the user is asked.
\<close>

lemma offer_overflow_panics:
  assumes "2 ^ 64 \<le> sum_list (map (\<lambda>m. unat (fm_size m)) files)"
  shows "confirm_receive Debug fs tty files = Panic ArithmeticOverflow"
  using scan_files_overflow [of 0 files 0 fs "[]"] assms by (simp add: confirm_receive_def)

section \<open>Concrete instances\<close>

text \<open>Two files are offered and the first is there already: answering 2 fetches it again and not the new one.\<close>

theorem confirm_receive_selects_witness:
  "chosen_files [\<lparr>fm_path = lit ''old'', fm_size = 5\<rparr>, \<lparr>fm_path = lit ''new'', fm_size = 7\<rparr>] [True] =
    [\<lparr>fm_path = lit ''old'', fm_size = 5\<rparr>]"
proof -
  let ?files = "[\<lparr>fm_path = lit ''old'', fm_size = 5\<rparr>, \<lparr>fm_path = lit ''new'', fm_size = 7\<rparr>]"
  let ?fs = "[join RECEIVED_FILE_FOLDER (lit ''old'') \<mapsto> 5]"
  let ?tty = "\<lparr>tm_flush = Ok (), tm_read_line = Ok (lit ''2'')\<rparr>"
  have ex: "map (file_exists ?fs) ?files = [True, False]"
    by (simp add: file_exists_def join_def is_absolute_def RECEIVED_FILE_FOLDER_def lit_def)
  have two: "trim (lit ''2'') = lit ''2''" "lit ''2'' \<noteq> lit ''3''"
    by (simp_all add: trim_def lit_def is_whitespace_def)
  have "confirm_receive Debug ?fs ?tty ?files = Ok [True]"
    using ex two by (simp add: confirm_receive_def u64_add_def)
  from confirm_receive_selects [OF this, of "lit ''2''"] ex two show ?thesis by simp
qed

end
