(* ===== verification/File_Transfer.thy ===== *)
theory File_Transfer
  imports Chat_Protocol Encrypted_Writer
begin

text \<open>
  Sending and receiving the files both sides agreed on: \<^verbatim>\<open>gday_chat/src/file_transfer.rs\<close> and the
  two runs of \<^verbatim>\<open>gday_chat/src/lib.rs\<close> up to the point where the chat starts. The contents of the
  files follow one another on the stream without any separator; the receiver cuts them by the
  sizes of the offer.

  The file system and the two copies of tokio are parameters; the locale \<open>file_store\<close> holds the
  behaviour of a file system that accepts new files, the locale \<open>copy_sink\<close> that of \<open>copy\<close> into a
  writer and the locale \<open>limited_source\<close> that of \<open>copy_buf\<close> over the bytes to arrive.
\<close>

section \<open>The interfaces\<close>

text \<open>
  \<open>fs_read\<close> opens a file and reads it to its end: the bytes read and how the reading ended.
  \<open>fs_append\<close> writes to a file just created.
\<close>

record 'f file_system =
  fs_read :: "'f \<Rightarrow> path \<Rightarrow> (io_error, u8 list \<times> (io_error, unit) res) res"
  fs_create_dir_all :: "'f \<Rightarrow> path \<Rightarrow> 'f \<times> (io_error, unit) res"
  fs_create :: "'f \<Rightarrow> path \<Rightarrow> 'f \<times> (io_error, unit) res"
  fs_append :: "'f \<Rightarrow> path \<Rightarrow> u8 list \<Rightarrow> 'f \<times> (io_error, unit) res"

text \<open>
  \<open>tokio::io::copy\<close> of an opened file into the writer, whose calls go through \<open>ProgressWrite\<close>: what
  the file gives up to its end, or up to an error, is written.
\<close>

type_synonym 'w copy_file = "'w \<Rightarrow> u8 list \<times> (io_error, unit) res \<Rightarrow> 'w \<times> (io_error, unit) res"

text \<open>\<open>copy_take r n\<close> is the source of \<open>copy_buf\<close> from \<open>reader.take(n)\<close>: the bytes it got and how it ended.\<close>

type_synonym 'r copy_take = "'r \<Rightarrow> nat \<Rightarrow> 'r \<times> u8 list \<times> (io_error, unit) res"

section \<open>Sending and receiving\<close>

fun u64_sum :: "profile \<Rightarrow> u64 \<Rightarrow> u64 list \<Rightarrow> ('e, u64) res" where
  "u64_sum p acc [] = Ok acc"
| "u64_sum p acc (x # xs) = bind_res (u64_add p acc x) (\<lambda>acc. u64_sum p acc xs)"

fun send_loop ::
  "'w copy_file \<Rightarrow> 'f file_system \<Rightarrow> 'f \<Rightarrow> 'w \<Rightarrow> local_file_meta list \<Rightarrow> 'w \<times> (io_error, unit) res" where
  "send_loop P F f writer [] = (writer, Ok ())"
| "send_loop P F f writer (meta # files) =
     bind_st (writer, fs_read F f (lm_local_path meta)) (\<lambda>writer file.
     bind_st (P writer file) (\<lambda>writer _.
       send_loop P F f writer files))"

definition send_files ::
  "profile \<Rightarrow> 'w byte_stream \<Rightarrow> 'w copy_file \<Rightarrow> 'f file_system \<Rightarrow> 'f \<Rightarrow> 'w \<Rightarrow> local_file_meta list \<Rightarrow> 'w \<times> (io_error, unit) res" where
  "send_files p W P F f writer files =
     bind_st (writer, u64_sum p 0 (map lm_size files)) (\<lambda>writer _.
     bind_st (send_loop P F f writer files) (\<lambda>writer _.
       st_flush W writer))"

fun receive_loop ::
  "'r copy_take \<Rightarrow> 'f file_system \<Rightarrow> 'r \<times> 'f \<Rightarrow> file_meta list \<Rightarrow> ('r \<times> 'f) \<times> (io_error, unit) res" where
  "receive_loop T F (reader, f) [] = ((reader, f), Ok ())"
| "receive_loop T F (reader, f) (meta # files) =
     (let path = join RECEIVED_FILE_FOLDER (fm_path meta);
          prefix = (case parent path of None \<Rightarrow> [] | Some q \<Rightarrow> q)
      in case fs_create_dir_all F f prefix of (f, r) \<Rightarrow>
         bind_st ((reader, f), r) (\<lambda>(reader, f) _.
           case fs_create F f path of (f, r) \<Rightarrow>
           bind_st ((reader, f), r) (\<lambda>(reader, f) _.
             case T reader (unat (fm_size meta)) of (reader, bytes, end) \<Rightarrow>
             case fs_append F f path bytes of (f, r) \<Rightarrow>
             bind_st ((reader, f), r) (\<lambda>(reader, f) _.
             bind_st ((reader, f), end) (\<lambda>(reader, f) _.
               receive_loop T F (reader, f) files)))))"

definition receive_files ::
  "profile \<Rightarrow> 'r copy_take \<Rightarrow> 'f file_system \<Rightarrow> 'r \<times> 'f \<Rightarrow> file_meta list \<Rightarrow> ('r \<times> 'f) \<times> (io_error, unit) res" where
  "receive_files p T F s files =
     bind_st (s, u64_sum p 0 (map fm_size files)) (\<lambda>s _. receive_loop T F s files)"

text \<open>
  \<open>ProgressWrite\<close> hands every call on and counts what was written: the position of the bar.
\<close>

definition progress_poll_write ::
  "'w async_write \<Rightarrow> 'w \<times> nat \<Rightarrow> u8 list \<Rightarrow> ('w \<times> nat) \<times> (io_error, nat) res poll" where
  "progress_poll_write W s buf =
     (case aw_poll_write W (fst s) buf of (w, r) \<Rightarrow>
      ((w, case r of Ready (Ok num) \<Rightarrow> snd s + num | _ \<Rightarrow> snd s), r))"

definition progress_poll_flush :: "'w async_write \<Rightarrow> 'w \<times> nat \<Rightarrow> ('w \<times> nat) \<times> (io_error, unit) res poll" where
  "progress_poll_flush W s = (case aw_poll_flush W (fst s) of (w, r) \<Rightarrow> ((w, snd s), r))"

definition progress_poll_shutdown :: "'w async_write \<Rightarrow> 'w \<times> nat \<Rightarrow> ('w \<times> nat) \<times> (io_error, unit) res poll" where
  "progress_poll_shutdown W s = (case aw_poll_shutdown W (fst s) of (w, r) \<Rightarrow> ((w, snd s), r))"

section \<open>The two runs before the chat\<close>

text \<open>
  \<open>creator_offer\<close> and \<open>not_creator_answer\<close> until \<open>start_chat\<close>: \<open>Ok\<close> means that the chat begins. The
  state is the reader and the writer of the encrypted connection.
\<close>

definition creator_offer ::
  "profile \<Rightarrow> 'r byte_stream \<Rightarrow> 'w byte_stream \<Rightarrow> message codec \<Rightarrow> 'w copy_file \<Rightarrow> 'f file_system \<Rightarrow> 'f \<Rightarrow> 'r \<times> 'w
   \<Rightarrow> local_file_meta list option \<Rightarrow> ('r \<times> 'w) \<times> (chat_error, unit) res" where
  "creator_offer p R W C P F f s files =
     (case files of
        Some files \<Rightarrow>
          (case serialize_into W C (snd s) (FileOffer (Some (map public_meta files))) of (w, q) \<Rightarrow>
           bind_st ((fst s, w), q) (\<lambda>s _.
             case deserialize_from R C (fst s) [] of (r, q) \<Rightarrow>
             bind_st ((r, snd s), q) (\<lambda>s reply.
               case reply of
                 FileAccept chosen \<Rightarrow>
                   (case send_files p W P F f (snd s) (chosen_files files chosen) of (w, q) \<Rightarrow>
                    ((fst s, w), map_err ChIO q))
               | FileOffer _ \<Rightarrow> (s, Err (ChUnexpectedMessage reply)))))
      | None \<Rightarrow>
          (case serialize_into W C (snd s) (FileOffer None) of (w, q) \<Rightarrow> ((fst s, w), q)))"

definition not_creator_answer ::
  "profile \<Rightarrow> 'r byte_stream \<Rightarrow> 'w byte_stream \<Rightarrow> message codec \<Rightarrow> 'r copy_take \<Rightarrow> 'f file_system
   \<Rightarrow> file_lengths \<Rightarrow> terminal \<Rightarrow> ('r \<times> 'w) \<times> 'f \<Rightarrow> (('r \<times> 'w) \<times> 'f) \<times> (chat_error, unit) res" where
  "not_creator_answer p R W C T F fs tty s =
     (case s of ((r, w), f) \<Rightarrow>
      case deserialize_from R C r [] of (r, q) \<Rightarrow>
      bind_st (((r, w), f), q) (\<lambda>((r, w), f) msg.
        case msg of
          FileOffer None \<Rightarrow> (((r, w), f), Ok ())
        | FileOffer (Some files) \<Rightarrow>
            bind_st (((r, w), f), map_err ChIO (confirm_receive p fs tty files)) (\<lambda>((r, w), f) chosen.
              case serialize_into W C w (FileAccept chosen) of (w, q) \<Rightarrow>
              bind_st (((r, w), f), q) (\<lambda>((r, w), f) _.
                case receive_files p T F (r, f) (chosen_files files chosen) of ((r, f), q) \<Rightarrow>
                (((r, w), f), map_err ChIO q)))
        | FileAccept _ \<Rightarrow> (((r, w), f), Err (ChUnexpectedMessage msg))))"

section \<open>Laws and instances\<close>

text \<open>Where a received file goes.\<close>

definition saved_path :: "file_meta \<Rightarrow> path" where
  "saved_path meta = join RECEIVED_FILE_FOLDER (fm_path meta)"

text \<open>A file system as a map, in which directories need not be made.\<close>

definition map_fs :: "(path \<rightharpoonup> u8 list) file_system" where
  "map_fs =
     \<lparr>fs_read = (\<lambda>f q. case f q of None \<Rightarrow> Err (OtherIo 2) | Some bs \<Rightarrow> Ok (bs, Ok ())),
      fs_create_dir_all = (\<lambda>f q. (f, Ok ())),
      fs_create = (\<lambda>f q. (f(q \<mapsto> []), Ok ())),
      fs_append = (\<lambda>f q bs. (f(q \<mapsto> (case f q of None \<Rightarrow> [] | Some old \<Rightarrow> old) @ bs), Ok ()))\<rparr>"

text \<open>A copy that writes, reports how the file ended, and flushes at the end.\<close>

definition copy_through :: "'w byte_stream \<Rightarrow> 'w copy_file" where
  "copy_through W w file =
     bind_st (st_write_all W w (fst file)) (\<lambda>w _. bind_st (w, snd file) (\<lambda>w _. st_flush W w))"

definition pipe_take :: "pipe copy_take" where
  "pipe_take s n = (s\<lparr>pi_in := drop n (pi_in s)\<rparr>, take n (pi_in s), Ok ())"

definition sendable :: "(message \<Rightarrow> bool) \<Rightarrow> (message \<Rightarrow> u8 list) \<Rightarrow> message \<Rightarrow> bool" where
  "sendable valid encode msg \<longleftrightarrow> valid msg \<and> length (encode msg) < 2 ^ 32"

definition one_file :: local_file_meta where
  "one_file = \<lparr>lm_local_path = lit ''/a'', lm_public_path = lit ''a'', lm_size = 2\<rparr>"

locale file_store =
  fixes F :: "'f file_system" and contents :: "'f \<Rightarrow> path \<rightharpoonup> u8 list"
  assumes read_contents: "contents f q = Some bs \<Longrightarrow> fs_read F f q = Ok (bs, Ok ())"
    and create_dir: "\<exists>f'. fs_create_dir_all F f q = (f', Ok ()) \<and> contents f' = contents f"
    and create_file: "\<exists>f'. fs_create F f q = (f', Ok ()) \<and> contents f' = (contents f)(q \<mapsto> [])"
    and append_file: "contents f q = Some old \<Longrightarrow>
      \<exists>f'. fs_append F f q bs = (f', Ok ()) \<and> contents f' = (contents f)(q \<mapsto> old @ bs)"

locale copy_sink =
  fixes P :: "'w copy_file" and sent :: "'w \<Rightarrow> u8 list"
  assumes copy_complete: "\<exists>w'. P w (bs, Ok ()) = (w', Ok ()) \<and> sent w' = sent w @ bs"

locale limited_source =
  fixes T :: "'r copy_take" and incoming :: "'r \<Rightarrow> u8 list"
  assumes copy_available: "n \<le> length (incoming r) \<Longrightarrow>
      \<exists>r'. T r n = (r', take n (incoming r), Ok ()) \<and> incoming r' = drop n (incoming r)"

interpretation map_fs: file_store map_fs "\<lambda>f. f"
  by unfold_locales (auto simp: map_fs_def)

sublocale duplex_stream \<subseteq> copying: copy_sink "copy_through S" sent
proof
  fix s bs
  obtain t where "st_write_all S s bs = (t, Ok ())" "sent t = sent s @ bs" using write_all by blast
  moreover obtain u where "st_flush S t = (u, Ok ())" "sent u = sent t" using flush by blast
  ultimately show "\<exists>w'. copy_through S s (bs, Ok ()) = (w', Ok ()) \<and> sent w' = sent s @ bs"
    by (simp add: copy_through_def)
qed

interpretation pipe_take: limited_source pipe_take pi_in
  by unfold_locales (auto simp: pipe_take_def)

lemma u64_sum_Ok:
  "unat acc + sum_list (map unat xs) < 2 ^ 64 \<Longrightarrow> \<exists>y. u64_sum p acc xs = Ok y"
proof (induction xs arbitrary: acc)
  case Nil
  then show ?case by simp
next
  case (Cons x xs)
  then have "unat acc + unat x < 2 ^ 64" by simp
  moreover from this have "unat (acc + x) = unat acc + unat x" by (simp add: unat_word_ariths)
  ultimately show ?case using Cons by (simp add: u64_add_def)
qed

locale receiving = file_store F contents + limited_source T incoming
  for F :: "'f file_system" and contents and T :: "'r copy_take" and incoming
begin

lemma receive_one:
  assumes "unat (fm_size meta) \<le> length (incoming r)"
  shows "\<exists>r' f'. receive_loop T F (r, f) (meta # files) = receive_loop T F (r', f') files \<and>
    incoming r' = drop (unat (fm_size meta)) (incoming r) \<and>
    contents f' = (contents f)(saved_path meta \<mapsto> take (unat (fm_size meta)) (incoming r))"
proof -
  let ?q = "saved_path meta" and ?n = "unat (fm_size meta)"
  obtain f1 where f1: "fs_create_dir_all F f (case parent ?q of None \<Rightarrow> [] | Some q \<Rightarrow> q) = (f1, Ok ())" "contents f1 = contents f"
    using create_dir by blast
  obtain f2 where f2: "fs_create F f1 ?q = (f2, Ok ())" "contents f2 = (contents f)(?q \<mapsto> [])"
    using create_file f1(2) by metis
  obtain r' where r': "T r ?n = (r', take ?n (incoming r), Ok ())" "incoming r' = drop ?n (incoming r)"
    using copy_available [OF assms] by blast
  obtain f3 where f3: "fs_append F f2 ?q (take ?n (incoming r)) = (f3, Ok ())"
    "contents f3 = (contents f)(?q \<mapsto> take ?n (incoming r))"
    using append_file [of f2 ?q "[]" "take ?n (incoming r)"] f2(2) by auto
  show ?thesis
    using f1 f2 r' f3 by (intro exI [of _ r'] exI [of _ f3]) (simp add: Let_def saved_path_def)
qed

text \<open>Cutting a stream of contents by their sizes.\<close>

lemma receive_loop_ok:
  assumes "incoming r = concat bodies @ rest" and "list_all2 (\<lambda>m b. length b = unat (fm_size m)) metas bodies"
    and "distinct (map saved_path metas)"
  shows "\<exists>r' f'. receive_loop T F (r, f) metas = ((r', f'), Ok ()) \<and> incoming r' = rest \<and>
    contents f' = (contents f)(map saved_path metas [\<mapsto>] bodies)"
  using assms(2,1,3)
proof (induction arbitrary: r f rule: list_all2_induct)
  case Nil
  then show ?case by simp
next
  case (Cons m metas b bodies)
  have "unat (fm_size m) \<le> length (incoming r)" using Cons by simp
  from receive_one [OF this, of f metas] Cons.hyps(1) Cons.prems(1) obtain r1 f1 where
    step: "receive_loop T F (r, f) (m # metas) = receive_loop T F (r1, f1) metas"
      "incoming r1 = concat bodies @ rest" "contents f1 = (contents f)(saved_path m \<mapsto> b)"
    by auto
  have upd: "(contents f)(map saved_path (m # metas) [\<mapsto>] b # bodies) = (contents f1)(map saved_path metas [\<mapsto>] bodies)"
    by (simp only: step(3) list.map map_upds_Cons)
  have "distinct (map saved_path metas)" using Cons.prems(2) by simp
  from Cons.IH [OF step(2) this, of f1] show ?case unfolding step(1) upd .
qed

lemma receive_files_ok:
  assumes "incoming r = concat bodies @ rest" and "list_all2 (\<lambda>m b. length b = unat (fm_size m)) metas bodies"
    and "distinct (map saved_path metas)" and "length (concat bodies) < 2 ^ 64"
  shows "\<exists>r' f'. receive_files p T F (r, f) metas = ((r', f'), Ok ()) \<and> incoming r' = rest \<and>
    contents f' = (contents f)(map saved_path metas [\<mapsto>] bodies)"
proof -
  have "map (\<lambda>m. unat (fm_size m)) metas = map length bodies"
    using assms(2) by (induction rule: list_all2_induct) auto
  then have "unat (0 :: u64) + sum_list (map unat (map fm_size metas)) < 2 ^ 64"
    using assms(4) by (simp add: length_concat comp_def)
  then obtain y where "(u64_sum p 0 (map fm_size metas) :: (io_error, u64) res) = Ok y"
    using u64_sum_Ok by blast
  then show ?thesis using receive_loop_ok [OF assms(1-3), of f] by (simp add: receive_files_def)
qed

end

interpretation map_receiving: receiving map_fs "\<lambda>f. f" pipe_take pi_in
  by unfold_locales

text \<open>Sending writes the contents one after the other.\<close>

lemma send_loop_ok:
  assumes "copy_sink P sent" and "file_store F contents"
    and "list_all2 (\<lambda>m b. contents f (lm_local_path m) = Some b) metas bodies"
  shows "\<exists>w'. send_loop P F f w metas = (w', Ok ()) \<and> sent w' = sent w @ concat bodies"
  using assms(3)
proof (induction arbitrary: w rule: list_all2_induct)
  case Nil
  then show ?case by simp
next
  case (Cons m metas b bodies)
  obtain w1 where "P w (b, Ok ()) = (w1, Ok ())" "sent w1 = sent w @ b"
    using copy_sink.copy_complete [OF assms(1)] by blast
  moreover obtain w2 where "send_loop P F f w1 metas = (w2, Ok ())" "sent w2 = sent w1 @ concat bodies"
    using Cons.IH by blast
  ultimately show ?case using file_store.read_contents [OF assms(2) Cons.hyps(1)] by simp
qed

lemma send_files_ok:
  assumes "duplex_stream W incoming sent" and "copy_sink P sent" and "file_store F contents"
    and "list_all2 (\<lambda>m b. contents f (lm_local_path m) = Some b) metas bodies"
    and "sum_list (map (\<lambda>m. unat (lm_size m)) metas) < 2 ^ 64"
  shows "\<exists>w'. send_files p W P F f w metas = (w', Ok ()) \<and> sent w' = sent w @ concat bodies"
proof -
  have "unat (0 :: u64) + sum_list (map unat (map lm_size metas)) < 2 ^ 64" using assms(5) by (simp add: comp_def)
  then obtain y where "(u64_sum p 0 (map lm_size metas) :: (io_error, u64) res) = Ok y" using u64_sum_Ok by blast
  moreover obtain w1 where "send_loop P F f w metas = (w1, Ok ())" "sent w1 = sent w @ concat bodies"
    using send_loop_ok [OF assms(2-4)] by blast
  moreover obtain w2 where "st_flush W w1 = (w2, Ok ())" "sent w2 = sent w1"
    using duplex_stream.flush [OF assms(1)] by blast
  ultimately show ?thesis by (simp add: send_files_def)
qed

lemma chosen_files_Cons [simp]:
  "chosen_files (x # xs) (c # cs) = (if c then x # chosen_files xs cs else chosen_files xs cs)"
  "chosen_files [] cs = []" "chosen_files xs [] = []"
  by (simp_all add: chosen_files_def)

lemma chosen_files_map: "chosen_files (map f xs) chosen = map f (chosen_files xs chosen)"
  by (induction xs arbitrary: chosen) (auto simp: chosen_files_def zip_Cons1 split: list.split)

lemma chosen_files_list_all2: "list_all2 Q xs ys \<Longrightarrow> list_all2 Q (chosen_files xs chosen) (chosen_files ys chosen)"
proof (induction arbitrary: chosen rule: list_all2_induct)
  case (Cons x xs y ys)
  then show ?case by (cases chosen) auto
qed simp

lemma chosen_files_length: "length (concat (chosen_files xs chosen)) \<le> length (concat xs)"
proof (induction xs arbitrary: chosen)
  case (Cons x xs)
  then show ?case by (cases chosen) (auto intro: trans_le_add2)
qed simp

lemma offered_sizes:
  "list_all2 (\<lambda>m b. Q m b \<and> length b = unat (lm_size m)) files bodies \<Longrightarrow> map (\<lambda>m. unat (lm_size m)) files = map length bodies"
  by (induction rule: list_all2_induct) auto

section \<open>Properties\<close>

text \<open>
  C25: offering files, both sides together. There are an offer, a reply and the data such that
  the creator, when it reads that reply, has sent the offer and the data, and the other side,
  when it reads the offer and the data, has sent that reply and saved exactly the contents of
  the files it chose, each at its place below the folder; both leave what follows on the
  stream for the chat. This holds when every file still has the size of its offer, no two
  chosen ones go to the same place, all files together have less than \<open>2 ^ 64\<close> bytes and the two
  messages can be sent (\<open>sendable\<close>: the encoding represents them and is shorter than \<open>2 ^ 32\<close> bytes).
\<close>

theorem offered_files_exchanged:
  assumes "message_channel R incoming sentR C encode valid" and "message_channel W incomingW sent C encode valid"
    and "copy_sink P sent" and "file_store G contents'" and "receiving F contents T incoming"
    and "list_all2 (\<lambda>m b. contents' g (lm_local_path m) = Some b \<and> length b = unat (lm_size m)) files bodies"
    and "confirm_receive q fs tty (map public_meta files) = Ok chosen"
    and "distinct (map (\<lambda>m. saved_path (public_meta m)) (chosen_files files chosen))" and "length (concat bodies) < 2 ^ 64"
    and "sendable valid encode (FileOffer (Some (map public_meta files)))" and "sendable valid encode (FileAccept chosen)"
  shows "\<exists>offer reply data.
    (\<forall>r w rest. incoming r = reply @ rest \<longrightarrow>
       (\<exists>r' w'. creator_offer p R W C P G g (r, w) (Some files) = ((r', w'), Ok ()) \<and>
          sent w' = sent w @ offer @ data \<and> incoming r' = rest)) \<and>
    (\<forall>r w f rest. incoming r = offer @ data @ rest \<longrightarrow>
       (\<exists>r' w' f'. not_creator_answer q R W C T F fs tty ((r, w), f) = (((r', w'), f'), Ok ()) \<and>
          sent w' = sent w @ reply \<and> incoming r' = rest \<and>
          contents f' = (contents f)(map (\<lambda>m. saved_path (public_meta m)) (chosen_files files chosen) [\<mapsto>] chosen_files bodies chosen)))"
proof -
  let ?offer = "FileOffer (Some (map public_meta files))" and ?reply = "FileAccept chosen"
  let ?files = "chosen_files files chosen" and ?bodies = "chosen_files bodies chosen"
  have chosen: "list_all2 (\<lambda>m b. contents' g (lm_local_path m) = Some b \<and> length b = unat (lm_size m)) ?files ?bodies"
    using assms(6) by (rule chosen_files_list_all2)
  have fits: "length (concat ?bodies) < 2 ^ 64" using chosen_files_length [of bodies chosen] assms(9) by simp
  have creator: "\<exists>r' w'. creator_offer p R W C P G g (r, w) (Some files) = ((r', w'), Ok ()) \<and>
      sent w' = sent w @ frame (encode ?offer) @ concat ?bodies \<and> incoming r' = rest"
    if r: "incoming r = frame (encode ?reply) @ rest" for r w rest
  proof -
    obtain w1 where w1: "serialize_into W C w ?offer = (w1, Ok ())" "sent w1 = sent w @ frame (encode ?offer)"
      using message_channel.serialize_into_sends [OF assms(2)] assms(10) by (auto simp: sendable_def)
    obtain r1 where r1: "deserialize_from R C r [] = (r1, Ok ?reply)" "incoming r1 = rest"
      using message_channel.deserialize_from_receives [OF assms(1) r] assms(11) by (auto simp: sendable_def)
    have src: "list_all2 (\<lambda>m b. contents' g (lm_local_path m) = Some b) ?files ?bodies"
      using chosen by (rule list_all2_mono) simp
    have "sum_list (map (\<lambda>m. unat (lm_size m)) ?files) < 2 ^ 64"
      using fits offered_sizes [OF chosen] by (simp add: length_concat)
    from send_files_ok [OF _ assms(3,4) src this, where W = W and incoming = incomingW and w = w1 and p = p] assms(2) obtain w2 where
      "send_files p W P G g w1 ?files = (w2, Ok ())" "sent w2 = sent w1 @ concat ?bodies"
      by (auto simp: message_channel_def)
    with w1 r1 show ?thesis by (simp add: creator_offer_def)
  qed
  have joiner: "\<exists>r' w' f'. not_creator_answer q R W C T F fs tty ((r, w), f) = (((r', w'), f'), Ok ()) \<and>
      sent w' = sent w @ frame (encode ?reply) \<and> incoming r' = rest \<and>
      contents f' = (contents f)(map (\<lambda>m. saved_path (public_meta m)) ?files [\<mapsto>] ?bodies)"
    if r: "incoming r = frame (encode ?offer) @ concat ?bodies @ rest" for r w f rest
  proof -
    obtain r1 where r1: "deserialize_from R C r [] = (r1, Ok ?offer)" "incoming r1 = concat ?bodies @ rest"
      using message_channel.deserialize_from_receives [OF assms(1) r] assms(10) by (auto simp: sendable_def)
    obtain w1 where w1: "serialize_into W C w ?reply = (w1, Ok ())" "sent w1 = sent w @ frame (encode ?reply)"
      using message_channel.serialize_into_sends [OF assms(2)] assms(11) by (auto simp: sendable_def)
    have "list_all2 (\<lambda>m b. length b = unat (fm_size m)) (map public_meta ?files) ?bodies"
      using chosen by (simp add: list_all2_map1 public_meta_def list_all2_mono)
    from receiving.receive_files_ok [OF assms(5) r1(2) this, of q f] assms(8) fits obtain r2 f2 where
      "receive_files q T F (r1, f) (map public_meta ?files) = ((r2, f2), Ok ())" "incoming r2 = rest"
      "contents f2 = (contents f)(map (\<lambda>m. saved_path (public_meta m)) ?files [\<mapsto>] ?bodies)"
      by (auto simp: comp_def)
    with r1 w1 assms(7) show ?thesis by (simp add: not_creator_answer_def chosen_files_map)
  qed
  from creator joiner show ?thesis by blast
qed

text \<open>
  C40: the path of an offered file is not checked: for an absolute path the received bytes are
  saved at that path of the file system, not below the folder for received files.
\<close>

theorem absolute_path_escapes:
  assumes "receiving F contents T incoming" and "is_absolute (fm_path meta)"
    and "unat (fm_size meta) \<le> length (incoming r)"
  shows "\<exists>r' f'. receive_files p T F (r, f) [meta] = ((r', f'), Ok ()) \<and>
    contents f' = (contents f)(fm_path meta \<mapsto> take (unat (fm_size meta)) (incoming r))"
proof -
  let ?b = "take (unat (fm_size meta)) (incoming r)"
  have "incoming r = concat [?b] @ drop (unat (fm_size meta)) (incoming r)"
    and "list_all2 (\<lambda>m b. length b = unat (fm_size m)) [meta] [?b]" and "distinct (map saved_path [meta])"
    using assms(3) by simp_all
  moreover have "length (concat [?b]) < 2 ^ 64"
    using assms(3) unsigned_less [of "fm_size meta", where 'a = nat] by simp
  moreover have "saved_path meta = fm_path meta" using assms(2) by (simp add: saved_path_def join_def)
  ultimately show ?thesis
    using receiving.receive_files_ok [OF assms(1), of r "[?b]" "drop (unat (fm_size meta)) (incoming r)" "[meta]" p f] by auto
qed

section \<open>Concrete instances\<close>

theorem offered_files_exchanged_witness:
  "\<exists>offer reply data.
    (\<forall>r w rest. pi_in r = reply @ rest \<longrightarrow>
       (\<exists>r' w'. creator_offer Debug pipe_stream pipe_stream message_codec (copy_through pipe_stream) map_fs [lit ''/a'' \<mapsto> [1, 2]]
            (r, w) (Some [one_file]) = ((r', w'), Ok ()) \<and>
          pi_out w' = pi_out w @ offer @ data \<and> pi_in r' = rest)) \<and>
    (\<forall>r w f rest. pi_in r = offer @ data @ rest \<longrightarrow>
       (\<exists>r' w' f'. not_creator_answer Debug pipe_stream pipe_stream message_codec pipe_take map_fs (\<lambda>_. None)
            \<lparr>tm_flush = Ok (), tm_read_line = Ok (lit ''3'')\<rparr> ((r, w), f) = (((r', w'), f'), Ok ()) \<and>
          pi_out w' = pi_out w @ reply \<and> pi_in r' = rest \<and>
          f' = f(map (\<lambda>m. saved_path (public_meta m)) (chosen_files [one_file] [True]) [\<mapsto>] chosen_files [[1, 2]] [True])))"
proof (rule offered_files_exchanged [OF peer_pipe.message_channel_axioms peer_pipe.message_channel_axioms
      pipe.copying.copy_sink_axioms map_fs.file_store_axioms map_receiving.receiving_axioms])
  show "confirm_receive Debug (\<lambda>_. None) \<lparr>tm_flush = Ok (), tm_read_line = Ok (lit ''3'')\<rparr> (map public_meta [one_file]) = Ok [True]"
    by (simp add: confirm_receive_def one_file_def public_meta_def file_exists_def u64_add_def trim_def is_whitespace_def lit_def)
qed (simp_all add: one_file_def chosen_files_def sendable_def public_meta_def enc_list_def enc_meta_def lit_def varint.simps)

theorem absolute_path_escapes_witness:
  "\<exists>r' f'. receive_files Debug pipe_take map_fs (idle_pipe [7, 8], Map.empty) [\<lparr>fm_path = lit ''/etc/x'', fm_size = 2\<rparr>] = ((r', f'), Ok ()) \<and>
    f' = [fm_path \<lparr>fm_path = lit ''/etc/x'', fm_size = 2\<rparr> \<mapsto> take (unat (fm_size \<lparr>fm_path = lit ''/etc/x'', fm_size = 2\<rparr>)) (pi_in (idle_pipe [7, 8]))]"
  by (rule absolute_path_escapes [OF map_receiving.receiving_axioms])
    (simp_all add: is_absolute_def lit_def idle_pipe_def)

end
