(* ===== verification/File_Dialog.thy ===== *)
theory File_Dialog
  imports File_Transfer
begin

text \<open>
  The choice of the files to send: \<open>confirm_send\<close> and the walk over directories of
  \<^verbatim>\<open>gday_chat/src/file_dialog.rs\<close>. The file system is a parameter. The walk follows symbolic links,
  since it canonicalizes every entry, so it need not end: it takes fuel. The abstract view is a
  tree of directories; over a file system that holds such a tree the walk returns its files.
\<close>

section \<open>The file system and the errors\<close>

datatype file_kind = IsDir | IsFile u64 | IsOther

record directories =
  fd_canonicalize :: "path \<Rightarrow> (io_error, path) res"
  fd_metadata :: "path \<Rightarrow> (io_error, file_kind) res"
  fd_read_dir :: "path \<Rightarrow> (io_error, (io_error, path) res list) res"
  fd_opens :: "path \<Rightarrow> bool"

datatype confirm_send_error = CsIO io_error | OverlappingPaths path path | UserCancelledSend

section \<open>The walk\<close>

fun get_file_metadatas_helper ::
    "nat \<Rightarrow> directories \<Rightarrow> path \<Rightarrow> path \<Rightarrow> local_file_meta list \<Rightarrow> (io_error, local_file_meta list) res option"
  and walk_entries ::
    "nat \<Rightarrow> directories \<Rightarrow> path \<Rightarrow> (io_error, path) res list \<Rightarrow> local_file_meta list \<Rightarrow> (io_error, local_file_meta list) res option" where
  "get_file_metadatas_helper 0 D top_path path files = None"
| "get_file_metadatas_helper (Suc n) D top_path path files =
     bind_fuel (Some (fd_canonicalize D path)) (\<lambda>path.
     bind_fuel (Some (fd_metadata D path)) (\<lambda>meta.
       case meta of
         IsDir \<Rightarrow> bind_fuel (Some (fd_read_dir D path)) (\<lambda>entries. walk_entries n D top_path entries files)
       | IsFile sz \<Rightarrow>
           if fd_opens D path then
             (case strip_prefix path top_path of
                None \<Rightarrow> Some (Panic UnwrapFailed)
              | Some public_path \<Rightarrow>
                  Some (Ok (files @ [\<lparr>lm_local_path = path, lm_public_path = public_path, lm_size = sz\<rparr>])))
           else Some (Ok files)
       | IsOther \<Rightarrow> Some (Ok files)))"
| "walk_entries n D top_path [] files = Some (Ok files)"
| "walk_entries n D top_path (entry # entries) files =
     bind_fuel (Some entry) (\<lambda>path.
     bind_fuel (get_file_metadatas_helper n D top_path path files) (\<lambda>files.
       walk_entries n D top_path entries files))"

fun get_file_metadatas ::
  "nat \<Rightarrow> directories \<Rightarrow> path list \<Rightarrow> local_file_meta list \<Rightarrow> (io_error, local_file_meta list) res option" where
  "get_file_metadatas n D [] files = Some (Ok files)"
| "get_file_metadatas n D (path # paths) files =
     bind_fuel (Some (fd_canonicalize D path)) (\<lambda>path.
       bind_fuel (get_file_metadatas_helper n D (case parent path of None \<Rightarrow> [] | Some q \<Rightarrow> q) path files) (\<lambda>files. get_file_metadatas n D paths files))"

section \<open>The dialog\<close>

fun check_against :: "directories \<Rightarrow> path \<Rightarrow> path \<Rightarrow> path list \<Rightarrow> (confirm_send_error, unit) res" where
  "check_against D path1 canonical1 [] = Ok ()"
| "check_against D path1 canonical1 (path2 # paths) =
     bind_res (map_err CsIO (fd_canonicalize D path2)) (\<lambda>canonical2.
       if starts_with canonical1 canonical2 \<or> starts_with canonical2 canonical1
       then Err (OverlappingPaths path1 path2) else check_against D path1 canonical1 paths)"

fun check_overlaps :: "directories \<Rightarrow> path list \<Rightarrow> (confirm_send_error, unit) res" where
  "check_overlaps D [] = Ok ()"
| "check_overlaps D (path1 # paths) =
     bind_res (map_err CsIO (fd_canonicalize D path1)) (\<lambda>canonical1.
     bind_res (check_against D path1 canonical1 paths) (\<lambda>_. check_overlaps D paths))"

text \<open>\<open>str::to_lowercase\<close> is the parameter \<open>lc\<close>.\<close>

definition confirm_send ::
  "nat \<Rightarrow> profile \<Rightarrow> directories \<Rightarrow> (rstr \<Rightarrow> rstr) \<Rightarrow> terminal \<Rightarrow> path list \<Rightarrow> (confirm_send_error, local_file_meta list) res option" where
  "confirm_send n p D lc tty paths =
     bind_fuel (Some (check_overlaps D paths)) (\<lambda>_.
     bind_fuel (map_option (map_err CsIO) (get_file_metadatas n D paths [])) (\<lambda>files.
     bind_fuel (Some (u64_sum p 0 (map lm_size files))) (\<lambda>_.
     bind_fuel (Some (map_err CsIO (tm_flush tty))) (\<lambda>_.
     bind_fuel (Some (map_err CsIO (tm_read_line tty))) (\<lambda>response.
       if prefix (lc (trim response)) (lit ''yes'') then Some (Ok files) else Some (Err UserCancelledSend))))))"

section \<open>Trees\<close>

text \<open>A file with its size and whether it can be opened, a directory with its named entries, or neither.\<close>

datatype tree = File u64 bool | Dir "(path \<times> tree) list" | Special

text \<open>A file system holds a tree at a canonical path, without symbolic links below it.\<close>

fun holds :: "directories \<Rightarrow> path \<Rightarrow> tree \<Rightarrow> bool" where
  "holds D q (File sz opens) \<longleftrightarrow>
     fd_canonicalize D q = Ok q \<and> fd_metadata D q = Ok (IsFile sz) \<and> fd_opens D q = opens"
| "holds D q (Dir entries) \<longleftrightarrow>
     fd_canonicalize D q = Ok q \<and> fd_metadata D q = Ok IsDir \<and>
     fd_read_dir D q = Ok (map (\<lambda>(n, t). Ok (join q n)) entries) \<and>
     list_all (\<lambda>(n, t). good_name n \<and> holds D (join q n) t) entries"
| "holds D q Special \<longleftrightarrow> fd_canonicalize D q = Ok q \<and> fd_metadata D q = Ok IsOther"

fun depth :: "tree \<Rightarrow> nat" where
  "depth (File _ _) = 1"
| "depth (Dir entries) = Suc (fold max (map (\<lambda>(n, t). depth t) entries) 0)"
| "depth Special = 1"

text \<open>The files of a tree that can be opened, with their paths and sizes.\<close>

fun tree_files :: "path \<Rightarrow> tree \<Rightarrow> (path \<times> u64) list" where
  "tree_files q (File sz opens) = (if opens then [(q, sz)] else [])"
| "tree_files q (Dir entries) = concat (map (\<lambda>(n, t). tree_files (join q n) t) entries)"
| "tree_files q Special = []"

text \<open>A file as it is offered: its path below the given directory.\<close>

definition offered :: "path \<Rightarrow> path \<times> u64 \<Rightarrow> local_file_meta" where
  "offered base f = \<lparr>lm_local_path = fst f, lm_public_path = the (strip_prefix (fst f) base), lm_size = snd f\<rparr>"

text \<open>The directory a sent path is in.\<close>

definition holding_dir :: "path \<Rightarrow> path" where
  "holding_dir q = (case parent q of None \<Rightarrow> [] | Some p \<Rightarrow> p)"

text \<open>Two canonical paths of which one contains the other.\<close>

definition overlap :: "path \<Rightarrow> path \<Rightarrow> bool" where
  "overlap p q \<longleftrightarrow> starts_with p q \<or> starts_with q p"

text \<open>Two directories with a file of the same name in each.\<close>

definition two_dirs :: directories where
  "two_dirs =
     \<lparr>fd_canonicalize = Ok, fd_metadata = (\<lambda>_. Ok (IsFile 1)), fd_read_dir = (\<lambda>_. Err (OtherIo 20)), fd_opens = (\<lambda>_. True)\<rparr>"

section \<open>The walk over a tree\<close>

lemma fold_max_ge: "a \<le> fold max xs (a :: nat)" "x \<in> set xs \<Longrightarrow> x \<le> fold max xs (a :: nat)"
proof (induction xs arbitrary: a)
  case (Cons y ys)
  { case 1 then show ?case using Cons.IH(1) [of "max y a"] by simp }
  { case 2 then show ?case using Cons.IH(1) [of "max y a"] Cons.IH(2) [of "max y a"] by auto }
qed auto

lemma walk_entries_collects:
  assumes "\<And>m t files. (m, t) \<in> set entries \<Longrightarrow>
      get_file_metadatas_helper n D base (join q m) files = Some (Ok (files @ map (offered base) (tree_files (join q m) t)))"
  shows "walk_entries n D base (map (\<lambda>(m, t). Ok (join q m)) entries) files =
    Some (Ok (files @ map (offered base) (concat (map (\<lambda>(m, t). tree_files (join q m) t) entries))))"
  using assms
proof (induction entries arbitrary: files)
  case (Cons e entries)
  obtain m t where e: "e = (m, t)" by fastforce
  then have "get_file_metadatas_helper n D base (join q m) files = Some (Ok (files @ map (offered base) (tree_files (join q m) t)))"
    by (intro Cons.prems) simp
  then show ?case using Cons.IH [OF Cons.prems] by (simp add: e)
qed simp

lemma helper_collects:
  assumes "holds D q t" and "is_absolute q" and "starts_with q base" and "depth t \<le> n"
  shows "get_file_metadatas_helper n D base q files = Some (Ok (files @ map (offered base) (tree_files q t)))"
  using assms
proof (induction t arbitrary: q n files)
  case (File sz opens)
  then obtain k where "n = Suc k" by (cases n) auto
  with File show ?case by (auto simp: offered_def strip_prefix_def)
next
  case (Dir entries)
  then obtain k where k: "n = Suc k" by (cases n) auto
  have "get_file_metadatas_helper k D base (join q m) fs = Some (Ok (fs @ map (offered base) (tree_files (join q m) t)))"
    if e: "(m, t) \<in> set entries" for m t fs
  proof -
    have "holds D (join q m) t" "good_name m" using Dir.prems(1) e by (auto simp: list_all_iff)
    moreover have "is_absolute (join q m)" "starts_with (join q m) base"
      using components_join [OF Dir.prems(2) \<open>good_name m\<close>] Dir.prems(3) by (auto simp: starts_with_def)
    moreover have "depth t \<le> k" using Dir.prems(4) k fold_max_ge(2) [of "depth t" "map (\<lambda>(n, t). depth t) entries" 0] e by force
    ultimately show ?thesis using Dir.IH [of "(m, t)" t] e by simp
  qed
  from walk_entries_collects [of entries k D base q, OF this] show ?case
    using Dir.prems(1) k by simp
next
  case Special
  then obtain k where "n = Suc k" by (cases n) auto
  with Special show ?case by simp
qed

lemma starts_with_above: "is_absolute q \<Longrightarrow> starts_with q (holding_dir q)"
  using components_parent [of q]
  by (cases "parent q") (auto simp: holding_dir_def starts_with_def components_def [of "[]"] is_absolute_def names_def prefixeq_butlast)

lemma tree_files_below:
  assumes "f \<in> set (tree_files q t)" and "holds D q t" and "is_absolute q"
  shows "is_absolute (fst f) \<and> starts_with (fst f) q"
  using assms
proof (induction t arbitrary: q)
  case (Dir entries)
  then obtain m t where e: "(m, t) \<in> set entries" "f \<in> set (tree_files (join q m) t)" by auto
  then have "holds D (join q m) t" "good_name m" using Dir.prems(2) by (auto simp: list_all_iff)
  moreover note components_join [OF Dir.prems(3) this(2)]
  ultimately show ?case using Dir.IH [of "(m, t)" t "join q m"] e by (auto simp: starts_with_def dest: append_prefixD)
qed (auto simp: starts_with_def split: if_splits)

lemma metadatas_collect:
  assumes "list_all2 (\<lambda>p (q, t). fd_canonicalize D p = Ok q \<and> is_absolute q \<and> holds D q t \<and> depth t \<le> n) paths qts"
  shows "get_file_metadatas n D paths files =
    Some (Ok (files @ concat (map (\<lambda>(q, t). map (offered (holding_dir q)) (tree_files q t)) qts)))"
  using assms
proof (induction arbitrary: files rule: list_all2_induct)
  case (Cons p paths qt qts)
  obtain q t where "qt = (q, t)" by fastforce
  with Cons.hyps(1) have "fd_canonicalize D p = Ok q" "is_absolute q" "holds D q t" "depth t \<le> n" by auto
  with helper_collects [OF this(3,2) starts_with_above [OF this(2)] this(4)] Cons.IH show ?case
    by (simp add: \<open>qt = (q, t)\<close> holding_dir_def)
qed simp

section \<open>Overlaps\<close>

lemma check_against_result:
  assumes "list_all2 (\<lambda>p q. fd_canonicalize D p = Ok q) paths qs"
  shows "if list_all (\<lambda>q. \<not> overlap c q) qs then check_against D p c paths = Ok ()
    else \<exists>p2. check_against D p c paths = Err (OverlappingPaths p p2)"
  using assms by (induction rule: list_all2_induct) (auto simp: overlap_def split: if_splits)

lemma check_overlaps_result:
  assumes "list_all2 (\<lambda>p q. fd_canonicalize D p = Ok q) paths qs"
  shows "if sorted_wrt (\<lambda>q r. \<not> overlap q r) qs then check_overlaps D paths = Ok ()
    else \<exists>p1 p2. check_overlaps D paths = Err (OverlappingPaths p1 p2)"
  using assms
proof (induction rule: list_all2_induct)
  case (Cons p paths q qs)
  then show ?case
    using check_against_result [OF Cons.hyps(2), of q p]
    by (auto simp: list_all_iff split: if_splits)
qed simp

section \<open>Properties\<close>

text \<open>
  C32: over a file system that holds a tree without links at each path, the walk returns,
  whatever the trees are: enough fuel is their depth. It lists exactly the files of the trees
  that can be opened, with their sizes, in the order of the directories; the offered path of a
  file is its local path without the directory that the sent path is in.
\<close>

theorem walk_collects:
  assumes "list_all2 (\<lambda>p (q, t). fd_canonicalize D p = Ok q \<and> is_absolute q \<and> holds D q t \<and> depth t \<le> n) paths qts"
  shows "\<exists>files. get_file_metadatas n D paths [] = Some (Ok files) \<and>
    map (\<lambda>f. (lm_local_path f, lm_size f)) files = concat (map (\<lambda>(q, t). tree_files q t) qts) \<and>
    (\<forall>f \<in> set files. \<exists>(q, t) \<in> set qts. components (holding_dir q) @ components (lm_public_path f) = components (lm_local_path f))"
proof -
  define files where "files = concat (map (\<lambda>(q, t). map (offered (holding_dir q)) (tree_files q t)) qts)"
  have "get_file_metadatas n D paths [] = Some (Ok files)" using metadatas_collect [OF assms, of "[]"] by (simp add: files_def)
  moreover have "map (\<lambda>f. (lm_local_path f, lm_size f)) files = concat (map (\<lambda>(q, t). tree_files q t) qts)"
    by (simp add: files_def map_concat comp_def offered_def case_prod_unfold)
  moreover have "\<exists>(q, t) \<in> set qts. components (holding_dir q) @ components (lm_public_path f) = components (lm_local_path f)"
    if f: "f \<in> set files" for f
  proof -
    from f obtain q t g where g: "(q, t) \<in> set qts" "g \<in> set (tree_files q t)" "f = offered (holding_dir q) g"
      by (auto simp: files_def)
    then obtain i where "i < length qts" "qts ! i = (q, t)" by (auto simp: in_set_conv_nth)
    with list_all2_nthD2 [OF assms this(1)] have "holds D q t" "is_absolute q" by auto
    from tree_files_below [OF g(2) this] starts_with_above [OF this(2)] have
      abs: "is_absolute (fst g)" and "starts_with (fst g) (holding_dir q)"
      by (auto simp: starts_with_def intro: prefix_order.trans)
    then have "strip_prefix (fst g) (holding_dir q) = Some (lm_public_path f)" by (simp add: g(3) offered_def strip_prefix_def)
    from strip_prefix_components [OF this abs] show ?thesis using g(1,3) by (auto simp: offered_def)
  qed
  ultimately show ?thesis by blast
qed

text \<open>
  The decision of \<open>confirm_send\<close>: if one of two paths contains the other it fails with that
  error; otherwise, with the files found and the size in range, it returns them exactly when the
  answer, trimmed and in lower case, is a prefix of \<open>yes\<close>. The empty answer is one.
\<close>

lemma confirm_send_decides:
  assumes "list_all2 (\<lambda>p q. fd_canonicalize D p = Ok q) paths qs"
    and "get_file_metadatas n D paths [] = Some (Ok files)" and "sum_list (map (\<lambda>f. unat (lm_size f)) files) < 2 ^ 64"
    and "tm_flush tty = Ok ()" and "tm_read_line tty = Ok response"
  shows "if sorted_wrt (\<lambda>q r. \<not> overlap q r) qs
    then confirm_send n p D lc tty paths =
      Some (if prefix (lc (trim response)) (lit ''yes'') then Ok files else Err UserCancelledSend)
    else \<exists>p1 p2. confirm_send n p D lc tty paths = Some (Err (OverlappingPaths p1 p2))"
proof -
  have "unat (0 :: u64) + sum_list (map unat (map lm_size files)) < 2 ^ 64" using assms(3) by (simp add: comp_def)
  then obtain y where "(u64_sum p 0 (map lm_size files) :: (confirm_send_error, u64) res) = Ok y" using u64_sum_Ok by blast
  with check_overlaps_result [OF assms(1)] show ?thesis
    using assms(2,4,5) by (auto simp: confirm_send_def split: if_splits)
qed


text \<open>
  Paths that do not overlap can still end in the same name. Two files of one name from two
  directories are offered under the same path, where the receiver saves both.
\<close>

lemma same_name_offered_twice:
  "\<exists>files. confirm_send 1 p two_dirs lc \<lparr>tm_flush = Ok (), tm_read_line = Ok response\<rparr> [lit ''/a/x'', lit ''/b/x''] =
      Some (if prefix (lc (trim response)) (lit ''yes'') then Ok files else Err UserCancelledSend) \<and>
    length files = 2 \<and> \<not> distinct (map (\<lambda>f. saved_path (public_meta f)) files)"
proof -
  define files where "files = [\<lparr>lm_local_path = lit ''/a/x'', lm_public_path = lit ''x'', lm_size = 1\<rparr>,
    \<lparr>lm_local_path = lit ''/b/x'', lm_public_path = lit ''x'', lm_size = 1\<rparr>]"
  note ev = starts_with_def components_def names_def is_absolute_def lit_def strip_prefix_def parent_def
  have "check_overlaps two_dirs [lit ''/a/x'', lit ''/b/x''] = Ok ()" by (simp add: two_dirs_def ev)
  moreover have "get_file_metadatas 1 two_dirs [lit ''/a/x'', lit ''/b/x''] [] = Some (Ok files)"
    by (simp add: two_dirs_def files_def ev)
  moreover have "(u64_sum p 0 (map lm_size files) :: (confirm_send_error, u64) res) = Ok 2"
    by (simp add: files_def u64_add_def)
  ultimately show ?thesis
    by (intro exI [of _ files]) (simp add: confirm_send_def, simp add: files_def public_meta_def saved_path_def)
qed

section \<open>Concrete instances\<close>

theorem walk_collects_witness:
  "\<exists>files. get_file_metadatas 1 two_dirs [lit ''/a/x''] [] = Some (Ok files) \<and>
    map (\<lambda>f. (lm_local_path f, lm_size f)) files = concat (map (\<lambda>(q, t). tree_files q t) [(lit ''/a/x'', File 1 True)]) \<and>
    (\<forall>f \<in> set files. \<exists>(q, t) \<in> set [(lit ''/a/x'', File 1 True)].
       components (holding_dir q) @ components (lm_public_path f) = components (lm_local_path f))"
  by (rule walk_collects) (simp add: two_dirs_def is_absolute_def lit_def)


end
