(* ===== verification/Chat.thy ===== *)
theory Chat
  imports File_Transfer
begin

text \<open>
  The chat of two peers, \<^verbatim>\<open>gday_chat/src/chat.rs\<close>, and the two runs of \<^verbatim>\<open>gday_chat/src/lib.rs\<close> that
  end in it. A line the user enters goes out as its UTF-8 bytes and a line feed, unless it is blank;
  a line that arrives is printed. Both loops run at the same time until one of them ends.

  Parameters: the line editor as the list of events it returns (an exhausted list means that the
  user has not entered anything yet), the buffered reader's \<open>next_line\<close> (locale \<open>line_source\<close>), the
  terminal and its colours.
\<close>

section \<open>The two loops\<close>

datatype readline_event = Line rstr | ReadlineEof | Interrupted

type_synonym 'r next_line = "'r \<Rightarrow> 'r \<times> (io_error, rstr option) res"
type_synonym 't write_line = "'t \<Rightarrow> rstr \<Rightarrow> 't \<times> (io_error, unit) res"

definition peer_line :: "(rstr \<Rightarrow> rstr) \<Rightarrow> rstr \<Rightarrow> rstr" where
  "peer_line magenta line = magenta (lit ''peer:'') @ lit '' '' @ magenta line"

partial_function (option) chat_listen ::
  "'r next_line \<Rightarrow> 't write_line \<Rightarrow> (rstr \<Rightarrow> rstr) \<Rightarrow> 'r \<Rightarrow> 't \<Rightarrow> (('r \<times> 't) \<times> (chat_error, unit) res) option" where
  "chat_listen next_line write_line magenta reader terminal =
     (case next_line reader of
        (reader, Ok None) \<Rightarrow> Some ((reader, terminal), Ok ())
      | (reader, Err e) \<Rightarrow> Some ((reader, terminal), Err (ChIO e))
      | (reader, Panic p) \<Rightarrow> Some ((reader, terminal), Panic p)
      | (reader, Ok (Some line)) \<Rightarrow>
          (case write_line terminal (peer_line magenta line) of
             (terminal, Ok _) \<Rightarrow> chat_listen next_line write_line magenta reader terminal
           | (terminal, Err e) \<Rightarrow> Some ((reader, terminal), Err (ChIO e))
           | (terminal, Panic p) \<Rightarrow> Some ((reader, terminal), Panic p)))"

text \<open>The state is the writer and the history of the line editor.\<close>

fun chat_talk ::
  "'w byte_stream \<Rightarrow> (io_error, unit) res \<Rightarrow> 'w \<times> rstr list \<Rightarrow> (unit, readline_event) res list
   \<Rightarrow> (('w \<times> rstr list) \<times> (chat_error, unit) res) option" where
  "chat_talk W terminal_flush s [] = None"
| "chat_talk W terminal_flush (writer, history) (event # events) =
     (case event of
        Ok (Line text) \<Rightarrow>
          if trim text \<noteq> [] then
            (case st_write_all W writer (as_bytes text) of
               (writer, Ok _) \<Rightarrow>
                 (case st_write_all W writer [10] of
                    (writer, Ok _) \<Rightarrow>
                      (case st_flush W writer of
                         (writer, Ok _) \<Rightarrow>
                           (case terminal_flush of
                              Ok _ \<Rightarrow> chat_talk W terminal_flush (writer, history @ [text]) events
                            | r \<Rightarrow> Some ((writer, history @ [text]), map_err ChIO r))
                       | (writer, r) \<Rightarrow> Some ((writer, history @ [text]), map_err ChIO r))
                  | (writer, r) \<Rightarrow> Some ((writer, history @ [text]), map_err ChIO r))
             | (writer, r) \<Rightarrow> Some ((writer, history @ [text]), map_err ChIO r))
          else chat_talk W terminal_flush (writer, history) events
      | Ok _ \<Rightarrow> Some ((writer, history), Ok ())
      | Err _ \<Rightarrow> Some ((writer, history), Err ChReadline)
      | Panic p \<Rightarrow> Some ((writer, history), Panic p))"

text \<open>
  \<open>tokio::select!\<close>: the result of the loop that ends first; \<open>listener_first\<close> decides when both have
  ended.
\<close>

definition select_first :: "bool \<Rightarrow> 'a option \<Rightarrow> 'a option \<Rightarrow> 'a option" where
  "select_first listener_first a b =
     (case a of None \<Rightarrow> b | Some x \<Rightarrow> (case b of None \<Rightarrow> Some x | Some y \<Rightarrow> Some (if listener_first then x else y)))"

text \<open>What the chat uses: the terminal and the line editor.\<close>

record ('r, 't) chat_io =
  ci_next_line :: "'r next_line"
  ci_write_line :: "'t write_line"
  ci_magenta :: "rstr \<Rightarrow> rstr"
  ci_readline :: "(unit, 't) res"
  ci_events :: "(unit, readline_event) res list"
  ci_flush :: "(io_error, unit) res"
  ci_listener_first :: bool

definition start_chat :: "('r, 't) chat_io \<Rightarrow> 'w byte_stream \<Rightarrow> 'r \<Rightarrow> 'w \<Rightarrow> (chat_error, unit) res option" where
  "start_chat I W reader writer =
     (case ci_readline I of
        Ok terminal \<Rightarrow>
          select_first (ci_listener_first I)
            (map_option snd (chat_listen (ci_next_line I) (ci_write_line I) (ci_magenta I) reader terminal))
            (map_option snd (chat_talk W (ci_flush I) (writer, []) (ci_events I)))
      | _ \<Rightarrow> Some (Panic UnwrapFailed))"

section \<open>The two runs\<close>

definition creator_run ::
  "profile \<Rightarrow> 'r byte_stream \<Rightarrow> 'w byte_stream \<Rightarrow> message codec \<Rightarrow> 'w copy_file \<Rightarrow> 'f file_system \<Rightarrow> 'f
   \<Rightarrow> ('r, 't) chat_io \<Rightarrow> 'r \<times> 'w \<Rightarrow> local_file_meta list option \<Rightarrow> (chat_error, unit) res option" where
  "creator_run p R W C P F f I s files =
     (case creator_offer p R W C P F f s files of
        ((reader, writer), Ok _) \<Rightarrow> start_chat I W reader writer
      | (_, r) \<Rightarrow> Some r)"

definition not_creator_run ::
  "profile \<Rightarrow> 'r byte_stream \<Rightarrow> 'w byte_stream \<Rightarrow> message codec \<Rightarrow> 'r copy_take \<Rightarrow> 'f file_system
   \<Rightarrow> file_lengths \<Rightarrow> terminal \<Rightarrow> ('r, 't) chat_io \<Rightarrow> ('r \<times> 'w) \<times> 'f \<Rightarrow> (chat_error, unit) res option" where
  "not_creator_run p R W C T F fs tty I s =
     (case not_creator_answer p R W C T F fs tty s of
        (((reader, writer), f), Ok _) \<Rightarrow> start_chat I W reader writer
      | (_, r) \<Rightarrow> Some r)"

section \<open>Laws and instances\<close>

text \<open>A line that \<open>next_line\<close> gives back as it is: no line feed in it and no carriage return at its end.\<close>

definition plain_line :: "rstr \<Rightarrow> bool" where
  "plain_line text \<longleftrightarrow> list_all is_scalar text \<and> 10 \<notin> set text \<and> (text = [] \<or> last text \<noteq> 13)"

definition line_bytes :: "rstr \<Rightarrow> u8 list" where
  "line_bytes text = as_bytes text @ [10]"

text \<open>A reader over a list of bytes, and a terminal as the list of lines printed.\<close>

definition list_next_line :: "u8 list next_line" where
  "list_next_line bs =
     (if bs = [] then (bs, Ok None)
      else
        let l = takeWhile (\<lambda>b. b \<noteq> 10) bs; rest = drop (Suc (length l)) bs;
            l = (if length l < length bs \<and> l \<noteq> [] \<and> last l = 13 then butlast l else l)
        in case from_utf8 l of None \<Rightarrow> (rest, Err InvalidData) | Some text \<Rightarrow> (rest, Ok (Some text)))"

definition list_write_line :: "rstr list write_line" where
  "list_write_line t l = (t @ [l], Ok ())"

locale line_source =
  fixes next_line :: "'r next_line" and incoming :: "'r \<Rightarrow> u8 list"
  assumes next_line: "incoming r = line_bytes text @ rest \<Longrightarrow> plain_line text \<Longrightarrow>
      \<exists>r'. next_line r = (r', Ok (Some text)) \<and> incoming r' = rest"
    and end_of_lines: "incoming r = [] \<Longrightarrow> \<exists>r'. next_line r = (r', Ok None)"

locale line_printer =
  fixes write_line :: "'t write_line" and shown :: "'t \<Rightarrow> rstr list"
  assumes write_line: "\<exists>t'. write_line t l = (t', Ok ()) \<and> shown t' = shown t @ [l]"

section \<open>UTF-8\<close>

lemma unat_of_nat_small: "n < 256 \<Longrightarrow> unat (of_nat n :: u8) = n"
  by (simp add: unat_of_nat_u8)

lemma base64_digits:
  fixes c :: nat
  shows "c div 4096 * 4096 + c div 64 mod 64 * 64 + c mod 64 = c"
    and "c div 262144 * 262144 + c div 4096 mod 64 * 4096 + c div 64 mod 64 * 64 + c mod 64 = c"
proof -
  define a b where "a = c div 64" and "b = c div 4096"
  have a: "c = a * 64 + c mod 64" and b: "a = b * 64 + a mod 64" and d: "b = c div 262144 * 64 + b mod 64"
    using div_mult_mod_eq [of c 64] div_mult_mod_eq [of a 64] div_mult_mod_eq [of b 64]
    by (simp_all add: a_def b_def div_mult2_eq [symmetric])
  have "b * 4096 + a mod 64 * 64 + c mod 64 = c" using a b by linarith
  then show "c div 4096 * 4096 + c div 64 mod 64 * 64 + c mod 64 = c" by (simp add: a_def b_def)
  have "c div 262144 * 262144 + b mod 64 * 4096 + a mod 64 * 64 + c mod 64 = c" using a b d by linarith
  then show "c div 262144 * 262144 + c div 4096 mod 64 * 4096 + c div 64 mod 64 * 64 + c mod 64 = c" by (simp add: a_def b_def)
qed

lemma decode_utf8:
  assumes "c < 1114112"
  shows "decode_scalar (utf8 c @ rest) = (c, length (utf8 c))"
proof -
  consider "c < 128" | "128 \<le> c" "c < 2048" | "2048 \<le> c" "c < 65536" | "65536 \<le> c" by linarith
  then show ?thesis
  proof cases
    case 1
    then show ?thesis by (simp add: utf8_def decode_scalar_def Let_def unat_of_nat_small)
  next
    case 2
    then have "unat (of_nat (192 + c div 64) :: u8) = 192 + c div 64" "unat (of_nat (128 + c mod 64) :: u8) = 128 + c mod 64"
      by (intro unat_of_nat_small; linarith)+
    with 2 show ?thesis by (auto simp: utf8_def decode_scalar_def Let_def)
  next
    case 3
    then have "unat (of_nat (224 + c div 4096) :: u8) = 224 + c div 4096"
      "unat (of_nat (128 + c div 64 mod 64) :: u8) = 128 + c div 64 mod 64" "unat (of_nat (128 + c mod 64) :: u8) = 128 + c mod 64"
      by (intro unat_of_nat_small; linarith)+
    moreover note base64_digits(1) [of c]
    ultimately show ?thesis using 3 by (auto simp: utf8_def decode_scalar_def Let_def)
  next
    case 4
    then have "unat (of_nat (240 + c div 262144) :: u8) = 240 + c div 262144"
      "unat (of_nat (128 + c div 4096 mod 64) :: u8) = 128 + c div 4096 mod 64"
      "unat (of_nat (128 + c div 64 mod 64) :: u8) = 128 + c div 64 mod 64" "unat (of_nat (128 + c mod 64) :: u8) = 128 + c mod 64"
      using assms by (intro unat_of_nat_small; linarith)+
    moreover note base64_digits(2) [of c]
    ultimately show ?thesis using 4 by (auto simp: utf8_def decode_scalar_def Let_def)
  qed
qed

lemma utf8_not_Nil [simp]: "utf8 c \<noteq> []"
  by (simp add: utf8_def)

lemma is_scalar_bound: "is_scalar c \<Longrightarrow> c < 1114112"
  by (auto simp: is_scalar_def)

text \<open>Decoding the bytes of a string gives the string.\<close>

lemma from_utf8_as_bytes: "list_all is_scalar s \<Longrightarrow> from_utf8 (as_bytes s) = Some s"
proof (induction s)
  case Nil
  then show ?case by (simp add: as_bytes_def from_utf8.simps)
next
  case (Cons c s)
  have "as_bytes (c # s) = utf8 c @ as_bytes s" by (simp add: as_bytes_def)
  then show ?case
    using Cons decode_utf8 [OF is_scalar_bound, of c "as_bytes s"]
    by (subst from_utf8.simps) simp
qed

text \<open>A byte below 128 stands for itself only, so line ends are not found inside of characters.\<close>

lemma utf8_ascii_byte:
  assumes "b \<in> set (utf8 c)" and "c < 1114112" and "unat b < 128"
  shows "utf8 c = [b] \<and> c = unat b"
proof (cases "c < 128")
  case True
  then show ?thesis using assms(1) by (simp add: utf8_def unat_of_nat_small)
next
  case False
  have "c div 64 < 32" if "c < 2048" using that by linarith
  moreover have "c div 4096 < 16" if "c < 65536" using that by linarith
  moreover have "c div 262144 < 5" using assms(2) by linarith
  moreover have "x mod 64 < 128" for x :: nat using mod_less_divisor [of 64 x] by linarith
  ultimately have "set (utf8 c) \<subseteq> of_nat ` {128..<256}"
    using False by (auto simp: utf8_def simp del: of_nat_add intro!: imageI)
  then obtain n where "b = of_nat n" "128 \<le> n" "n < 256" using assms(1) by auto
  then show ?thesis using assms(3) by (simp add: unat_of_nat_small)
qed

lemma as_bytes_ascii_byte: "list_all is_scalar s \<Longrightarrow> b \<in> set (as_bytes s) \<Longrightarrow> unat b < 128 \<Longrightarrow> unat b \<in> set s"
  using utf8_ascii_byte is_scalar_bound by (fastforce simp: as_bytes_def list_all_iff)

lemma as_bytes_last:
  assumes "list_all is_scalar s" and "s \<noteq> []" and "last (as_bytes s) = 13"
  shows "last s = 13"
proof -
  have "as_bytes s = as_bytes (butlast s) @ utf8 (last s)"
    using arg_cong [OF append_butlast_last_id [OF assms(2)], of as_bytes] by (simp add: as_bytes_def)
  then have "last (utf8 (last s)) = 13" using assms(3) by simp
  moreover have "last s < 1114112" using assms(1,2) is_scalar_bound by (simp add: list_all_iff)
  ultimately show ?thesis using utf8_ascii_byte [of 13 "last s"] last_in_set [of "utf8 (last s)"] by simp
qed

lemma as_bytes_Nil [simp]: "as_bytes s = [] \<longleftrightarrow> s = []"
  by (cases s) (simp_all add: as_bytes_def)

interpretation list_lines: line_source list_next_line "\<lambda>bs. bs"
proof
  fix r :: "u8 list" and line rest
  assume r: "r = line_bytes line @ rest" and plain: "plain_line line"
  have "10 \<notin> set (as_bytes line)" using plain as_bytes_ascii_byte [of line 10] by (auto simp: plain_line_def)
  then have take: "takeWhile (\<lambda>b. b \<noteq> 10) r = as_bytes line"
    unfolding r line_bytes_def by (subst append_assoc, subst takeWhile_append2) auto
  have "\<not> (as_bytes line \<noteq> [] \<and> last (as_bytes line) = 13)"
    using plain as_bytes_last [of line] by (auto simp: plain_line_def)
  moreover have "from_utf8 (as_bytes line) = Some line" using plain from_utf8_as_bytes by (simp add: plain_line_def)
  moreover have "r \<noteq> []" "drop (Suc (length (as_bytes line))) r = rest" by (simp_all add: r line_bytes_def)
  ultimately show "\<exists>r'. list_next_line r = (r', Ok (Some line)) \<and> r' = rest"
    by (auto simp: list_next_line_def take Let_def)
qed (simp add: list_next_line_def)

interpretation list_terminal: line_printer list_write_line "\<lambda>t. t"
  by unfold_locales (simp add: list_write_line_def)

section \<open>The loops over lines\<close>

lemma talk_writes:
  assumes "duplex_stream W incoming sent"
  shows "\<exists>w'. chat_talk W (Ok ()) (w, history) (map (\<lambda>t. Ok (Line t)) texts @ [Ok ReadlineEof]) =
      Some ((w', history @ filter (\<lambda>t. trim t \<noteq> []) texts), Ok ()) \<and>
    sent w' = sent w @ concat (map line_bytes (filter (\<lambda>t. trim t \<noteq> []) texts))"
proof (induction texts arbitrary: w history)
  case (Cons t texts)
  show ?case
  proof (cases "trim t = []")
    case False
    obtain w1 where w1: "st_write_all W w (as_bytes t) = (w1, Ok ())" "sent w1 = sent w @ as_bytes t"
      using duplex_stream.write_all [OF assms] by blast
    obtain w2 where w2: "st_write_all W w1 [10] = (w2, Ok ())" "sent w2 = sent w1 @ [10]"
      using duplex_stream.write_all [OF assms] by blast
    obtain w3 where w3: "st_flush W w2 = (w3, Ok ())" "sent w3 = sent w2"
      using duplex_stream.flush [OF assms] by blast
    show ?thesis using Cons.IH [of w3 "history @ [t]"] False w1 w2 w3 by (auto simp: line_bytes_def)
  qed (use Cons.IH in simp)
qed simp

lemma listen_shows:
  assumes "line_source next_line incoming" and "line_printer write_line shown"
    and "incoming r = concat (map line_bytes texts)" and "list_all plain_line texts"
  shows "\<exists>r' t'. chat_listen next_line write_line magenta r t = Some ((r', t'), Ok ()) \<and>
    shown t' = shown t @ map (peer_line magenta) texts"
  using assms(3,4)
proof (induction texts arbitrary: r t)
  case Nil
  then show ?case using line_source.end_of_lines [OF assms(1), of r] by (auto simp: chat_listen.simps [of _ _ _ r])
next
  case (Cons x texts)
  then have "incoming r = line_bytes x @ concat (map line_bytes texts)" "plain_line x" by simp_all
  from line_source.next_line [OF assms(1) this] obtain r1 where
    r1: "next_line r = (r1, Ok (Some x))" "incoming r1 = concat (map line_bytes texts)" by blast
  obtain t1 where "write_line t (peer_line magenta x) = (t1, Ok ())" "shown t1 = shown t @ [peer_line magenta x]"
    using line_printer.write_line [OF assms(2)] by blast
  with Cons.IH [OF r1(2), of t1] Cons.prems(2) r1(1) show ?case by (simp add: chat_listen.simps [of _ _ _ r])
qed

section \<open>Properties\<close>

text \<open>
  C34: what is said arrives. Whatever lines the user enters before leaving, the talking side
  writes bytes such that a peer that reads them up to the end of the stream prints exactly the
  lines that are not blank, in their order, and ends. The lines may contain any Unicode characters,
  except for line feeds and for a carriage return at the end of a line (\<open>plain_line\<close>).
\<close>

theorem chat_delivers:
  assumes "duplex_stream W incomingW sent" and "line_source next_line incoming" and "line_printer write_line shown"
    and "list_all plain_line texts"
  shows "\<exists>bytes.
    (\<forall>w. \<exists>w'. chat_talk W (Ok ()) (w, []) (map (\<lambda>t. Ok (Line t)) texts @ [Ok ReadlineEof]) =
        Some ((w', filter (\<lambda>t. trim t \<noteq> []) texts), Ok ()) \<and> sent w' = sent w @ bytes) \<and>
    (\<forall>r t. incoming r = bytes \<longrightarrow>
       (\<exists>r' t'. chat_listen next_line write_line magenta r t = Some ((r', t'), Ok ()) \<and>
          shown t' = shown t @ map (peer_line magenta) (filter (\<lambda>t. trim t \<noteq> []) texts)))"
proof -
  let ?said = "filter (\<lambda>t. trim t \<noteq> []) texts"
  have "list_all plain_line ?said" using assms(4) by (auto simp: list_all_iff)
  then show ?thesis
    using talk_writes [OF assms(1), of _ "[]" texts] listen_shows [OF assms(2,3), of _ ?said]
    by (intro exI [of _ "concat (map line_bytes ?said)"]) simp
qed

section \<open>Concrete instances\<close>

theorem chat_delivers_witness:
  "\<exists>bytes.
    (\<forall>w. \<exists>w'. chat_talk pipe_stream (Ok ()) (w, []) (map (\<lambda>t. Ok (Line t)) [lit ''hi'', [960]] @ [Ok ReadlineEof]) =
        Some ((w', filter (\<lambda>t. trim t \<noteq> []) [lit ''hi'', [960]]), Ok ()) \<and> pi_out w' = pi_out w @ bytes) \<and>
    (\<forall>r t. r = bytes \<longrightarrow>
       (\<exists>r' t'. chat_listen list_next_line list_write_line (\<lambda>s. s) r t = Some ((r', t'), Ok ()) \<and>
          t' = t @ map (peer_line (\<lambda>s. s)) (filter (\<lambda>t. trim t \<noteq> []) [lit ''hi'', [960]])))"
  by (rule chat_delivers [OF pipe.duplex_stream_axioms list_lines.line_source_axioms list_terminal.line_printer_axioms])
    (simp add: plain_line_def is_scalar_def lit_def)

end
