(* ===== verification/Gday_Cli.thy ===== *)
theory Gday_Cli
  imports Gday_Main File_Dialog Chat
begin

text \<open>
  The command line program: \<open>main\<close> of \<^verbatim>\<open>gday/src/main.rs\<close>, which runs a session for each of its three
  commands. The exchange of files and the chat read and write the encrypted connection through the
  adapters of tokio; these are parameters that take the \<open>poll\<close> methods of the two ends.
\<close>

section \<open>The commands and the adapters\<close>

datatype commands = Send "path list" | ChatRoom | Join rstr

text \<open>
  \<open>ad_write\<close> is \<open>AsyncWriteExt\<close> over the \<open>poll\<close> methods of a writer and \<open>ad_copy\<close> the copy of a file into
  it; \<open>ad_read\<close> is \<open>AsyncReadExt\<close> over \<open>poll_read\<close>, \<open>ad_take\<close> and \<open>ad_next_line\<close> are \<open>copy_buf\<close> with a limit and
  \<open>next_line\<close>, which call \<open>poll_fill_buf\<close> and \<open>consume\<close>.
\<close>

record ('w, 'r) adapters =
  ad_write :: "('w \<Rightarrow> u8 list \<Rightarrow> ('w, nat) run) \<Rightarrow> ('w \<Rightarrow> ('w, unit) run) \<Rightarrow> 'w byte_stream"
  ad_copy :: "('w \<Rightarrow> u8 list \<Rightarrow> ('w, nat) run) \<Rightarrow> ('w \<Rightarrow> ('w, unit) run) \<Rightarrow> 'w copy_file"
  ad_read :: "('r \<Rightarrow> nat \<Rightarrow> ('r, u8 list) run) \<Rightarrow> 'r byte_stream"
  ad_take :: "('r \<Rightarrow> ('r, u8 list) run) \<Rightarrow> ('r \<Rightarrow> nat \<Rightarrow> (io_error, 'r) res) \<Rightarrow> 'r copy_take"
  ad_next_line :: "('r \<Rightarrow> ('r, u8 list) run) \<Rightarrow> ('r \<Rightarrow> nat \<Rightarrow> (io_error, 'r) res) \<Rightarrow> 'r next_line"

text \<open>The computer of a user: its file system with the folders, and its terminal.\<close>

record ('r, 't, 'f) desk =
  dk_dirs :: directories
  dk_lower :: "rstr \<Rightarrow> rstr"
  dk_tty :: terminal
  dk_codec :: "message codec"
  dk_files :: "'f file_system"
  dk_disk :: 'f
  dk_lengths :: file_lengths
  dk_chat :: "('r, 't) chat_io"

section \<open>The two sides of a session\<close>

text \<open>The libraries of a peer, the adapters over its ends and the desk, all in one argument.\<close>

record ('s, 'p, 'q, 'k, 'n, 'r, 'w, 'b, 'e, 'd, 't, 'f, 'l, 'c, 'g) machine =
  mc_profile :: profile
  mc_upper :: "scalar \<Rightarrow> rstr"
  mc_libs :: "('s, 'p, 'q, 'k, 'n, 'r, 'w, 'b, 'e, 'd) peer_libs"
  mc_dialer :: "('l, 'c, 's) dialer"
  mc_adapters :: "(('w, 'e, 'b) encrypted_writer, ('r, 'd, 'b) encrypted_reader) adapters"
  mc_desk :: "(('r, 'd, 'b) encrypted_reader, 't, 'f) desk"
  mc_gen_range :: "'g \<Rightarrow> nat \<Rightarrow> u32 \<times> 'g"
  mc_rng :: 'g

text \<open>The adapters over the two ends of the encrypted connection.\<close>

definition session_writer where
  "session_writer M =
     (let G = mc_libs M
      in ad_write (mc_adapters M) (poll_write (mc_profile M) (pl_buf G) (pl_aead G) (pl_write G))
           (poll_flush (mc_profile M) (pl_buf G) (pl_aead G) (pl_write G)))"

definition session_copy where
  "session_copy M =
     (let G = mc_libs M
      in ad_copy (mc_adapters M) (poll_write (mc_profile M) (pl_buf G) (pl_aead G) (pl_write G))
           (poll_flush (mc_profile M) (pl_buf G) (pl_aead G) (pl_write G)))"

definition session_reader where
  "session_reader M =
     (let G = mc_libs M in ad_read (mc_adapters M) (poll_read (mc_profile M) (pl_buf G) (pl_aead G) (pl_read G)))"

definition session_take where
  "session_take M =
     (let G = mc_libs M
      in ad_take (mc_adapters M) (poll_fill_buf (mc_profile M) (pl_buf G) (pl_aead G) (pl_read G)) (consume (mc_profile M) (pl_buf G)))"

definition session_chat where
  "session_chat M =
     (let G = mc_libs M
      in (dk_chat (mc_desk M))\<lparr>ci_next_line :=
           ad_next_line (mc_adapters M) (poll_fill_buf (mc_profile M) (pl_buf G) (pl_aead G) (pl_read G))
             (consume (mc_profile M) (pl_buf G))\<rparr>)"

definition run_creator where
  "run_creator M files ends =
     map_option or_exit (creator_run (mc_profile M) (session_reader M) (session_writer M) (dk_codec (mc_desk M))
       (session_copy M) (dk_files (mc_desk M)) (dk_disk (mc_desk M)) (session_chat M) (snd ends, fst ends) files)"

definition run_joiner where
  "run_joiner M ends =
     map_option or_exit (not_creator_run (mc_profile M) (session_reader M) (session_writer M) (dk_codec (mc_desk M))
       (session_take M) (dk_files (mc_desk M)) (dk_lengths (mc_desk M)) (dk_tty (mc_desk M)) (session_chat M)
       ((snd ends, fst ends), dk_disk (mc_desk M)))"

section \<open>The program\<close>

text \<open>
  The passwords printed and how the program ends. \<open>fuel\<close> bounds the walk over directories of
  \<open>confirm_send\<close>.
\<close>

definition open_session where
  "open_session M files =
     (case start_room (mc_libs M) (mc_dialer M) (mc_gen_range M) (mc_rng M) of (printed, r) \<Rightarrow>
      (printed, bind_fuel r (run_creator M files)))"

definition main where
  "main fuel M operation =
     (case operation of
        Send paths \<Rightarrow>
          (case map_option or_exit (confirm_send fuel (mc_profile M) (dk_dirs (mc_desk M)) (dk_lower (mc_desk M)) (dk_tty (mc_desk M)) paths) of
             Some (Ok files) \<Rightarrow> open_session M (Some files)
           | Some (Err e) \<Rightarrow> ([], Some (Err e))
           | Some (Panic q) \<Rightarrow> ([], Some (Panic q))
           | None \<Rightarrow> ([], None))
      | ChatRoom \<Rightarrow> open_session M None
      | Join password \<Rightarrow>
          ([], bind_fuel (join_room (mc_profile M) (mc_upper M) (mc_libs M) (mc_dialer M) password) (run_joiner M)))"

section \<open>A concrete machine\<close>

definition still_stream :: "'s byte_stream" where
  "still_stream =
     \<lparr>st_read_u32 = (\<lambda>s. (s, Err UnexpectedEof)), st_read_exact = (\<lambda>s dst. (s, dst, Err UnexpectedEof)),
      st_write_all = (\<lambda>s _. (s, Ok ())), st_flush = (\<lambda>s. (s, Ok ())),
      st_local_addr = (\<lambda>_. Err UnexpectedEof), st_peer_addr = (\<lambda>_. Err UnexpectedEof)\<rparr>"

text \<open>A machine whose connection breaks down when the session starts, and a server that opens room 9.\<close>

definition list_machine where
  "list_machine =
     \<lparr>mc_profile = Debug, mc_upper = ascii_table, mc_libs = list_peer_libs,
      mc_dialer = list_dialer (frame (enc_server_message (RoomCreated 9))),
      mc_adapters = \<lparr>ad_write = (\<lambda>_ _. still_stream), ad_copy = (\<lambda>_ _ w _. (w, Ok ())), ad_read = (\<lambda>_. still_stream),
        ad_take = (\<lambda>_ _ r _. (r, [], Ok ())), ad_next_line = (\<lambda>_ _ r. (r, Ok None))\<rparr>,
      mc_desk = \<lparr>dk_dirs = two_dirs, dk_lower = (\<lambda>s. s), dk_tty = \<lparr>tm_flush = Ok (), tm_read_line = Ok (lit ''y'')\<rparr>,
        dk_codec = message_codec, dk_files = map_fs, dk_disk = Map.empty, dk_lengths = Map.empty,
        dk_chat = \<lparr>ci_next_line = (\<lambda>r. (r, Ok None)), ci_write_line = list_write_line, ci_magenta = (\<lambda>s. s),
          ci_readline = Ok [], ci_events = [], ci_flush = Ok (), ci_listener_first = True\<rparr>\<rparr>,
      mc_gen_range = (\<lambda>g n. (7, g)), mc_rng = ()\<rparr>"

section \<open>Properties\<close>

text \<open>
  C30: the two users of a session. When the program prints a password for the one who sends
  files or chats, it has the room and the files this user confirmed; the other user who runs it
  with that password, in upper or lower case and with white space around it, goes to the same
  room with the same secret. After that both run their side of the session on the connection
  they get.
\<close>

theorem password_joins_session:
  assumes "ascii_upper (mc_upper M')" and "\<forall>c \<in> set u \<union> set v. is_whitespace c"
    and "main fuel M operation = ([password], r)"
  shows "\<exists>files server_conn sharer room_id secret.
    (case operation of
       Send paths \<Rightarrow> \<exists>fs. files = Some fs \<and>
         confirm_send fuel (mc_profile M) (dk_dirs (mc_desk M)) (dk_lower (mc_desk M)) (dk_tty (mc_desk M)) paths = Some (Ok fs)
     | ChatRoom \<Rightarrow> files = None
     | Join _ \<Rightarrow> False) \<and>
    connect_to_server (mc_dialer M) = Ok server_conn \<and>
    sharer_create_room (pl_server (mc_libs M)) (pl_requests (mc_libs M)) (pl_replies (mc_libs M))
      (fst server_conn) (snd server_conn) = Ok (sharer, room_id) \<and>
    r = bind_fuel (establish_peer_connection (mc_libs M) sharer secret) (run_creator M files) \<and>
    (\<forall>typed \<in> {password, map to_ascii_lowercase password}.
       main fuel' M' (Join (u @ typed @ v)) =
         ([], bind_fuel (join_with (mc_libs M') (mc_dialer M') room_id secret) (run_joiner M')))"
proof -
  from assms(3) obtain files where files: "open_session M files = ([password], r)"
    "case operation of
       Send paths \<Rightarrow> \<exists>fs. files = Some fs \<and>
         confirm_send fuel (mc_profile M) (dk_dirs (mc_desk M)) (dk_lower (mc_desk M)) (dk_tty (mc_desk M)) paths = Some (Ok fs)
     | ChatRoom \<Rightarrow> files = None | Join _ \<Rightarrow> False"
    by (fastforce simp: main_def rust_simps split: commands.splits option.splits res.splits)
  then obtain r' where r': "start_room (mc_libs M) (mc_dialer M) (mc_gen_range M) (mc_rng M) = ([password], r')"
    "r = bind_fuel r' (run_creator M files)"
    by (auto simp: open_session_def split: prod.splits)
  from password_leads_to_room [OF assms(1,2) r'(1), of "mc_profile M'" "mc_libs M'" "mc_dialer M'"] obtain server_conn sharer room_id secret where
    "connect_to_server (mc_dialer M) = Ok server_conn"
    "sharer_create_room (pl_server (mc_libs M)) (pl_requests (mc_libs M)) (pl_replies (mc_libs M))
      (fst server_conn) (snd server_conn) = Ok (sharer, room_id)"
    "r' = establish_peer_connection (mc_libs M) sharer secret"
    and "\<forall>typed \<in> {password, map to_ascii_lowercase password}.
      join_room (mc_profile M') (mc_upper M') (mc_libs M') (mc_dialer M') (u @ typed @ v) = join_with (mc_libs M') (mc_dialer M') room_id secret"
    by auto
  with files(2) r'(2) show ?thesis by (auto simp: main_def)
qed

section \<open>Concrete instances\<close>

theorem password_joins_session_witness:
  "\<exists>password r files server_conn sharer room_id secret.
    main 1 list_machine (Send [lit ''/a/x'']) = ([password], r) \<and>
    (\<exists>fs. files = Some fs \<and> confirm_send 1 Debug two_dirs (\<lambda>s. s) \<lparr>tm_flush = Ok (), tm_read_line = Ok (lit ''y'')\<rparr> [lit ''/a/x''] = Some (Ok fs)) \<and>
    connect_to_server (mc_dialer list_machine) = Ok server_conn \<and>
    sharer_create_room pipe_stream client_codec server_codec (fst server_conn) (snd server_conn) = Ok (sharer, room_id) \<and>
    r = bind_fuel (establish_peer_connection list_peer_libs sharer secret) (run_creator list_machine files) \<and>
    (\<forall>typed \<in> {password, map to_ascii_lowercase password}.
       main 1 list_machine (Join ([32] @ typed @ [10])) =
         ([], bind_fuel (join_with list_peer_libs (mc_dialer list_machine) room_id secret) (run_joiner list_machine)))"
proof -
  obtain password r' where start: "start_room list_peer_libs (list_dialer (frame (enc_server_message (RoomCreated 9)))) (\<lambda>g n. (7, g)) () =
      ([password], r')" by (rule list_room_started)
  let ?files = "[\<lparr>lm_local_path = lit ''/a/x'', lm_public_path = lit ''x'', lm_size = 1\<rparr>]"
  have "confirm_send 1 Debug two_dirs (\<lambda>s. s) \<lparr>tm_flush = Ok (), tm_read_line = Ok (lit ''y'')\<rparr> [lit ''/a/x''] = Some (Ok ?files)"
    by (simp add: confirm_send_def two_dirs_def starts_with_def components_def names_def is_absolute_def lit_def strip_prefix_def
        parent_def u64_add_def trim_def is_whitespace_def)
  with start have m: "main 1 list_machine (Send [lit ''/a/x'']) = ([password], bind_fuel r' (run_creator list_machine (Some ?files)))"
    by (simp add: main_def list_machine_def or_exit_def open_session_def)
  have M: "mc_upper list_machine = ascii_table" "mc_libs list_machine = list_peer_libs" "mc_profile list_machine = Debug"
    "dk_dirs (mc_desk list_machine) = two_dirs" "dk_lower (mc_desk list_machine) = (\<lambda>s. s)"
    "dk_tty (mc_desk list_machine) = \<lparr>tm_flush = Ok (), tm_read_line = Ok (lit ''y'')\<rparr>"
    and G: "pl_server list_peer_libs = pipe_stream" "pl_requests list_peer_libs = client_codec" "pl_replies list_peer_libs = server_codec"
    by (simp_all add: list_machine_def list_peer_libs_def)
  have "ascii_upper (mc_upper list_machine)" by (simp add: M ascii_upper_table)
  from password_joins_session [OF this _ m, of "[32]" "[10]" 1] m show ?thesis
    unfolding M G by (simp add: is_whitespace_def)
qed

end
