(* ===== verification/Spec2Isabelle.thy ===== *)
theory Spec2Isabelle
  imports Accept_Loop Rendezvous Gday_Cli
begin

text \<open>
  This library models gday, a program with which two people exchange files and chat over a direct
  encrypted connection, and proves what its parts do.

  \<^bold>\<open>The program.\<close> A peer opens or joins a room on a server and tells it its addresses; the server
  shall tell each peer the addresses of the other one. The peers then connect directly, prove to
  each other that they know the secret of the password, encrypt the connection, exchange files and
  chat. The password, made of the room and the secret, is passed on by the users.

  \<^bold>\<open>The theories\<close>, in the order of the imports, and the sources below \<^verbatim>\<open>src/\<close> that they model:

  \<^item> \<open>Gday_Prelude\<close>: results with errors and panics (\<open>res\<close>), the \<open>?\<close> operator on results, on calls
    that update a state (\<open>bind_st\<close>) and on calls that may not return (\<open>bind_fuel\<close>), machine integers
    in both build profiles, big-endian bytes, and the proof rule for invariants (\<open>invariant_system\<close>).
  \<^item> \<open>Base32\<close> (\<^verbatim>\<open>gday/src/base32.rs\<close>): room codes. Strings are lists of Unicode scalar values; the
    UTF-8 encoding is written out.
  \<^item> \<open>Wire_Types\<close>, \<open>Postcard\<close>, \<open>Messenger\<close> (\<^verbatim>\<open>gday_hole_punch/src/lib.rs\<close>): the messages between client
    and server, the laws of the serialization library with an encoder that satisfies them, and
    the framing of messages over a stream.
  \<^item> \<open>Global_State\<close>, \<open>Connection_Handler\<close> (\<^verbatim>\<open>server/global_state.rs\<close>, \<^verbatim>\<open>server/connection_handler.rs\<close>):
    the rooms, one atomic operation per method that takes the mutex, the timers as steps, and the
    protocol of a connection up to the point where it awaits its peer. The relation \<open>server_step\<close> is any
    number of connections over the shared rooms.
  \<^item> \<open>Accept_Loop\<close> (\<^verbatim>\<open>server.rs\<close>): the block list, with the steps of the loop and of the timers
    interleaved at the places where the mutex is free.
  \<^item> \<open>Contact_Sharer\<close> (\<^verbatim>\<open>client.rs\<close>, \<^verbatim>\<open>client/contact_sharer.rs\<close>, \<^verbatim>\<open>server_connection.rs\<close>),
    \<open>Rendezvous\<close>: the client of the server, and client and server over the same bytes.
  \<^item> \<open>Peer_Connector\<close> (\<^verbatim>\<open>client/peer_connector.rs\<close>): the attempts to reach the peer and its verification.
  \<^item> \<open>Bytes_Mut\<close>, \<open>Helper_Buf\<close>, \<open>Aead_Stream\<close>, \<open>Encrypted_Writer\<close>, \<open>Encrypted_Reader\<close>, \<open>Encrypted_Channel\<close>
    (\<^verbatim>\<open>gday_encryption/src\<close>): the buffers and the two polled ends of the encrypted connection, each
    \<open>poll\<close> method a function from the state of the end and of its inner stream.
  \<^item> \<open>Paths\<close>, \<open>Chat_Protocol\<close>, \<open>File_Transfer\<close>, \<open>File_Dialog\<close>, \<open>Chat\<close> (\<^verbatim>\<open>gday_chat/src\<close>): paths as the
    standard library treats them, the messages between peers, the transfer of files, the dialogs
    and the walk over directories, the chat and the two entry points.
  \<^item> \<open>Gday_Main\<close> (\<^verbatim>\<open>gday/src/main.rs\<close>, \<^verbatim>\<open>gday/src/server_connector.rs\<close>): from the connections to the server
    to an encrypted connection, for the one who opens a room and the one who joins it.
  \<^item> \<open>Gday_Cli\<close> (\<^verbatim>\<open>gday/src/main.rs\<close>): \<open>main\<close>, which composes the dialog, the room and the session for each
    command. \<open>machine\<close> collects the libraries and the files of a user.

  \<^bold>\<open>Correspondence.\<close> A struct is a record with its fields in order, an enum a datatype. A method on
  \<open>&mut self\<close> takes the record and returns it with the result, also when the result is an error. A
  panic (an index out of range, an \<open>unwrap\<close>, an arithmetic overflow in a debug build) is the value
  \<open>Panic\<close>, a call of \<open>exit\<close> the error \<open>Exit\<close>. A loop that need not end is a partial function into
  \<open>option\<close>, or takes fuel; \<open>None\<close> means that it does not return. A step of the server is what a task
  does between two points where it waits or where the mutex is free, with two exceptions that are
  taken in one step: the two updates of \<open>handle_message\<close> for one report, and the insertion into the
  block list with the spawning of the tasks in \<open>serve_client\<close>.

  \<^bold>\<open>Parameters.\<close> Libraries are records of functions, with their documented behaviour as the
  assumptions of a locale that is interpreted on a concrete instance: the serializer
  (\<open>postcard_codec\<close>), streams (\<open>duplex_stream\<close>), one-shot channels, \<open>BytesMut\<close> (\<open>bytes_mut_laws\<close>), the
  cipher (\<open>aead_laws\<close>), the inner reader and writer (\<open>reader_env\<close>, \<open>writer_env\<close>), SPAKE2, SHA-256 and
  \<open>select_ok\<close> (\<open>spake_laws\<close>, \<open>hash_laws\<close>, \<open>select_laws\<close>), copying files (\<open>copy_sink\<close>), reading and printing
  lines (\<open>line_source\<close>, \<open>line_printer\<close>). File system, terminal, sockets and the source of random numbers
  are arguments.

  \<^bold>\<open>What is shown.\<close>
  \<^item> Encryption: the reader delivers a prefix of what the writer accepted, all of it at the end of
    the stream after a flush; each call returns when the inner stream makes progress; what a cut,
    forged or oversized frame leads to.
  \<^item> Server: the state refines a directory of addresses, of which each connection writes its own
    entries only; every room expires; connections of one address are served five seconds apart
    when decisions are not interleaved, and not otherwise. The contacts are never exchanged, since
    the sender of a waiting client is dropped.
  \<^item> Client and server: opening and joining a room, from the request to the reply, and the fate of
    a second connection.
  \<^item> Peers: two peers with the same secret verify each other and no other end of the same role
    passes; the session uses the key of such a verification; the password that one user gets
    leads the other one to the same room and secret.
  \<^item> Files and chat: offered files arrive with their contents; what each dialog returns; lines
    arrive as they were entered.

  \<^bold>\<open>Bounds and fuel.\<close> A chunk of the encrypted connection has 8192 bytes, of which 8188 follow the
  length and 8172 are plaintext; the buffer for ciphertext has 16384. The buffer of a messenger has
  68 bytes, 64 for an encoding. The ids of rooms are below \<open>2 ^ 20\<close>. The only fuel is that of the walk
  over directories; the depth of the tree suffices (\<open>walk_collects\<close>).

  \<^bold>\<open>Not modelled.\<close> The parsing of the arguments and the configuration of the TLS library
  (\<open>get_tls_connector\<close>, \<^verbatim>\<open>gday_server/src/main.rs\<close>), which only call libraries; what is printed, except
  for passwords and chat lines; the progress bar, except for its count; socket options whose results
  the code ignores. The adapters of tokio between the polled ends of the encrypted connection and
  the streams of the exchange of files are parameters of \<open>main\<close>; laws for them, which would carry the
  properties of the encrypted connection over to a whole session, are left for later.
\<close>

section \<open>Client and server together\<close>

text \<open>
  C22: opening a room, both sides together. There is a request such that a server handler that
  reads it opens the room, records it in the shared state and answers; a client whose stream
  brings that answer has sent that request and returns the id of that very room.
\<close>

theorem room_created_end_to_end:
  assumes "rendezvous S incoming sent CC enc_c valid_c SC enc_s valid_s L incoming' sent'"
    and "valid_c CreateRoom" and "valid_s (RoomCreated room_id)"
  shows "\<exists>request. \<forall>h gs g.
    reads incoming' h request \<and> create_room (lib_gen L) (hs_state h) (hs_rng h) = Some (room_id, gs, g) \<longrightarrow>
    (\<exists>h' reply. start L h = Some (h', Ok (room_id, True)) \<and> hs_state h' = gs \<and> wrote sent' h h' reply \<and>
       (\<forall>v6 v4 rest. streams_ok S v6 v4 \<and> incoming (first_stream v6 v4) = reply @ rest \<longrightarrow>
          (\<exists>c. sharer_create_room S CC SC v6 v4 = Ok (\<lparr>sh_is_creator = True, sh_connection = c\<rparr>, room_id) \<and>
             asked S sent v6 v4 request c)))"
  using rendezvous.created [OF assms] by blast

text \<open>
  C23: joining a room, both sides together. There is a request such that a server handler that
  reads it answers and leaves the shared state alone; a client whose stream brings the answer
  has sent that request, and it is in the room exactly when the room exists: otherwise the
  handler ends with \<open>NoSuchRoomId\<close> and the client with \<open>InvalidServerReply\<close>.
\<close>

theorem room_joined_end_to_end:
  assumes "rendezvous S incoming sent CC enc_c valid_c SC enc_s valid_s L incoming' sent'"
    and "valid_c (JoinRoom room_id)" and "valid_s RoomJoined" and "valid_s ErrorNoSuchRoomID"
  shows "\<exists>request. \<forall>h. reads incoming' h request \<longrightarrow>
    (\<exists>h' reply. start L h = Some (h', if room_exists (hs_state h) room_id then Ok (room_id, False) else Err SrvNoSuchRoomId) \<and>
       hs_state h' = hs_state h \<and> wrote sent' h h' reply \<and>
       (\<forall>v6 v4 rest. streams_ok S v6 v4 \<and> incoming (first_stream v6 v4) = reply @ rest \<longrightarrow>
          (\<exists>c. sharer_join_room S CC SC v6 v4 room_id =
               (if room_exists (hs_state h) room_id then Ok \<lparr>sh_is_creator = False, sh_connection = c\<rparr> else Err InvalidServerReply) \<and>
             asked S sent v6 v4 request c)))"
  using rendezvous.joined [OF assms] by blast

text \<open>
  C24: a client with an IPv6 and an IPv4 stream reports its addresses on both, but asked for the
  room on the first one only. All that the server ever reads on the second connection is the
  report, which its handler answers with \<open>SyntaxError\<close> and drops: the state keeps no trace of it,
  so the IPv4 addresses of such a client are not recorded.
\<close>

theorem second_connection_rejected:
  assumes "rendezvous S incoming sent CC enc_c valid_c SC enc_s valid_s L incoming' sent'"
    and "valid_c (SendPrivateAddr (Some b))" and "asked S sent (Some s6) (Some s4) request (sh_connection sharer)"
    and "st_local_addr S s4 = Ok b"
  shows "\<exists>m n report. fst (get_peer_connector S CC SC sharer) = [m, n] \<and> sent (ms_stream n) = sent s4 @ report \<and>
    (\<forall>h. reads incoming' h report \<longrightarrow>
       (\<exists>h'. start L h = Some (h', Err ReceivedIncorrectMessage) \<and> hs_state h' = hs_state h \<and>
          wrote sent' h h' (frame (enc_s SyntaxError))))"
  using assms by (rule rendezvous.second_rejected)

section \<open>Concrete instances\<close>

theorem room_created_end_to_end_witness:
  "\<exists>request. \<forall>h gs g.
    reads pi_in h request \<and> create_room (lib_gen pipe_libs) (hs_state h) (hs_rng h) = Some (0, gs, g) \<longrightarrow>
    (\<exists>h' reply. start pipe_libs h = Some (h', Ok (0, True)) \<and> hs_state h' = gs \<and> wrote pi_out h h' reply \<and>
       (\<forall>v6 v4 rest. streams_ok pipe_stream v6 v4 \<and> pi_in (first_stream v6 v4) = reply @ rest \<longrightarrow>
          (\<exists>c. sharer_create_room pipe_stream client_codec server_codec v6 v4 =
               Ok (\<lparr>sh_is_creator = True, sh_connection = c\<rparr>, 0) \<and> asked pipe_stream pi_out v6 v4 request c)))"
  by (rule room_created_end_to_end [OF pipe_meet.rendezvous_axioms]) simp_all

theorem room_joined_end_to_end_witness:
  "\<exists>request. \<forall>h. reads pi_in h request \<longrightarrow>
    (\<exists>h' reply. start pipe_libs h = Some (h', if room_exists (hs_state h) 5 then Ok (5, False) else Err SrvNoSuchRoomId) \<and>
       hs_state h' = hs_state h \<and> wrote pi_out h h' reply \<and>
       (\<forall>v6 v4 rest. streams_ok pipe_stream v6 v4 \<and> pi_in (first_stream v6 v4) = reply @ rest \<longrightarrow>
          (\<exists>c. sharer_join_room pipe_stream client_codec server_codec v6 v4 5 =
               (if room_exists (hs_state h) 5 then Ok \<lparr>sh_is_creator = False, sh_connection = c\<rparr> else Err InvalidServerReply) \<and>
             asked pipe_stream pi_out v6 v4 request c)))"
  by (rule room_joined_end_to_end [OF pipe_meet.rendezvous_axioms]) simp_all

theorem second_connection_rejected_witness:
  "\<exists>sharer m n report. fst (get_peer_connector pipe_stream client_codec server_codec sharer) = [m, n] \<and>
    pi_out (ms_stream n) = pi_out (idle_pipe []) @ report \<and>
    (\<forall>h. reads pi_in h report \<longrightarrow>
       (\<exists>h'. start pipe_libs h = Some (h', Err ReceivedIncorrectMessage) \<and> hs_state h' = hs_state h \<and>
          wrote pi_out h h' (frame (enc_server_message SyntaxError))))"
proof -
  let ?s6 = "(idle_pipe (frame (enc_server_message (RoomCreated 0))))
    \<lparr>pi_local := V6 \<lparr>v6_ip = 1, v6_port = 1, v6_flowinfo = 0, v6_scope_id = 0\<rparr>\<rparr>"
  let ?s4 = "idle_pipe []"
  have ok: "streams_ok pipe_stream (Some ?s6) (Some ?s4)"
    by (simp add: streams_ok_def pipe_stream_def idle_pipe_def)
  have reply: "pi_in (first_stream (Some ?s6) (Some ?s4)) = frame (enc_server_message (RoomCreated 0)) @ []"
    by (simp add: first_stream_def idle_pipe_def)
  have "valid_server_message (RoomCreated 0)" "length (enc_server_message (RoomCreated 0)) \<le> 64"
    using server_replies_fit unfolding replies_fit_def by (simp, blast)
  from pipe_client.create_room_reply [OF ok reply this(1) client_requests_writable this(2)] obtain c where
    "asked pipe_stream pi_out (Some ?s6) (Some ?s4) (frame (enc_client_message CreateRoom)) c" by blast
  then have "asked pipe_stream pi_out (Some ?s6) (Some ?s4) (frame (enc_client_message CreateRoom))
      (sh_connection \<lparr>sh_is_creator = True, sh_connection = c\<rparr>)" by simp
  moreover have "st_local_addr pipe_stream ?s4 = Ok (V4 \<lparr>v4_ip = 1, v4_port = 1\<rparr>)"
    by (simp add: pipe_stream_def idle_pipe_def)
  ultimately show ?thesis
    by (intro exI [of _ "\<lparr>sh_is_creator = True, sh_connection = c\<rparr>"],
        intro second_connection_rejected [OF pipe_meet.rendezvous_axioms]) simp_all
qed

end
